(* ===== verification/Prelude.thy ===== *)
theory Prelude
  imports Main "HOL-Library.Finite_Map" "HOL-Library.Char_ord" "HOL-Library.List_Lexorder"
begin

text \<open>
  The vocabulary shared by every component of the workflow controller.

  Go maps are finite maps (\<open>fmap\<close> of HOL-Library.Finite_Map).  Where the code distinguishes the
  nil map from the empty one (reading a nil map gives nothing, writing to it panics) the type is
  \<open>'v nilmap\<close>, an option of a map.  A panic of the Go runtime is the value None of the
  function that panics.  The order in which \<^verbatim>\<open>range\<close> visits a map is chosen by the Go runtime
  anew for every loop; a loop over a map therefore takes the visiting order as an argument, and
  \<open>range_order m ks\<close> says that \<open>ks\<close> is such an order.
\<close>

section \<open>Collections of hints\<close>

named_theorems gomap_simps \<open>reading and writing Go maps, nil maps included\<close>
named_theorems wf_intros \<open>introduction rules of the components' invariants\<close>

section \<open>Go maps\<close>

type_synonym 'v gomap = "(string, 'v) fmap"
type_synonym 'v nilmap = "(string, 'v) fmap option"

text \<open>Reading: \<^verbatim>\<open>v, ok := m[k]\<close>.  A nil map has no entries.\<close>

definition map_get :: "'v nilmap \<Rightarrow> string \<Rightarrow> 'v option" where
  "map_get m k = (case m of None \<Rightarrow> None | Some f \<Rightarrow> fmlookup f k)"

text \<open>Writing: \<^verbatim>\<open>m[k] = v\<close>.  None is the panic "assignment to entry in nil map".\<close>

definition map_put :: "'v nilmap \<Rightarrow> string \<Rightarrow> 'v \<Rightarrow> 'v nilmap option" where
  "map_put m k v = (case m of None \<Rightarrow> None | Some f \<Rightarrow> Some (Some (fmupd k v f)))"

text \<open>The entries of a map that may be nil, for reading and ranging.\<close>

definition entries :: "'v nilmap \<Rightarrow> 'v gomap" where
  "entries m = (case m of None \<Rightarrow> fmempty | Some f \<Rightarrow> f)"

lemma entries_simps [simp, gomap_simps]:
  "entries None = fmempty" "entries (Some f) = f"
  by (simp_all add: entries_def)

lemma map_get_simps [simp, gomap_simps]:
  "map_get None k = None" "map_get (Some f) k = fmlookup f k"
  by (simp_all add: map_get_def)

lemma map_put_simps [simp, gomap_simps]:
  "map_put None k v = None" "map_put (Some f) k v = Some (Some (fmupd k v f))"
  by (simp_all add: map_put_def)

lemma map_get_entries: "map_get m k = fmlookup (entries m) k"
  by (cases m) simp_all

lemma map_put_None_iff: "map_put m k v = None \<longleftrightarrow> m = None"
  by (cases m) simp_all

lemma fmdom_empty_iff: "fmdom m = {||} \<longleftrightarrow> m = fmempty"
  by (metis bot_fset.rep_eq empty_iff fmap_ext fmdom_empty fmdom_notD fmempty_lookup)

section \<open>Iteration order\<close>

definition range_order :: "'v gomap \<Rightarrow> string list \<Rightarrow> bool" where
  "range_order m ks \<longleftrightarrow> distinct ks \<and> fset_of_list ks = fmdom m"

text \<open>\<^verbatim>\<open>sort.Strings\<close> of the keys: Go compares strings byte by byte, as the list order does.\<close>

definition sorted_keys :: "'v gomap \<Rightarrow> string list" where
  "sorted_keys m = sorted_list_of_fset (fmdom m)"

lemma range_order_set: "range_order m ks \<Longrightarrow> set ks = fmdom' m"
  by (metis fmdom'_alt_def fset_of_list.rep_eq range_order_def)

lemma range_order_distinct: "range_order m ks \<Longrightarrow> distinct ks"
  by (simp add: range_order_def)

lemma range_order_mem: "range_order m ks \<Longrightarrow> k \<in> set ks \<longleftrightarrow> (\<exists>v. fmlookup m k = Some v)"
  by (simp add: range_order_set fmlookup_dom'_iff)

lemma range_orderI: "distinct ks \<Longrightarrow> set ks = fmdom' m \<Longrightarrow> range_order m ks"
  by (auto simp: range_order_def fmdom'_alt_def fset_of_list.rep_eq fset_eq_iff)

lemma range_order_sorted_keys [simp]: "range_order m (sorted_keys m)"
  by (auto simp: sorted_keys_def range_order_def fset_of_list.rep_eq fset_eq_iff
      sorted_list_of_fset.rep_eq)

lemma sorted_keys_set [simp]: "set (sorted_keys m) = fmdom' m"
  by (simp add: sorted_keys_def fmdom'_alt_def)

lemma sorted_keys_sorted [simp]: "sorted (sorted_keys m)"
  by (simp add: sorted_keys_def sorted_list_of_fset.rep_eq)

lemma sorted_keys_distinct [simp]: "distinct (sorted_keys m)"
  by (simp add: sorted_keys_def sorted_list_of_fset.rep_eq)

lemma range_order_empty [simp]: "range_order fmempty ks \<longleftrightarrow> ks = []"
  by (auto simp: range_order_def fset_of_list.rep_eq fset_eq_iff)

lemma range_order_length: "range_order m ks \<Longrightarrow> length ks = card (fmdom' m)"
  by (metis distinct_card range_order_distinct range_order_set)

text \<open>
  The copying loop \<^verbatim>\<open>for k, v := range src { dst[k] = v }\<close>, and the fact that its result does
  not depend on the order: it is the override of \<open>dst\<close> by \<open>src\<close>.
\<close>

fun range_copy :: "'v gomap \<Rightarrow> string list \<Rightarrow> 'v gomap \<Rightarrow> 'v gomap" where
  "range_copy src [] dst = dst"
| "range_copy src (k # ks) dst =
     range_copy src ks (case fmlookup src k of None \<Rightarrow> dst | Some v \<Rightarrow> fmupd k v dst)"

lemma range_copy_lookup:
  "fmlookup (range_copy src ks dst) k =
     (if k \<in> set ks \<and> fmlookup src k \<noteq> None then fmlookup src k else fmlookup dst k)"
  by (induction ks arbitrary: dst) (auto split: option.splits)

lemma range_copy_add [simp]:
  assumes "range_order src ks"
  shows "range_copy src ks dst = dst ++\<^sub>f src"
proof (rule fmap_ext)
  fix k
  show "fmlookup (range_copy src ks dst) k = fmlookup (dst ++\<^sub>f src) k"
    using range_order_mem [OF assms, of k]
    by (auto simp: range_copy_lookup fmlookup_dom_iff)
qed

section \<open>Lists, strings and sorting\<close>

text \<open>\<^verbatim>\<open>strings.Split(s, sep)\<close> for a separator of one byte.\<close>

fun split_on :: "char \<Rightarrow> string \<Rightarrow> string list" where
  "split_on c [] = [[]]"
| "split_on c (x # xs) =
     (if x = c then [] # split_on c xs
      else case split_on c xs of [] \<Rightarrow> [[x]] | w # ws \<Rightarrow> (x # w) # ws)"

lemma split_on_nonempty [simp]: "split_on c s \<noteq> []"
  by (induction s) (auto split: list.splits)

lemma split_on_no_sep: "c \<notin> set s \<Longrightarrow> split_on c s = [s]"
  by (induction s) auto

lemma split_on_one: "c \<notin> set a \<Longrightarrow> split_on c (a @ c # b) = a # split_on c b"
  by (induction a) auto

lemma split_on_append: "split_on c (s @ c # t) = split_on c s @ split_on c t"
proof (induction s)
  case (Cons x xs)
  then show ?case by (cases "split_on c xs") auto
qed simp

lemma last_split_on_sep: "last (split_on c (s @ [c])) = []"
  by (simp add: split_on_append)

text \<open>At most one element: what \<^verbatim>\<open>switch len(xs)\<close> distinguishes.\<close>

lemma filter_singletonD: "filter P xs = [x] \<Longrightarrow> x \<in> set xs \<and> P x"
  by (auto simp: filter_eq_Cons_iff)

lemma distinct_singleton: "distinct xs \<Longrightarrow> set xs = {x} \<Longrightarrow> xs = [x]"
  by (cases xs) (auto simp: subset_singleton_iff)

section \<open>Go errors\<close>

text \<open>
  An error value of the code.  \<open>Errorf\<close> is an error built by \<^verbatim>\<open>fmt.Errorf\<close> (its format string,
  the arguments left out), \<open>StatusError\<close> the Kubernetes API error with its reason, the one
  error type the code inspects.
\<close>

datatype reason = ReasonNotFound | ReasonConflict | ReasonOther string

datatype go_error = Errorf string | StatusError reason

fun is_StatusError :: "go_error \<Rightarrow> bool" where
  "is_StatusError (StatusError _) = True"
| "is_StatusError (Errorf _) = False"

end
