(* ===== verification/GoPath.thy ===== *)
theory GoPath
  imports Prelude
begin

text \<open>
  The part of Go's package \<^verbatim>\<open>path\<close> the program uses: \<^verbatim>\<open>path.Clean\<close> and \<^verbatim>\<open>path.Join\<close>.  Clean drops
  empty and "." elements and resolves ".." against the element before it (at the root it
  disappears, at the start of a relative path it stays); the empty result is ".".  Join leaves
  out empty leading elements, joins with slashes and cleans; all elements empty give the empty
  string.  \<open>Join_segments\<close> is the fact the URL builders rest on: plain segments are joined
  verbatim.
\<close>

section \<open>Clean and Join\<close>

fun resolve :: "bool \<Rightarrow> string list \<Rightarrow> string list \<Rightarrow> string list" where
  "resolve rooted out [] = rev out"
| "resolve rooted out (e # es) =
     (if e = [] \<or> e = ''.'' then resolve rooted out es
      else if e = ''..'' then
        (case out of
           [] \<Rightarrow> resolve rooted (if rooted then [] else [''..'']) es
         | o' # os \<Rightarrow> if o' = ''..'' then resolve rooted (''..'' # out) es else resolve rooted os es)
      else resolve rooted (e # out) es)"

fun join_with :: "string \<Rightarrow> string list \<Rightarrow> string" where
  "join_with sep [] = []"
| "join_with sep [x] = x"
| "join_with sep (x # y # ys) = x @ sep @ join_with sep (y # ys)"

definition path_Clean :: "string \<Rightarrow> string" where
  "path_Clean p =
     (let rooted = (p \<noteq> [] \<and> hd p = CHR ''/'');
          body = join_with ''/'' (resolve rooted [] (split_on (CHR ''/'') p));
          res = (if rooted then ''/'' @ body else body)
      in if res = [] then ''.'' else res)"

definition path_Join :: "string list \<Rightarrow> string" where
  "path_Join es =
     (case dropWhile (\<lambda>e. e = []) es of [] \<Rightarrow> [] | fs \<Rightarrow> path_Clean (join_with ''/'' fs))"

section \<open>Plain segments\<close>

text \<open>A segment that Clean leaves alone: not empty, no slash, neither "." nor "..".\<close>

definition plain_segment :: "string \<Rightarrow> bool" where
  "plain_segment s \<longleftrightarrow> s \<noteq> [] \<and> CHR ''/'' \<notin> set s \<and> s \<noteq> ''.'' \<and> s \<noteq> ''..''"

lemma resolve_plain:
  "\<forall>s \<in> set es. plain_segment s \<Longrightarrow> resolve r out es = rev out @ es"
  by (induction es arbitrary: out) (auto simp: plain_segment_def)

lemma split_join:
  "es \<noteq> [] \<Longrightarrow> \<forall>s \<in> set es. CHR ''/'' \<notin> set s \<Longrightarrow> split_on (CHR ''/'') (join_with ''/'' es) = es"
proof (induction "''/''" es rule: join_with.induct)
  case (3 x y ys)
  then show ?case by (simp add: split_on_one)
qed (auto simp: split_on_no_sep)

lemma join_with_nonempty: "es \<noteq> [] \<Longrightarrow> \<forall>s \<in> set es. s \<noteq> [] \<Longrightarrow> join_with sep es \<noteq> []"
  by (cases "(sep, es)" rule: join_with.cases) auto

lemma join_with_hd: "x \<noteq> [] \<Longrightarrow> hd (join_with sep (x # xs)) = hd x"
  by (cases xs) auto

lemma path_Clean_segments:
  assumes "es \<noteq> []" and plain: "\<forall>s \<in> set es. plain_segment s"
  shows "path_Clean (join_with ''/'' es) = join_with ''/'' es"
proof -
  obtain x xs where es: "es = x # xs" using assms(1) by (cases es) auto
  with plain have "hd (join_with ''/'' es) \<noteq> CHR ''/''"
    by (auto simp: join_with_hd plain_segment_def dest: hd_in_set)
  moreover have "join_with ''/'' es \<noteq> []"
    using assms by (intro join_with_nonempty) (auto simp: plain_segment_def)
  moreover have "split_on (CHR ''/'') (join_with ''/'' es) = es"
    using assms by (intro split_join) (auto simp: plain_segment_def)
  ultimately show ?thesis
    using plain by (simp add: path_Clean_def resolve_plain)
qed

lemma Join_segments:
  assumes "\<forall>s \<in> set es. plain_segment s"
  shows "path_Join es = join_with ''/'' es"
proof -
  have "dropWhile (\<lambda>e. e = []) es = es"
    using assms by (cases es) (auto simp: plain_segment_def)
  then show ?thesis
    using assms path_Clean_segments [of es] by (cases es) (auto simp: path_Join_def)
qed

lemma Join_empty_head [simp]: "path_Join ([] # es) = path_Join es"
  by (simp add: path_Join_def)

end
