(* ===== verification/Api.thy ===== *)
theory Api
  imports Prelude GoPath
begin

text \<open>
  The API objects: \<^verbatim>\<open>pkg/api/types.go\<close> and \<^verbatim>\<open>pkg/api/constants.go\<close>, with the fields of the
  Kubernetes objects the program reads or writes.  Clock readings are integers (nanoseconds).
  \<open>phase\<close> is the progress of a step as its status shows it, ordered Pending < Running < Complete;
  the transitioner never lets it fall.
\<close>

section \<open>Constants\<close>

definition Kind :: string where "Kind = ''Workflow''"
definition Version :: string where "Version = ''v1alpha1''"
definition Group :: string where "Group = ''nerdalize.com''"
definition Resource :: string where "Resource = ''workflow''"
definition WorkflowUIDLabel :: string where "WorkflowUIDLabel = Group @ ''/workflow-uid''"

section \<open>Kubernetes objects, as far as the program looks at them\<close>

record TypeMeta =
  tmKind :: string
  tmAPIVersion :: string

record ObjectMeta =
  Name :: string
  GenerateName :: string
  Namespace :: string
  UID :: string
  ResourceVersion :: string
  Labels :: "string nilmap"
  Annotations :: "string nilmap"

datatype SelectorOp = OpIn | OpNotIn | OpExists | OpDoesNotExist | OpOther string

record SelectorRequirement =
  reqKey :: string
  reqOperator :: SelectorOp
  reqValues :: "string list"

record LabelSelector =
  MatchLabels :: "string nilmap"
  MatchExpressions :: "SelectorRequirement list"

record ObjectReference =
  refKind :: string
  refAPIVersion :: string
  refName :: string
  refNamespace :: string
  refUID :: string
  refResourceVersion :: string

record Container =
  cName :: string
  cImage :: string
  cArgs :: "string list"
  cLimits :: "string gomap"
  cRequests :: "string gomap"

record PodTemplateSpec =
  podMeta :: ObjectMeta
  RestartPolicy :: string
  Containers :: "Container list"

record JobSpec =
  Parallelism :: "int option"
  Selector :: "LabelSelector option"
  Template :: PodTemplateSpec

record JobTemplateSpec =
  tmplMeta :: ObjectMeta
  tmplSpec :: JobSpec

datatype ConditionStatus = ConditionTrue | ConditionFalse | ConditionUnknown

datatype JobConditionType = JobComplete | JobFailed | JobOther string

record JobCondition =
  jcType :: JobConditionType
  jcStatus :: ConditionStatus

record Job =
  jobMeta :: ObjectMeta
  jobSpec :: JobSpec
  jobConditions :: "JobCondition list"

section \<open>Workflows\<close>

record WorkflowStep =
  JobTemplate :: "JobTemplateSpec option"
  ExternalRef :: "ObjectReference option"
  Dependencies :: "string list"

record WorkflowSpec =
  ActiveDeadlineSeconds :: "int option"
  Steps :: "WorkflowStep nilmap"
  JobsSelector :: "LabelSelector option"

datatype WorkflowConditionType = WorkflowComplete | WorkflowFailed | WorkflowOther string

record WorkflowCondition =
  condType :: WorkflowConditionType
  condStatus :: ConditionStatus
  LastProbeTime :: int
  LastTransitionTime :: int

record WorkflowStepStatus =
  Complete :: bool
  Reference :: ObjectReference

record WorkflowStatus =
  Conditions :: "WorkflowCondition list"
  StartTime :: "int option"
  CompletionTime :: "int option"
  Statuses :: "WorkflowStepStatus nilmap"

record Workflow =
  wfType :: TypeMeta
  wfMeta :: ObjectMeta
  Spec :: WorkflowSpec
  Status :: WorkflowStatus

abbreviation wf_labels :: "Workflow \<Rightarrow> string gomap" where
  "wf_labels w \<equiv> entries (Labels (wfMeta w))"

abbreviation wf_steps :: "Workflow \<Rightarrow> WorkflowStep gomap" where
  "wf_steps w \<equiv> entries (Steps (Spec w))"

abbreviation wf_statuses :: "Workflow \<Rightarrow> WorkflowStepStatus gomap" where
  "wf_statuses w \<equiv> entries (Statuses (Status w))"

text \<open>Field updates through the embedded structs.\<close>

definition set_meta_labels :: "string nilmap \<Rightarrow> Workflow \<Rightarrow> Workflow" where
  "set_meta_labels m w = w\<lparr>wfMeta := (wfMeta w)\<lparr>Labels := m\<rparr>\<rparr>"

definition set_statuses :: "WorkflowStepStatus nilmap \<Rightarrow> Workflow \<Rightarrow> Workflow" where
  "set_statuses m w = w\<lparr>Status := (Status w)\<lparr>Statuses := m\<rparr>\<rparr>"

definition set_selector :: "LabelSelector option \<Rightarrow> Workflow \<Rightarrow> Workflow" where
  "set_selector s w = w\<lparr>Spec := (Spec w)\<lparr>JobsSelector := s\<rparr>\<rparr>"

lemma set_fields [simp]:
  "Labels (wfMeta (set_meta_labels m w)) = m"
  "Name (wfMeta (set_meta_labels m w)) = Name (wfMeta w)"
  "Namespace (wfMeta (set_meta_labels m w)) = Namespace (wfMeta w)"
  "UID (wfMeta (set_meta_labels m w)) = UID (wfMeta w)"
  "Annotations (wfMeta (set_meta_labels m w)) = Annotations (wfMeta w)"
  "ResourceVersion (wfMeta (set_meta_labels m w)) = ResourceVersion (wfMeta w)"
  "Spec (set_meta_labels m w) = Spec w"
  "Status (set_meta_labels m w) = Status w"
  "wfMeta (set_statuses n w) = wfMeta w"
  "Spec (set_statuses n w) = Spec w"
  "Statuses (Status (set_statuses n w)) = n"
  "Conditions (Status (set_statuses n w)) = Conditions (Status w)"
  "wfMeta (set_selector s w) = wfMeta w"
  "Status (set_selector s w) = Status w"
  "JobsSelector (Spec (set_selector s w)) = s"
  "Steps (Spec (set_selector s w)) = Steps (Spec w)"
  "ActiveDeadlineSeconds (Spec (set_selector s w)) = ActiveDeadlineSeconds (Spec w)"
  by (simp_all add: set_meta_labels_def set_statuses_def set_selector_def)

section \<open>Operations on workflows\<close>

definition GetObjectKind :: "Workflow \<Rightarrow> TypeMeta" where
  "GetObjectKind w = \<lparr>tmKind = Kind, tmAPIVersion = path_Join [Group, Version]\<rparr>"

definition setLabels :: "Workflow \<Rightarrow> string gomap \<Rightarrow> string list \<Rightarrow> Workflow" where
  "setLabels w labels ks =
     set_meta_labels (Some (range_copy labels ks (entries (Labels (wfMeta w))))) w"

text \<open>
  \<^verbatim>\<open>SetUID\<close>: None is the panic of the last assignment, when the workflow came with a selector
  whose \<^verbatim>\<open>MatchLabels\<close> is nil.
\<close>

definition SetUID :: "Workflow \<Rightarrow> Workflow option" where
  "SetUID w =
     (let w1 = (case JobsSelector (Spec w) of
                  None \<Rightarrow> set_selector (Some \<lparr>MatchLabels = Some fmempty, MatchExpressions = []\<rparr>) w
                | Some _ \<Rightarrow> w);
          uid = UID (wfMeta w);
          w2 = setLabels w1 (fmupd WorkflowUIDLabel uid fmempty) [WorkflowUIDLabel]
      in case JobsSelector (Spec w2) of
           None \<Rightarrow> None
         | Some sel \<Rightarrow>
             (case map_put (MatchLabels sel) WorkflowUIDLabel uid of
                None \<Rightarrow> None
              | Some m \<Rightarrow> Some (set_selector (Some (sel\<lparr>MatchLabels := m\<rparr>)) w2)))"

definition SetDefaults :: "int \<Rightarrow> Workflow \<Rightarrow> Workflow option" where
  "SetDefaults now w =
     SetUID (w\<lparr>Status := (Status w)\<lparr>Statuses := Some fmempty, StartTime := Some now\<rparr>\<rparr>)"

definition AddCompleteCondition :: "int \<Rightarrow> Workflow \<Rightarrow> Workflow" where
  "AddCompleteCondition now w =
     (let c = \<lparr>condType = WorkflowComplete, condStatus = ConditionTrue,
               LastProbeTime = now, LastTransitionTime = now\<rparr>
      in w\<lparr>Status := (Status w)\<lparr>Conditions := Conditions (Status w) @ [c],
                               CompletionTime := Some now\<rparr>\<rparr>)"

fun finished_conditions :: "WorkflowCondition list \<Rightarrow> bool" where
  "finished_conditions [] = False"
| "finished_conditions (c # cs) =
     (if (condType c = WorkflowComplete \<or> condType c = WorkflowFailed)
         \<and> condStatus c = ConditionTrue then True
      else finished_conditions cs)"

definition IsFinished :: "Workflow \<Rightarrow> bool" where
  "IsFinished w = finished_conditions (Conditions (Status w))"

fun deps_resolved :: "string list \<Rightarrow> WorkflowStepStatus nilmap \<Rightarrow> bool" where
  "deps_resolved [] sts = True"
| "deps_resolved (d # ds) sts =
     (case map_get sts d of
        None \<Rightarrow> False
      | Some st \<Rightarrow> if \<not> Complete st then False else deps_resolved ds sts)"

definition DependenciesResolved :: "WorkflowStep \<Rightarrow> Workflow \<Rightarrow> bool" where
  "DependenciesResolved s w = deps_resolved (Dependencies s) (Statuses (Status w))"

section \<open>Progress of a step\<close>

datatype phase = Pending | Running | Completed

fun phase_rank :: "phase \<Rightarrow> nat" where
  "phase_rank Pending = 0"
| "phase_rank Running = 1"
| "phase_rank Completed = 2"

lemma phase_rank_inject [simp]: "phase_rank a = phase_rank b \<longleftrightarrow> a = b"
  by (cases a; cases b) simp_all

instantiation phase :: linorder
begin

definition less_eq_phase :: "phase \<Rightarrow> phase \<Rightarrow> bool" where
  "less_eq_phase a b \<longleftrightarrow> phase_rank a \<le> phase_rank b"

definition less_phase :: "phase \<Rightarrow> phase \<Rightarrow> bool" where
  "less_phase a b \<longleftrightarrow> phase_rank a < phase_rank b"

instance
  by standard (auto simp: less_eq_phase_def less_phase_def)

end

lemma phase_le_simps [simp]:
  "Pending \<le> p" "p \<le> Completed" "Completed \<le> p \<longleftrightarrow> p = Completed"
  "p \<le> Pending \<longleftrightarrow> p = Pending" "Running \<le> Running"
  by (cases p; simp add: less_eq_phase_def)+

definition status_phase :: "WorkflowStepStatus option \<Rightarrow> phase" where
  "status_phase st = (case st of None \<Rightarrow> Pending | Some x \<Rightarrow> if Complete x then Completed else Running)"

definition step_phase :: "Workflow \<Rightarrow> string \<Rightarrow> phase" where
  "step_phase w s = status_phase (map_get (Statuses (Status w)) s)"

lemma status_phase_Completed: "status_phase st = Completed \<longleftrightarrow> (\<exists>x. st = Some x \<and> Complete x)"
  by (auto simp: status_phase_def split: option.splits if_splits)

lemma step_phase_cong: "Statuses (Status w) = Statuses (Status w') \<Longrightarrow> step_phase w s = step_phase w' s"
  by (simp add: step_phase_def)

section \<open>Facts about the operations\<close>

lemma finished_conditions_iff:
  "finished_conditions cs \<longleftrightarrow>
     (\<exists>c \<in> set cs. (condType c = WorkflowComplete \<or> condType c = WorkflowFailed)
                  \<and> condStatus c = ConditionTrue)"
  by (induction cs) auto

lemma IsFinished_AddComplete: "IsFinished (AddCompleteCondition now w)"
  by (simp add: IsFinished_def AddCompleteCondition_def finished_conditions_iff Let_def)

lemma AddComplete_fields [simp]:
  "Statuses (Status (AddCompleteCondition now w)) = Statuses (Status w)"
  "Spec (AddCompleteCondition now w) = Spec w"
  "wfMeta (AddCompleteCondition now w) = wfMeta w"
  "CompletionTime (Status (AddCompleteCondition now w)) = Some now"
  by (simp_all add: AddCompleteCondition_def Let_def)

lemma deps_resolved_iff: "deps_resolved ds sts \<longleftrightarrow> (\<forall>d \<in> set ds. status_phase (map_get sts d) = Completed)"
  by (induction ds) (auto simp: status_phase_def split: option.splits)

lemma DependenciesResolved_iff:
  "DependenciesResolved s w \<longleftrightarrow> (\<forall>d \<in> set (Dependencies s). step_phase w d = Completed)"
  by (simp add: DependenciesResolved_def deps_resolved_iff step_phase_def)

lemma DependenciesResolved_mono:
  "DependenciesResolved s w \<Longrightarrow> (\<And>d. step_phase w d \<le> step_phase w' d) \<Longrightarrow> DependenciesResolved s w'"
  unfolding DependenciesResolved_iff by (metis phase_le_simps(3))

lemma setLabels_labels:
  "range_order ls ks \<Longrightarrow>
     Labels (wfMeta (setLabels w ls ks)) = Some (wf_labels w ++\<^sub>f ls)"
  by (simp add: setLabels_def)

lemma setLabels_frame [simp]:
  "Spec (setLabels w ls ks) = Spec w" "Status (setLabels w ls ks) = Status w"
  "UID (wfMeta (setLabels w ls ks)) = UID (wfMeta w)"
  "Namespace (wfMeta (setLabels w ls ks)) = Namespace (wfMeta w)"
  "Name (wfMeta (setLabels w ls ks)) = Name (wfMeta w)"
  by (simp_all add: setLabels_def)

lemma range_order_single [simp]: "range_order (fmupd k v fmempty) [k]"
  by (simp add: range_order_def)

lemma SetUID_Some_iff:
  "(\<exists>w'. SetUID w = Some w') \<longleftrightarrow>
     (case JobsSelector (Spec w) of None \<Rightarrow> True | Some sel \<Rightarrow> MatchLabels sel \<noteq> None)"
  by (auto simp: SetUID_def Let_def map_put_def split: option.splits)


section \<open>Sample objects\<close>

definition sample_meta :: "string \<Rightarrow> string nilmap \<Rightarrow> ObjectMeta" where
  "sample_meta n ls =
     \<lparr>Name = n, GenerateName = [], Namespace = ''default'', UID = ''123'', ResourceVersion = ''1'',
      Labels = ls, Annotations = None\<rparr>"

definition sample_template :: JobTemplateSpec where
  "sample_template =
     \<lparr>tmplMeta = sample_meta ''jobName'' (Some (fmap_of_list [(''foo'', ''bar'')])),
      tmplSpec = \<lparr>Parallelism = None, Selector = None,
                  Template = \<lparr>podMeta = sample_meta [] None, RestartPolicy = [], Containers = []\<rparr>\<rparr>\<rparr>"

definition job_step :: "string list \<Rightarrow> WorkflowStep" where
  "job_step ds = \<lparr>JobTemplate = Some sample_template, ExternalRef = None, Dependencies = ds\<rparr>"

definition sample_reference :: ObjectReference where
  "sample_reference =
     \<lparr>refKind = ''Job'', refAPIVersion = ''v1'', refName = ''foo'', refNamespace = ''default'',
      refUID = [], refResourceVersion = []\<rparr>"

definition sample_workflow :: "string nilmap \<Rightarrow> WorkflowSpec \<Rightarrow> WorkflowStepStatus nilmap \<Rightarrow> Workflow" where
  "sample_workflow ls spec sts =
     \<lparr>wfType = \<lparr>tmKind = Kind, tmAPIVersion = ''nerdalize.com/v1alpha1''\<rparr>,
      wfMeta = sample_meta ''mydag'' ls, Spec = spec,
      Status = \<lparr>Conditions = [], StartTime = None, CompletionTime = None, Statuses = sts\<rparr>\<rparr>"

end
