(* ===== verification/LabelSelectors.thy ===== *)
theory LabelSelectors
  imports Api
begin

text \<open>
  Label selection, from the vendored Kubernetes packages the controller is built on:
  \<^verbatim>\<open>pkg/labels/selector.go\<close>, \<^verbatim>\<open>pkg/util/validation/validation.go\<close>,
  \<^verbatim>\<open>pkg/api/unversioned/helpers.go\<close> and \<^verbatim>\<open>pkg/api/unversioned/validation/validation.go\<close> (under
  \<^verbatim>\<open>vendor/k8s.io/kubernetes\<close>).  The anchored regular expressions are written out as what they
  accept.  The operators Gt and Lt are left out: the controller makes requirements through
  \<^verbatim>\<open>SelectorFromSet\<close> (only "=") and \<^verbatim>\<open>LabelSelectorAsSelector\<close> (In, NotIn, Exists, DoesNotExist
  and "="), so no selector of the program holds them.
\<close>

section \<open>Names and values\<close>

definition char_in :: "char \<Rightarrow> char \<Rightarrow> char \<Rightarrow> bool" where
  "char_in lo hi c \<longleftrightarrow> of_char lo \<le> (of_char c :: nat) \<and> (of_char c :: nat) \<le> of_char hi"

definition is_lower_alnum :: "char \<Rightarrow> bool" where
  "is_lower_alnum c \<longleftrightarrow> char_in (CHR ''a'') (CHR ''z'') c \<or> char_in (CHR ''0'') (CHR ''9'') c"

definition is_alnum :: "char \<Rightarrow> bool" where
  "is_alnum c \<longleftrightarrow> is_lower_alnum c \<or> char_in (CHR ''A'') (CHR ''Z'') c"

definition is_qname_ext :: "char \<Rightarrow> bool" where
  "is_qname_ext c \<longleftrightarrow> is_alnum c \<or> c = CHR ''-'' \<or> c = CHR ''_'' \<or> c = CHR ''.''"

text \<open>\<^verbatim>\<open>^([A-Za-z0-9][-A-Za-z0-9_.]*)?[A-Za-z0-9]$\<close>\<close>

definition qualifiedNameRegexp :: "string \<Rightarrow> bool" where
  "qualifiedNameRegexp s \<longleftrightarrow>
     s \<noteq> [] \<and> is_alnum (hd s) \<and> is_alnum (last s) \<and> list_all is_qname_ext s"

text \<open>\<^verbatim>\<open>^[a-z0-9]([-a-z0-9]*[a-z0-9])?$\<close>, and labels of that form separated by dots.\<close>

definition dns1123LabelRegexp :: "string \<Rightarrow> bool" where
  "dns1123LabelRegexp s \<longleftrightarrow>
     s \<noteq> [] \<and> is_lower_alnum (hd s) \<and> is_lower_alnum (last s)
     \<and> list_all (\<lambda>c. is_lower_alnum c \<or> c = CHR ''-'') s"

definition dns1123SubdomainRegexp :: "string \<Rightarrow> bool" where
  "dns1123SubdomainRegexp s \<longleftrightarrow> list_all dns1123LabelRegexp (split_on (CHR ''.'') s)"

datatype name_msg =
  EmptyError | MaxLenError nat | RegexError string | PrefixPart name_msg | NamePart name_msg

definition IsDNS1123Subdomain :: "string \<Rightarrow> name_msg list" where
  "IsDNS1123Subdomain value =
     (if length value > 253 then [MaxLenError 253] else [])
     @ (if \<not> dns1123SubdomainRegexp value then [RegexError ''DNS1123Subdomain''] else [])"

definition IsQualifiedName :: "string \<Rightarrow> name_msg list" where
  "IsQualifiedName value =
     (let check = (\<lambda>name.
            (if length name = 0 then [NamePart EmptyError]
             else if length name > 63 then [NamePart (MaxLenError 63)] else [])
            @ (if \<not> qualifiedNameRegexp name then [NamePart (RegexError ''qualifiedName'')] else []))
      in case split_on (CHR ''/'') value of
           [name] \<Rightarrow> check name
         | [prefix, name] \<Rightarrow>
             (if length prefix = 0 then [PrefixPart EmptyError]
              else map PrefixPart (IsDNS1123Subdomain prefix)) @ check name
         | _ \<Rightarrow> [RegexError ''qualifiedName with an optional DNS subdomain prefix''])"

definition IsValidLabelValue :: "string \<Rightarrow> name_msg list" where
  "IsValidLabelValue value =
     (if length value > 63 then [MaxLenError 63] else [])
     @ (if value = [] \<or> qualifiedNameRegexp value then [] else [RegexError ''labelValue''])"

text \<open>A label the API server would accept.\<close>

definition valid_label :: "string \<Rightarrow> string \<Rightarrow> bool" where
  "valid_label k v \<longleftrightarrow> IsQualifiedName k = [] \<and> IsValidLabelValue v = []"

definition valid_labels :: "string gomap \<Rightarrow> bool" where
  "valid_labels ls \<longleftrightarrow> fmpred valid_label ls"

section \<open>Requirements\<close>

datatype Operator =
  InOperator | NotInOperator | EqualsOperator | DoubleEqualsOperator | NotEqualsOperator
| ExistsOperator | DoesNotExistOperator

record Requirement =
  rqKey :: string
  rqOperator :: Operator
  rqValues :: "string fset"

definition NewRequirement :: "string \<Rightarrow> Operator \<Rightarrow> string fset \<Rightarrow> go_error + Requirement" where
  "NewRequirement key op vals =
     (if IsQualifiedName key \<noteq> [] then Inl (Errorf ''invalid label key'')
      else if (op = InOperator \<or> op = NotInOperator) \<and> fcard vals = 0
        then Inl (Errorf ''for 'in', 'notin' operators, values set can't be empty'')
      else if (op = EqualsOperator \<or> op = DoubleEqualsOperator \<or> op = NotEqualsOperator) \<and> fcard vals \<noteq> 1
        then Inl (Errorf ''exact-match compatibility requires one single value'')
      else if (op = ExistsOperator \<or> op = DoesNotExistOperator) \<and> fcard vals \<noteq> 0
        then Inl (Errorf ''values set must be empty for exists and does not exist'')
      else if fBex vals (\<lambda>v. IsValidLabelValue v \<noteq> []) then Inl (Errorf ''invalid label value'')
      else Inr \<lparr>rqKey = key, rqOperator = op, rqValues = vals\<rparr>)"

fun Requirement_Matches :: "Requirement \<Rightarrow> string gomap \<Rightarrow> bool" where
  "Requirement_Matches r ls =
     (case rqOperator r of
        ExistsOperator \<Rightarrow> fmlookup ls (rqKey r) \<noteq> None
      | DoesNotExistOperator \<Rightarrow> \<not> fmlookup ls (rqKey r) \<noteq> None
      | NotInOperator \<Rightarrow>
          (case fmlookup ls (rqKey r) of None \<Rightarrow> True | Some v \<Rightarrow> v |\<notin>| rqValues r)
      | NotEqualsOperator \<Rightarrow>
          (case fmlookup ls (rqKey r) of None \<Rightarrow> True | Some v \<Rightarrow> v |\<notin>| rqValues r)
      | _ \<Rightarrow> (case fmlookup ls (rqKey r) of None \<Rightarrow> False | Some v \<Rightarrow> v |\<in>| rqValues r))"

section \<open>Selectors\<close>

datatype LabelsSelector = InternalSelector "Requirement list" | NothingSelector

definition Everything :: LabelsSelector where
  "Everything = InternalSelector []"

fun Selector_Matches :: "LabelsSelector \<Rightarrow> string gomap \<Rightarrow> bool" where
  "Selector_Matches NothingSelector ls = False"
| "Selector_Matches (InternalSelector rs) ls = list_all (\<lambda>r. Requirement_Matches r ls) rs"

fun Selector_Add :: "LabelsSelector \<Rightarrow> Requirement \<Rightarrow> LabelsSelector" where
  "Selector_Add NothingSelector r = NothingSelector"
| "Selector_Add (InternalSelector rs) r = InternalSelector (sort_key rqKey (rs @ [r]))"

fun set_requirements :: "string gomap \<Rightarrow> string list \<Rightarrow> Requirement list \<Rightarrow> Requirement list option" where
  "set_requirements ls [] acc = Some acc"
| "set_requirements ls (k # ks) acc =
     (case fmlookup ls k of
        None \<Rightarrow> set_requirements ls ks acc
      | Some v \<Rightarrow>
          (case NewRequirement k EqualsOperator {|v|} of
             Inl _ \<Rightarrow> None
           | Inr r \<Rightarrow> set_requirements ls ks (acc @ [r])))"

definition SelectorFromSet :: "string nilmap \<Rightarrow> string list \<Rightarrow> LabelsSelector" where
  "SelectorFromSet m ks =
     (case m of
        None \<Rightarrow> InternalSelector []
      | Some ls \<Rightarrow>
          (case set_requirements ls ks [] of
             None \<Rightarrow> InternalSelector []
           | Some rs \<Rightarrow> InternalSelector (sort_key rqKey rs)))"

fun add_match_labels :: "string gomap \<Rightarrow> string list \<Rightarrow> LabelsSelector \<Rightarrow> go_error + LabelsSelector" where
  "add_match_labels ls [] sel = Inr sel"
| "add_match_labels ls (k # ks) sel =
     (case fmlookup ls k of
        None \<Rightarrow> add_match_labels ls ks sel
      | Some v \<Rightarrow>
          (case NewRequirement k EqualsOperator {|v|} of
             Inl e \<Rightarrow> Inl e
           | Inr r \<Rightarrow> add_match_labels ls ks (Selector_Add sel r)))"

fun expression_operator :: "SelectorOp \<Rightarrow> Operator option" where
  "expression_operator OpIn = Some InOperator"
| "expression_operator OpNotIn = Some NotInOperator"
| "expression_operator OpExists = Some ExistsOperator"
| "expression_operator OpDoesNotExist = Some DoesNotExistOperator"
| "expression_operator (OpOther _) = None"

fun add_expressions :: "SelectorRequirement list \<Rightarrow> LabelsSelector \<Rightarrow> go_error + LabelsSelector" where
  "add_expressions [] sel = Inr sel"
| "add_expressions (e # es) sel =
     (case expression_operator (reqOperator e) of
        None \<Rightarrow> Inl (Errorf ''%q is not a valid pod selector operator'')
      | Some op \<Rightarrow>
          (case NewRequirement (reqKey e) op (fset_of_list (reqValues e)) of
             Inl er \<Rightarrow> Inl er
           | Inr r \<Rightarrow> add_expressions es (Selector_Add sel r)))"

definition LabelSelectorAsSelector ::
  "LabelSelector option \<Rightarrow> string list \<Rightarrow> go_error + LabelsSelector" where
  "LabelSelectorAsSelector ps ks =
     (case ps of
        None \<Rightarrow> Inr NothingSelector
      | Some s \<Rightarrow>
          (if fcard (fmdom (entries (MatchLabels s))) + length (MatchExpressions s) = 0
           then Inr Everything
           else case add_match_labels (entries (MatchLabels s)) ks (InternalSelector []) of
                  Inl e \<Rightarrow> Inl e
                | Inr sel \<Rightarrow> add_expressions (MatchExpressions s) sel))"

section \<open>What the selectors match\<close>

lemma fcard_single [simp]: "fcard {|v|} = 1"
  by (simp add: fcard.rep_eq)

lemma NewRequirement_Equals:
  "NewRequirement k EqualsOperator {|v|} =
     (if valid_label k v then Inr \<lparr>rqKey = k, rqOperator = EqualsOperator, rqValues = {|v|}\<rparr>
      else Inl (if IsQualifiedName k \<noteq> [] then Errorf ''invalid label key''
                else Errorf ''invalid label value''))"
  by (auto simp: NewRequirement_def valid_label_def)

lemma set_requirements_valid:
  "\<forall>k \<in> set ks. \<forall>v. fmlookup ls k = Some v \<longrightarrow> valid_label k v \<Longrightarrow>
   \<exists>rs. set_requirements ls ks acc = Some rs \<and>
        (\<forall>l. list_all (\<lambda>r. Requirement_Matches r l) rs \<longleftrightarrow>
             list_all (\<lambda>r. Requirement_Matches r l) acc \<and>
             (\<forall>k \<in> set ks. \<forall>v. fmlookup ls k = Some v \<longrightarrow> fmlookup l k = Some v))"
proof (induction ks arbitrary: acc)
  case Nil
  then show ?case by simp
next
  case (Cons k ks)
  show ?case
  proof (cases "fmlookup ls k")
    case None
    with Cons show ?thesis by auto
  next
    case (Some v)
    let ?r = "\<lparr>rqKey = k, rqOperator = EqualsOperator, rqValues = {|v|}\<rparr>"
    have "set_requirements ls (k # ks) acc = set_requirements ls ks (acc @ [?r])"
      using Some Cons.prems by (simp add: NewRequirement_Equals)
    moreover have "Requirement_Matches ?r l \<longleftrightarrow> fmlookup l k = Some v" for l
      by (auto split: option.splits)
    ultimately show ?thesis
      using Cons.IH [of "acc @ [?r]"] Cons.prems Some by (auto simp del: Requirement_Matches.simps)
  qed
qed

lemma set_requirements_invalid:
  "k \<in> set ks \<Longrightarrow> fmlookup ls k = Some v \<Longrightarrow> \<not> valid_label k v \<Longrightarrow> set_requirements ls ks acc = None"
  by (induction ks arbitrary: acc) (auto simp: NewRequirement_Equals split: option.splits)

lemma fmsubset_iff: "ls \<subseteq>\<^sub>f l \<longleftrightarrow> (\<forall>k v. fmlookup ls k = Some v \<longrightarrow> fmlookup l k = Some v)"
  by (auto simp: fmsubset_alt_def fmpred_iff)

lemma list_all_sort_key [simp]: "list_all P (sort_key f xs) \<longleftrightarrow> list_all P xs"
  by (simp add: list_all_iff)

lemma SelectorFromSet_subset:
  assumes "range_order ls ks" and "valid_labels ls"
  shows "Selector_Matches (SelectorFromSet (Some ls) ks) l \<longleftrightarrow> ls \<subseteq>\<^sub>f l"
proof -
  have valid: "\<forall>k \<in> set ks. \<forall>v. fmlookup ls k = Some v \<longrightarrow> valid_label k v"
    using assms(2) by (auto simp: valid_labels_def fmpred_iff)
  have dom: "k \<in> set ks" if "fmlookup ls k = Some v" for k v
    using range_order_mem [OF assms(1)] that by blast
  from set_requirements_valid [OF valid, of "[]"] dom show ?thesis
    by (auto simp: SelectorFromSet_def fmsubset_iff)
qed

lemma SelectorFromSet_everything:
  assumes "range_order ls ks" and "\<not> valid_labels ls"
  shows "SelectorFromSet (Some ls) ks = Everything"
proof -
  from assms(2) obtain k v where kv: "fmlookup ls k = Some v" "\<not> valid_label k v"
    by (auto simp: valid_labels_def fmpred_iff)
  then have "k \<in> set ks" using range_order_mem [OF assms(1)] by blast
  with kv show ?thesis
    by (simp add: SelectorFromSet_def set_requirements_invalid Everything_def)
qed

lemma Everything_matches [simp]: "Selector_Matches Everything l"
  by (simp add: Everything_def)


section \<open>Label selectors of the API\<close>

text \<open>When a match expression yields a requirement, and what it then asks of a label set.\<close>

definition expression_ok :: "SelectorRequirement \<Rightarrow> bool" where
  "expression_ok e \<longleftrightarrow>
     IsQualifiedName (reqKey e) = [] \<and>
     (case reqOperator e of
        OpIn \<Rightarrow> reqValues e \<noteq> [] \<and> (\<forall>v \<in> set (reqValues e). IsValidLabelValue v = [])
      | OpNotIn \<Rightarrow> reqValues e \<noteq> [] \<and> (\<forall>v \<in> set (reqValues e). IsValidLabelValue v = [])
      | OpExists \<Rightarrow> reqValues e = []
      | OpDoesNotExist \<Rightarrow> reqValues e = []
      | OpOther _ \<Rightarrow> False)"

definition expression_matches :: "SelectorRequirement \<Rightarrow> string gomap \<Rightarrow> bool" where
  "expression_matches e l =
     (case reqOperator e of
        OpIn \<Rightarrow> (\<exists>v \<in> set (reqValues e). fmlookup l (reqKey e) = Some v)
      | OpNotIn \<Rightarrow> (\<forall>v \<in> set (reqValues e). fmlookup l (reqKey e) \<noteq> Some v)
      | OpExists \<Rightarrow> fmlookup l (reqKey e) \<noteq> None
      | OpDoesNotExist \<Rightarrow> fmlookup l (reqKey e) = None
      | OpOther _ \<Rightarrow> False)"

definition selector_ok :: "LabelSelector option \<Rightarrow> bool" where
  "selector_ok ps =
     (case ps of None \<Rightarrow> True
      | Some s \<Rightarrow> valid_labels (entries (MatchLabels s)) \<and> list_all expression_ok (MatchExpressions s))"

definition selector_matches :: "LabelSelector option \<Rightarrow> string gomap \<Rightarrow> bool" where
  "selector_matches ps l =
     (case ps of None \<Rightarrow> False
      | Some s \<Rightarrow> entries (MatchLabels s) \<subseteq>\<^sub>f l
                  \<and> list_all (\<lambda>e. expression_matches e l) (MatchExpressions s))"

lemma fcard_eq_0 [simp]: "fcard S = 0 \<longleftrightarrow> S = {||}"
  by (simp add: fcard.rep_eq flip: fset_inject)

lemma fset_of_list_empty_iff [simp]: "fset_of_list xs = {||} \<longleftrightarrow> xs = []"
  by (cases xs) simp_all

lemma NewRequirement_expression:
  "expression_ok e \<longleftrightarrow>
     (\<exists>op. expression_operator (reqOperator e) = Some op \<and>
           NewRequirement (reqKey e) op (fset_of_list (reqValues e)) =
             Inr \<lparr>rqKey = reqKey e, rqOperator = op, rqValues = fset_of_list (reqValues e)\<rparr>)"
  by (cases "reqOperator e")
     (auto simp: expression_ok_def NewRequirement_def fset_of_list.rep_eq)

lemma NewRequirement_Inr:
  "NewRequirement k op vs = Inr r \<Longrightarrow> r = \<lparr>rqKey = k, rqOperator = op, rqValues = vs\<rparr>"
  by (auto simp: NewRequirement_def split: if_splits)

lemma expression_requirement_matches:
  "expression_operator (reqOperator e) = Some op \<Longrightarrow>
   Requirement_Matches \<lparr>rqKey = reqKey e, rqOperator = op, rqValues = fset_of_list (reqValues e)\<rparr> l
     \<longleftrightarrow> expression_matches e l"
  by (cases "reqOperator e")
     (auto simp: expression_matches_def fset_of_list.rep_eq split: option.splits)

abbreviation all_match :: "Requirement list \<Rightarrow> string gomap \<Rightarrow> bool" where
  "all_match rs l \<equiv> list_all (\<lambda>r. Requirement_Matches r l) rs"

lemma add_expressions_ok:
  "list_all expression_ok es \<Longrightarrow>
   \<exists>rs'. add_expressions es (InternalSelector rs) = Inr (InternalSelector rs') \<and>
     (\<forall>l. all_match rs' l \<longleftrightarrow> all_match rs l \<and> list_all (\<lambda>e. expression_matches e l) es)"
proof (induction es arbitrary: rs)
  case Nil
  then show ?case by simp
next
  case (Cons e es)
  then obtain op where op: "expression_operator (reqOperator e) = Some op"
    and r: "NewRequirement (reqKey e) op (fset_of_list (reqValues e)) =
              Inr \<lparr>rqKey = reqKey e, rqOperator = op, rqValues = fset_of_list (reqValues e)\<rparr>"
    by (auto simp: NewRequirement_expression)
  let ?rs = "sort_key rqKey (rs @ [\<lparr>rqKey = reqKey e, rqOperator = op, rqValues = fset_of_list (reqValues e)\<rparr>])"
  obtain rs' where rs': "add_expressions es (InternalSelector ?rs) = Inr (InternalSelector rs')"
    "\<forall>l. all_match rs' l \<longleftrightarrow> all_match ?rs l \<and> list_all (\<lambda>e. expression_matches e l) es"
    using Cons.IH [of ?rs] Cons.prems by auto
  moreover have "all_match ?rs l \<longleftrightarrow> all_match rs l \<and> expression_matches e l" for l
    using op by (simp add: expression_requirement_matches del: Requirement_Matches.simps)
  moreover have "add_expressions (e # es) (InternalSelector rs) = Inr (InternalSelector rs')"
    using op r rs'(1) by simp
  ultimately show ?case by (intro exI [of _ rs']) auto
qed

lemma add_expressions_error:
  "\<not> list_all expression_ok es \<Longrightarrow> \<exists>er. add_expressions es sel = Inl er"
proof (induction es arbitrary: sel)
  case (Cons e es)
  then show ?case
    by (cases "expression_ok e")
       (auto simp: NewRequirement_expression split: option.splits sum.splits dest: NewRequirement_Inr)
qed simp

lemma add_match_labels_ok:
  "\<forall>k \<in> set ks. \<forall>v. fmlookup ls k = Some v \<longrightarrow> valid_label k v \<Longrightarrow>
   \<exists>rs'. add_match_labels ls ks (InternalSelector rs) = Inr (InternalSelector rs') \<and>
     (\<forall>l. all_match rs' l \<longleftrightarrow>
          all_match rs l \<and> (\<forall>k \<in> set ks. \<forall>v. fmlookup ls k = Some v \<longrightarrow> fmlookup l k = Some v))"
proof (induction ks arbitrary: rs)
  case Nil
  then show ?case by simp
next
  case (Cons k ks)
  show ?case
  proof (cases "fmlookup ls k")
    case None
    with Cons show ?thesis by auto
  next
    case (Some v)
    let ?r = "\<lparr>rqKey = k, rqOperator = EqualsOperator, rqValues = {|v|}\<rparr>"
    let ?rs = "sort_key rqKey (rs @ [?r])"
    obtain rs' where rs': "add_match_labels ls ks (InternalSelector ?rs) = Inr (InternalSelector rs')"
      "\<forall>l. all_match rs' l \<longleftrightarrow> all_match ?rs l \<and>
             (\<forall>k \<in> set ks. \<forall>v. fmlookup ls k = Some v \<longrightarrow> fmlookup l k = Some v)"
      using Cons.IH [of ?rs] Cons.prems by auto
    moreover have "all_match ?rs l \<longleftrightarrow> all_match rs l \<and> fmlookup l k = Some v" for l
      by (auto split: option.splits)
    moreover have "add_match_labels ls (k # ks) (InternalSelector rs) = Inr (InternalSelector rs')"
      using Some Cons.prems rs'(1) by (simp add: NewRequirement_Equals)
    ultimately show ?thesis using Some by (intro exI [of _ rs']) auto
  qed
qed

lemma add_match_labels_error:
  "k \<in> set ks \<Longrightarrow> fmlookup ls k = Some v \<Longrightarrow> \<not> valid_label k v \<Longrightarrow>
   \<exists>er. add_match_labels ls ks sel = Inl er"
  by (induction ks arbitrary: sel) (auto simp: NewRequirement_Equals split: option.splits)

text \<open>The order of the label map, for a selector that may be nil.\<close>

definition selector_order :: "LabelSelector option \<Rightarrow> string list \<Rightarrow> bool" where
  "selector_order ps ks =
     (case ps of None \<Rightarrow> True | Some s \<Rightarrow> range_order (entries (MatchLabels s)) ks)"

lemma LabelSelectorAsSelector_ok:
  assumes ord: "selector_order ps ks" and ok: "selector_ok ps"
  obtains sel where "LabelSelectorAsSelector ps ks = Inr sel"
    and "\<And>l. Selector_Matches sel l \<longleftrightarrow> selector_matches ps l"
proof (cases ps)
  case None
  then show ?thesis
    using that [of NothingSelector] by (simp add: LabelSelectorAsSelector_def selector_matches_def)
next
  case (Some s)
  let ?ls = "entries (MatchLabels s)"
  have rng: "range_order ?ls ks" and valid: "\<forall>k v. fmlookup ?ls k = Some v \<longrightarrow> valid_label k v"
    and exprs: "list_all expression_ok (MatchExpressions s)"
    using ord ok Some by (auto simp: selector_order_def selector_ok_def valid_labels_def fmpred_iff)
  obtain rs where rs: "add_match_labels ?ls ks (InternalSelector []) = Inr (InternalSelector rs)"
    "\<forall>l. all_match rs l \<longleftrightarrow> (\<forall>k \<in> set ks. \<forall>v. fmlookup ?ls k = Some v \<longrightarrow> fmlookup l k = Some v)"
    using add_match_labels_ok [of ks ?ls "[]"] valid by auto
  obtain rs' where rs': "add_expressions (MatchExpressions s) (InternalSelector rs) = Inr (InternalSelector rs')"
    "\<forall>l. all_match rs' l \<longleftrightarrow> all_match rs l \<and> list_all (\<lambda>e. expression_matches e l) (MatchExpressions s)"
    using add_expressions_ok [OF exprs] by blast
  have sub: "all_match rs l \<longleftrightarrow> ?ls \<subseteq>\<^sub>f l" for l
    using rs(2) range_order_mem [OF rng] by (auto simp: fmsubset_iff)
  show ?thesis
  proof (cases "fmdom ?ls = {||} \<and> MatchExpressions s = []")
    case True
    then have "selector_matches ps l" for l
      using Some by (auto simp: selector_matches_def fmsubset_iff dest: fmdomI)
    with True Some that [of Everything] show ?thesis
      by (simp add: LabelSelectorAsSelector_def)
  next
    case False
    with Some rs(1) rs' sub that [of "InternalSelector rs'"] show ?thesis
      by (auto simp: LabelSelectorAsSelector_def selector_matches_def)
  qed
qed

lemma LabelSelectorAsSelector_error:
  assumes ord: "selector_order ps ks" and bad: "\<not> selector_ok ps"
  shows "\<exists>er. LabelSelectorAsSelector ps ks = Inl er"
proof -
  obtain s where s: "ps = Some s"
    and cases: "\<not> valid_labels (entries (MatchLabels s)) \<or> \<not> list_all expression_ok (MatchExpressions s)"
    using bad by (auto simp: selector_ok_def split: option.splits)
  let ?ls = "entries (MatchLabels s)"
  have nonempty: "\<not> (fmdom ?ls = {||} \<and> MatchExpressions s = [])"
    using cases by (auto simp: valid_labels_def fmpred_iff dest: fmdomI)
  consider k v where "fmlookup ?ls k = Some v" "\<not> valid_label k v" "k \<in> set ks"
    | "\<not> list_all expression_ok (MatchExpressions s)"
    using cases ord s range_order_mem by (fastforce simp: valid_labels_def fmpred_iff selector_order_def)
  then show ?thesis
  proof cases
    case 1
    then obtain er where "add_match_labels ?ls ks (InternalSelector []) = Inl er"
      using add_match_labels_error by blast
    with s nonempty show ?thesis by (auto simp: LabelSelectorAsSelector_def)
  next
    case 2
    have "\<exists>er. (case add_match_labels ?ls ks (InternalSelector []) of
             Inl e \<Rightarrow> Inl e | Inr sel \<Rightarrow> add_expressions (MatchExpressions s) sel) = Inl er"
      using add_expressions_error [OF 2] by (auto split: sum.splits)
    with s nonempty show ?thesis by (auto simp: LabelSelectorAsSelector_def)
  qed
qed

end
