(* ===== verification/TopoSort.thy ===== *)
theory TopoSort
  imports Api
begin

text \<open>
  \<^verbatim>\<open>topologicalSort\<close> of \<^verbatim>\<open>pkg/validation/validation.go\<close>, with the field errors it returns
  (\<^verbatim>\<open>pkg/util/validation/field\<close> of the vendored Kubernetes).  The closure \<^verbatim>\<open>visit\<close> is recursive
  through the variables it captures, which are the record \<open>tsort\<close> here.  Its recursion carries
  fuel: \<open>visit_fuel\<close> shows that one more than the number of steps that are not on the stack is
  enough, so the sort, which starts with one more than the number of steps, never runs out.
\<close>

section \<open>Field errors\<close>

datatype path_elem = Child string | Index nat

type_synonym Path = "path_elem list"

datatype ErrorType =
  ErrorTypeNotFound | ErrorTypeRequired | ErrorTypeInvalid | ErrorTypeForbidden

datatype bad_value = BadString string | BadInt int | BadNil | BadStruct

record field_error =
  feType :: ErrorType
  feField :: Path
  feBadValue :: bad_value
  feDetail :: "string list"

definition NotFound :: "Path \<Rightarrow> string \<Rightarrow> field_error" where
  "NotFound p v = \<lparr>feType = ErrorTypeNotFound, feField = p, feBadValue = BadString v, feDetail = []\<rparr>"

definition Required :: "Path \<Rightarrow> string list \<Rightarrow> field_error" where
  "Required p d = \<lparr>feType = ErrorTypeRequired, feField = p, feBadValue = BadString [], feDetail = d\<rparr>"

definition Invalid :: "Path \<Rightarrow> bad_value \<Rightarrow> string list \<Rightarrow> field_error" where
  "Invalid p v d = \<lparr>feType = ErrorTypeInvalid, feField = p, feBadValue = v, feDetail = d\<rparr>"

definition Forbidden :: "Path \<Rightarrow> string list \<Rightarrow> field_error" where
  "Forbidden p d = \<lparr>feType = ErrorTypeForbidden, feField = p, feBadValue = BadString [], feDetail = d\<rparr>"

section \<open>The sort\<close>

text \<open>The variables \<^verbatim>\<open>visit\<close> captures; a \<^verbatim>\<open>map[string]bool\<close> that only holds true is a set.\<close>

record tsort =
  ts_sorted :: "string list"
  temporary :: "string set"
  permanent :: "string set"
  cycle :: "string list"
  isCyclic :: bool
  cycleStart :: string

text \<open>How the loop over the dependencies ends: by its last element, or by a return inside it.\<close>

datatype deps_result = AllVisited tsort | Returned "field_error option" tsort

text \<open>The bookkeeping after a dependency of \<open>n\<close> reported a cycle.\<close>

definition extend_cycle :: "string \<Rightarrow> tsort \<Rightarrow> tsort" where
  "extend_cycle n st =
     (if length (cycleStart st) \<noteq> 0 then
        (let st1 = st\<lparr>cycle := cycle st @ [n]\<rparr>
         in if n = cycleStart st1 then st1\<lparr>cycleStart := []\<rparr> else st1)
      else st)"

fun visit :: "nat \<Rightarrow> WorkflowStep gomap \<Rightarrow> Path \<Rightarrow> string \<Rightarrow> tsort \<Rightarrow> (field_error option \<times> tsort) option"
and visit_deps :: "nat \<Rightarrow> WorkflowStep gomap \<Rightarrow> Path \<Rightarrow> string \<Rightarrow> string list \<Rightarrow> tsort \<Rightarrow> deps_result option"
where
  "visit 0 steps fp n st = None"
| "visit (Suc fuel) steps fp n st =
     (case fmlookup steps n of
        None \<Rightarrow> Some (Some (NotFound fp n), st)
      | Some step \<Rightarrow>
          if n \<in> temporary st then Some (None, st\<lparr>isCyclic := True, cycleStart := n\<rparr>)
          else if n \<in> permanent st then Some (None, st)
          else
            (case visit_deps fuel steps fp n (Dependencies step)
                    (st\<lparr>temporary := insert n (temporary st)\<rparr>) of
               None \<Rightarrow> None
             | Some (Returned r st') \<Rightarrow> Some (r, st')
             | Some (AllVisited st') \<Rightarrow>
                 Some (None, st'\<lparr>temporary := temporary st' - {n},
                                 permanent := insert n (permanent st'),
                                 ts_sorted := ts_sorted st' @ [n]\<rparr>)))"
| "visit_deps fuel steps fp n [] st = Some (AllVisited st)"
| "visit_deps fuel steps fp n (m # ms) st =
     (case visit fuel steps fp m st of
        None \<Rightarrow> None
      | Some (Some err, st') \<Rightarrow> Some (Returned (Some err) st')
      | Some (None, st') \<Rightarrow>
          if isCyclic st' then Some (Returned None (extend_cycle n st'))
          else visit_deps fuel steps fp n ms st')"

fun visit_keys :: "nat \<Rightarrow> WorkflowStep gomap \<Rightarrow> Path \<Rightarrow> string list \<Rightarrow> tsort \<Rightarrow>
    (field_error + string list) option" where
  "visit_keys fuel steps fp [] st = Some (Inr (ts_sorted st))"
| "visit_keys fuel steps fp (k # ks) st =
     (if k \<in> permanent st then visit_keys fuel steps fp ks st
      else
        (case visit fuel steps fp k st of
           None \<Rightarrow> None
         | Some (Some err, st') \<Rightarrow> Some (Inl err)
         | Some (None, st') \<Rightarrow>
             if isCyclic st' then Some (Inl (Forbidden fp (''detected cycle %s'' # cycle st')))
             else visit_keys fuel steps fp ks st'))"

definition tsort_init :: "nat \<Rightarrow> tsort" where
  "tsort_init n =
     \<lparr>ts_sorted = replicate n [], temporary = {}, permanent = {}, cycle = [],
      isCyclic = False, cycleStart = []\<rparr>"

definition topologicalSort :: "WorkflowStep gomap \<Rightarrow> Path \<Rightarrow> (field_error + string list) option" where
  "topologicalSort steps fp =
     (let keys = sorted_keys steps
      in visit_keys (Suc (length keys)) steps fp keys (tsort_init (length keys)))"

section \<open>Dependencies as a relation\<close>

definition deps :: "WorkflowStep gomap \<Rightarrow> (string \<times> string) set" where
  "deps steps = {(n, m). \<exists>st. fmlookup steps n = Some st \<and> m \<in> set (Dependencies st)}"

definition no_missing_deps :: "WorkflowStep gomap \<Rightarrow> bool" where
  "no_missing_deps steps \<longleftrightarrow>
     fmpred (\<lambda>n st. list_all (\<lambda>d. fmlookup steps d \<noteq> None) (Dependencies st)) steps"

lemma no_missing_deps_Range: "no_missing_deps steps \<longleftrightarrow> Range (deps steps) \<subseteq> fmdom' steps"
  by (fastforce simp: no_missing_deps_def deps_def fmpred_iff list_all_iff fmlookup_dom'_iff)

text \<open>A list in which every step comes after its dependencies.\<close>

definition topo_order :: "WorkflowStep gomap \<Rightarrow> string list \<Rightarrow> bool" where
  "topo_order steps xs \<longleftrightarrow> (\<forall>i < length xs. deps steps `` {xs ! i} \<subseteq> set (take i xs))"

text \<open>A closed walk: every element depends on the one before it, the first on the last.\<close>

fun dep_chain :: "WorkflowStep gomap \<Rightarrow> string \<Rightarrow> string list \<Rightarrow> bool" where
  "dep_chain steps c [] = True"
| "dep_chain steps c (x # xs) = ((x, c) \<in> deps steps \<and> dep_chain steps x xs)"

definition genuine_cycle :: "WorkflowStep gomap \<Rightarrow> string list \<Rightarrow> bool" where
  "genuine_cycle steps xs \<longleftrightarrow> xs \<noteq> [] \<and> dep_chain steps (last xs) xs"

lemma depsI: "fmlookup steps n = Some st \<Longrightarrow> m \<in> set (Dependencies st) \<Longrightarrow> (n, m) \<in> deps steps"
  by (auto simp: deps_def)

lemma deps_image: "fmlookup steps n = Some st \<Longrightarrow> deps steps `` {n} = set (Dependencies st)"
  by (auto simp: deps_def)

lemma topo_order_Nil [simp]: "topo_order steps []"
  by (simp add: topo_order_def)

lemma topo_order_snoc: "topo_order steps (xs @ [x]) \<longleftrightarrow> topo_order steps xs \<and> deps steps `` {x} \<subseteq> set xs"
  by (auto simp: topo_order_def nth_append less_Suc_eq)

lemma topo_order_closed:
  assumes "topo_order steps xs" and "x \<in> set xs"
  shows "deps steps `` {x} \<subseteq> set xs"
proof -
  obtain i where "i < length xs" "xs ! i = x" using assms(2) by (auto simp: in_set_conv_nth)
  with assms(1) show ?thesis by (auto simp: topo_order_def dest: in_set_takeD)
qed

lemma dep_chain_snoc:
  "dep_chain steps c (xs @ [x]) \<longleftrightarrow>
     dep_chain steps c xs \<and> (x, if xs = [] then c else last xs) \<in> deps steps"
  by (induction xs arbitrary: c) auto

text \<open>What a step reaches lies before it.\<close>

lemma topo_order_before:
  assumes topo: "topo_order steps xs" and i: "i < length xs"
  shows "(xs ! i, b) \<in> (deps steps)\<^sup>+ \<Longrightarrow> b \<in> set (take i xs)"
proof (induction rule: trancl_induct)
  case (base b)
  with topo i show ?case by (auto simp: topo_order_def)
next
  case (step b c)
  then obtain j where j: "j < i" "xs ! j = b" by (auto simp: in_set_conv_nth)
  then have "c \<in> set (take j xs)"
    using topo [unfolded topo_order_def, rule_format, of j] i step(2) by auto
  moreover have "set (take j xs) \<subseteq> set (take i xs)" using j by (intro set_take_subset_set_take) simp
  ultimately show ?case by blast
qed

lemma topo_order_no_cycle:
  assumes "topo_order steps xs" and "distinct xs" and "a \<in> set xs"
  shows "(a, a) \<notin> (deps steps)\<^sup>+"
proof
  assume cyc: "(a, a) \<in> (deps steps)\<^sup>+"
  obtain i where i: "i < length xs" "xs ! i = a" using assms(3) by (auto simp: in_set_conv_nth)
  with topo_order_before [OF assms(1) i(1)] cyc have "a \<in> set (take i xs)" by simp
  with i assms(2) show False by (auto simp: in_set_conv_nth nth_eq_iff_index_eq)
qed


section \<open>The invariant of the search\<close>

text \<open>
  Between calls of \<^verbatim>\<open>visit\<close> that have met no cycle: the finished steps are exactly the list built so
  far (behind the \<open>k\<close> empty strings the slice starts with), in dependency order; the steps on the
  stack are not finished.
\<close>

definition ts_inv :: "WorkflowStep gomap \<Rightarrow> nat \<Rightarrow> tsort \<Rightarrow> bool" where
  "ts_inv steps k st \<longleftrightarrow>
     \<not> isCyclic st \<and> cycle st = [] \<and> temporary st \<union> permanent st \<subseteq> fmdom' steps
     \<and> temporary st \<inter> permanent st = {}
     \<and> (\<exists>srt. ts_sorted st = replicate k [] @ srt \<and> distinct srt
              \<and> set srt = permanent st \<and> topo_order steps srt)"

text \<open>
  After a cycle was met: the cycle is real, and the part of it collected so far leads from the
  step where it was found to the step that returns, until it is closed.
\<close>

definition cycle_found :: "WorkflowStep gomap \<Rightarrow> string set \<Rightarrow> string \<Rightarrow> tsort \<Rightarrow> bool" where
  "cycle_found steps stack n st \<longleftrightarrow>
     isCyclic st \<and> (\<exists>x. (x, x) \<in> (deps steps)\<^sup>+)
     \<and> ([] \<notin> fmdom' steps \<longrightarrow>
          (if cycleStart st = [] then genuine_cycle steps (cycle st)
           else cycleStart st \<in> stack \<and> dep_chain steps (cycleStart st) (cycle st)
                \<and> n = (if cycle st = [] then cycleStart st else last (cycle st))))"

definition visit_post :: "WorkflowStep gomap \<Rightarrow> nat \<Rightarrow> Path \<Rightarrow> tsort \<Rightarrow> string \<Rightarrow> field_error option \<Rightarrow> tsort \<Rightarrow> bool" where
  "visit_post steps k fp st n r st' \<longleftrightarrow>
     (case r of
        Some e \<Rightarrow> \<exists>m. e = NotFound fp m \<and> m \<notin> fmdom' steps \<and> (n, m) \<in> (deps steps)\<^sup>*
      | None \<Rightarrow>
          if isCyclic st' then cycle_found steps (temporary st) n st'
          else ts_inv steps k st' \<and> temporary st' = temporary st
               \<and> permanent st \<subseteq> permanent st' \<and> n \<in> permanent st')"

definition deps_post :: "WorkflowStep gomap \<Rightarrow> nat \<Rightarrow> Path \<Rightarrow> tsort \<Rightarrow> string \<Rightarrow> string list \<Rightarrow> deps_result \<Rightarrow> bool" where
  "deps_post steps k fp st n ms r \<longleftrightarrow>
     (case r of
        AllVisited st' \<Rightarrow>
          ts_inv steps k st' \<and> temporary st' = temporary st
          \<and> permanent st \<subseteq> permanent st' \<and> set ms \<subseteq> permanent st'
      | Returned (Some e) st' \<Rightarrow> \<exists>m. e = NotFound fp m \<and> m \<notin> fmdom' steps \<and> (n, m) \<in> (deps steps)\<^sup>*
      | Returned None st' \<Rightarrow> cycle_found steps (temporary st - {n}) n st')"

definition on_stack :: "WorkflowStep gomap \<Rightarrow> tsort \<Rightarrow> string \<Rightarrow> bool" where
  "on_stack steps st n \<longleftrightarrow> (\<forall>t \<in> temporary st. (t, n) \<in> (deps steps)\<^sup>+)"

text \<open>The two places where a cycle grows.\<close>

lemma cycle_found_start:
  assumes "n \<in> fmdom' steps" "n \<in> temporary st" and "on_stack steps st n" and "cycle st = []"
  shows "cycle_found steps (temporary st) n (st\<lparr>isCyclic := True, cycleStart := n\<rparr>)"
  using assms by (auto simp: cycle_found_def on_stack_def genuine_cycle_def)

lemma cycle_found_extend:
  assumes "cycle_found steps stack m st" and "(n, m) \<in> deps steps"
  shows "cycle_found steps (stack - {n}) n (extend_cycle n st)"
proof (cases "cycleStart st = []")
  case True
  with assms(1) show ?thesis by (auto simp: cycle_found_def extend_cycle_def)
next
  case False
  show ?thesis
  proof (cases "[] \<in> fmdom' steps")
    case True
    with assms(1) show ?thesis by (auto simp: cycle_found_def extend_cycle_def Let_def)
  next
    case non: False
    with assms(1) False have "cycleStart st \<in> stack" "dep_chain steps (cycleStart st) (cycle st)"
      "m = (if cycle st = [] then cycleStart st else last (cycle st))"
      by (auto simp: cycle_found_def)
    with assms(2) have "dep_chain steps (cycleStart st) (cycle st @ [n])"
      by (simp add: dep_chain_snoc)
    with False non assms(1) show ?thesis
      by (auto simp: cycle_found_def extend_cycle_def Let_def genuine_cycle_def)
  qed
qed

lemma ts_inv_push:
  assumes "ts_inv steps k st" and "n \<in> fmdom' steps" and "n \<notin> permanent st"
  shows "ts_inv steps k (st\<lparr>temporary := insert n (temporary st)\<rparr>)"
  using assms by (auto simp: ts_inv_def)

lemma ts_inv_pop:
  assumes inv: "ts_inv steps k st" and n: "fmlookup steps n = Some step" "n \<in> temporary st"
    and ds: "set (Dependencies step) \<subseteq> permanent st"
  shows "ts_inv steps k (st\<lparr>temporary := temporary st - {n}, permanent := insert n (permanent st),
           ts_sorted := ts_sorted st @ [n]\<rparr>)"
proof -
  from inv obtain srt where srt: "ts_sorted st = replicate k [] @ srt" "distinct srt"
    "set srt = permanent st" "topo_order steps srt" by (auto simp: ts_inv_def)
  with inv n ds have "ts_sorted st @ [n] = replicate k [] @ (srt @ [n])" "distinct (srt @ [n])"
    "set (srt @ [n]) = insert n (permanent st)" "topo_order steps (srt @ [n])"
    by (auto simp: ts_inv_def topo_order_snoc deps_image)
  then show ?thesis
    using inv n by (auto simp: ts_inv_def)
qed

lemma on_stack_push:
  assumes "on_stack steps st n" and "(n, m) \<in> deps steps"
  shows "on_stack steps (st\<lparr>temporary := insert n (temporary st)\<rparr>) m"
  using assms by (auto simp: on_stack_def intro: trancl_into_trancl)

lemma on_stack_cong: "temporary st' = temporary st \<Longrightarrow> on_stack steps st' n = on_stack steps st n"
  by (simp add: on_stack_def)


section \<open>Partial correctness\<close>

lemma visit_correct:
  "visit fuel steps fp n st = Some (r, st') \<Longrightarrow> ts_inv steps k st \<Longrightarrow> on_stack steps st n \<Longrightarrow>
     visit_post steps k fp st n r st'"
  "visit_deps fuel steps fp n ms st = Some dr \<Longrightarrow> ts_inv steps k st \<Longrightarrow>
     (\<forall>m \<in> set ms. (n, m) \<in> deps steps \<and> on_stack steps st m) \<Longrightarrow>
     deps_post steps k fp st n ms dr"
proof (induction fuel steps fp n st and fuel steps fp n ms st arbitrary: r st' and dr
    rule: visit_visit_deps.induct)
  case (1 steps fp n st)
  then show ?case by simp
next
  case (2 fuel steps fp n st)
  show ?case
  proof (cases "fmlookup steps n")
    case None
    with 2 show ?thesis by (auto simp: visit_post_def fmlookup_dom'_iff)
  next
    case (Some step)
    then have n_dom: "n \<in> fmdom' steps" by (rule fmdom'I)
    have inv: "ts_inv steps k st" and stack: "on_stack steps st n" using 2 by auto
    consider (temp) "n \<in> temporary st" | (perm) "n \<notin> temporary st" "n \<in> permanent st"
      | (new) "n \<notin> temporary st" "n \<notin> permanent st" by blast
    then show ?thesis
    proof cases
      case temp
      with Some "2.prems"(1) have "r = None" "st' = st\<lparr>isCyclic := True, cycleStart := n\<rparr>" by auto
      with temp inv stack n_dom show ?thesis
        by (auto simp: visit_post_def ts_inv_def intro!: cycle_found_start)
    next
      case perm
      with Some "2.prems"(1) have "r = None" "st' = st" by auto
      with perm inv show ?thesis by (auto simp: visit_post_def ts_inv_def)
    next
      case new
      let ?st = "st\<lparr>temporary := insert n (temporary st)\<rparr>"
      obtain dr where dr: "visit_deps fuel steps fp n (Dependencies step) ?st = Some dr"
        using new Some "2.prems"(1) by (auto split: option.splits)
      have "ts_inv steps k ?st" using inv n_dom new by (intro ts_inv_push) auto
      moreover have "\<forall>m \<in> set (Dependencies step). (n, m) \<in> deps steps \<and> on_stack steps ?st m"
        using Some stack by (blast intro: depsI on_stack_push)
      ultimately have post: "deps_post steps k fp ?st n (Dependencies step) dr"
        using "2.IH" [OF Some new dr] by blast
      show ?thesis
      proof (cases dr)
        case (Returned e st1)
        with new Some dr "2.prems"(1) have "r = e" "st' = st1" by auto
        with post Returned new show ?thesis
          by (auto simp: deps_post_def visit_post_def cycle_found_def split: option.splits)
      next
        case (AllVisited st1)
        with new Some dr "2.prems"(1) have r: "r = None"
          "st' = st1\<lparr>temporary := temporary st1 - {n}, permanent := insert n (permanent st1),
                      ts_sorted := ts_sorted st1 @ [n]\<rparr>" by auto
        from post AllVisited have st1: "ts_inv steps k st1" "temporary st1 = insert n (temporary st)"
          "permanent st \<subseteq> permanent st1" "set (Dependencies step) \<subseteq> permanent st1"
          by (auto simp: deps_post_def)
        then have "ts_inv steps k st'"
          using ts_inv_pop [OF st1(1) Some _ st1(4)] r by simp
        with r st1 new show ?thesis by (auto simp: visit_post_def ts_inv_def)
      qed
    qed
  qed
next
  case (3 fuel steps fp n st)
  then show ?case by (auto simp: deps_post_def)
next
  case (4 fuel steps fp n m ms st)
  have edge: "(n, m) \<in> deps steps" and stack: "on_stack steps st m" using "4.prems"(3) by auto
  obtain r st1 where v: "visit fuel steps fp m st = Some (r, st1)"
    using "4.prems"(1) by (auto split: option.splits)
  have post: "visit_post steps k fp st m r st1"
    using "4.IH"(1) [OF v "4.prems"(2) stack] .
  show ?case
  proof (cases r)
    case (Some e)
    with v "4.prems"(1) have "dr = Returned (Some e) st1" by simp
    with post Some edge show ?thesis
      by (auto simp: visit_post_def deps_post_def intro: converse_rtrancl_into_rtrancl)
  next
    case None
    show ?thesis
    proof (cases "isCyclic st1")
      case True
      with v None "4.prems"(1) have "dr = Returned None (extend_cycle n st1)" by simp
      with post None True edge show ?thesis
        by (auto simp: visit_post_def deps_post_def intro: cycle_found_extend)
    next
      case False
      with v None "4.prems"(1) have rest: "visit_deps fuel steps fp n ms st1 = Some dr" by simp
      from post None False have st1: "ts_inv steps k st1" "temporary st1 = temporary st"
        "permanent st \<subseteq> permanent st1" "m \<in> permanent st1" by (auto simp: visit_post_def)
      then have "deps_post steps k fp st1 n ms dr"
        using "4.IH"(2) [OF v _ None False rest] "4.prems"(3) by (auto simp: on_stack_cong [of st1 st])
      with st1 show ?thesis by (auto simp: deps_post_def split: deps_result.splits option.splits)
    qed
  qed
qed


section \<open>Termination: the fuel is enough\<close>

lemma card_push:
  assumes "finite D" and "n \<in> D" and "n \<notin> T"
  shows "card (D - insert n T) < card (D - T)"
  using assms by (intro psubset_card_mono) auto

lemma visit_fuel:
  "ts_inv steps k st \<Longrightarrow> on_stack steps st n \<Longrightarrow> card (fmdom' steps - temporary st) < fuel \<Longrightarrow>
     visit fuel steps fp n st \<noteq> None"
  "ts_inv steps k st \<Longrightarrow> (\<forall>m \<in> set ms. (n, m) \<in> deps steps \<and> on_stack steps st m) \<Longrightarrow>
     card (fmdom' steps - temporary st) < fuel \<Longrightarrow> visit_deps fuel steps fp n ms st \<noteq> None"
proof (induction fuel steps fp n st and fuel steps fp n ms st rule: visit_visit_deps.induct)
  case (1 steps fp n st)
  then show ?case by simp
next
  case (2 fuel steps fp n st)
  show ?case
  proof (cases "fmlookup steps n")
    case None
    then show ?thesis by simp
  next
    case (Some step)
    show ?thesis
    proof (cases "n \<in> temporary st \<or> n \<in> permanent st")
      case True
      with Some show ?thesis by auto
    next
      case False
      let ?st = "st\<lparr>temporary := insert n (temporary st)\<rparr>"
      have n_dom: "n \<in> fmdom' steps" using Some by (rule fmdom'I)
      with False "2.prems" have "ts_inv steps k ?st" by (intro ts_inv_push) auto
      moreover have "\<forall>m \<in> set (Dependencies step). (n, m) \<in> deps steps \<and> on_stack steps ?st m"
        using Some "2.prems"(2) by (blast intro: depsI on_stack_push)
      moreover have "card (fmdom' steps - temporary ?st) < fuel"
        using card_push [of "fmdom' steps" n "temporary st"] n_dom False "2.prems"(3) by simp
      ultimately have "visit_deps fuel steps fp n (Dependencies step) ?st \<noteq> None"
        using "2.IH" [OF Some] False by blast
      with Some False show ?thesis by (auto split: deps_result.splits)
    qed
  qed
next
  case (3 fuel steps fp n st)
  then show ?case by simp
next
  case (4 fuel steps fp n m ms st)
  have stack: "on_stack steps st m" using "4.prems"(2) by auto
  have "visit fuel steps fp m st \<noteq> None" using "4.IH"(1) [OF "4.prems"(1) stack "4.prems"(3)] .
  then obtain r st1 where v: "visit fuel steps fp m st = Some (r, st1)" by auto
  have post: "visit_post steps k fp st m r st1"
    by (rule visit_correct(1) [OF v "4.prems"(1) stack])
  show ?case
  proof (cases "r = None \<and> \<not> isCyclic st1")
    case True
    with post have st1: "ts_inv steps k st1" "temporary st1 = temporary st"
      by (auto simp: visit_post_def)
    then have "visit_deps fuel steps fp n ms st1 \<noteq> None"
      using "4.IH"(2) [OF v _ _ _ st1(1)] True "4.prems"(2,3) by (auto simp: on_stack_cong [of st1 st])
    with v True show ?thesis by simp
  next
    case False
    with v show ?thesis by (auto split: option.splits)
  qed
qed

section \<open>The sort is correct\<close>

lemma ts_inv_init: "ts_inv steps k (tsort_init k)"
  by (simp add: ts_inv_def tsort_init_def)

definition sort_post :: "WorkflowStep gomap \<Rightarrow> nat \<Rightarrow> Path \<Rightarrow> string list \<Rightarrow> string set \<Rightarrow> field_error + string list \<Rightarrow> bool" where
  "sort_post steps k fp ks done r \<longleftrightarrow>
     (case r of
        Inr l \<Rightarrow> \<exists>srt. l = replicate k [] @ srt \<and> distinct srt \<and> topo_order steps srt
                     \<and> set ks \<union> done \<subseteq> set srt \<and> set srt \<subseteq> fmdom' steps
      | Inl e \<Rightarrow> (\<exists>n m. e = NotFound fp m \<and> n \<in> set ks \<and> m \<notin> fmdom' steps \<and> (n, m) \<in> (deps steps)\<^sup>*)
               \<or> (\<exists>c. e = Forbidden fp (''detected cycle %s'' # c) \<and> (\<exists>x. (x, x) \<in> (deps steps)\<^sup>+)
                      \<and> ([] \<notin> fmdom' steps \<longrightarrow> genuine_cycle steps c)))"

lemma sort_post_Cons:
  assumes "sort_post steps k fp ks done' r" and "done \<subseteq> done'" and "n \<in> done'"
  shows "sort_post steps k fp (n # ks) done r"
proof (cases r)
  case (Inl e)
  with assms(1) show ?thesis by (simp add: sort_post_def) blast
next
  case (Inr l)
  with assms show ?thesis by (simp add: sort_post_def) blast
qed

lemma visit_keys_correct:
  "ts_inv steps k st \<Longrightarrow> temporary st = {} \<Longrightarrow> card (fmdom' steps) < fuel \<Longrightarrow>
   \<exists>r. visit_keys fuel steps fp ks st = Some r \<and> sort_post steps k fp ks (permanent st) r"
proof (induction ks arbitrary: st)
  case Nil
  then show ?case by (auto simp: sort_post_def ts_inv_def)
next
  case (Cons n ks)
  show ?case
  proof (cases "n \<in> permanent st")
    case True
    with Cons.IH [OF Cons.prems] show ?thesis
      using sort_post_Cons [of steps k fp ks "permanent st" _ "permanent st" n] by auto
  next
    case False
    have stack: "on_stack steps st n" using Cons.prems by (simp add: on_stack_def)
    have "visit fuel steps fp n st \<noteq> None"
      using visit_fuel(1) [OF Cons.prems(1) stack] Cons.prems by simp
    then obtain r st1 where v: "visit fuel steps fp n st = Some (r, st1)" by auto
    have post: "visit_post steps k fp st n r st1"
      by (rule visit_correct(1) [OF v Cons.prems(1) stack])
    consider (err) e where "r = Some e" | (cyc) "r = None" "isCyclic st1" | (ok) "r = None" "\<not> isCyclic st1"
      by (cases r) auto
    then show ?thesis
    proof cases
      case err
      with post False v show ?thesis by (auto simp: visit_post_def sort_post_def)
    next
      case cyc
      with post Cons.prems(2) have "cycle_found steps {} n st1" by (simp add: visit_post_def)
      with cyc False v show ?thesis
        by (auto simp: sort_post_def cycle_found_def split: if_splits)
    next
      case ok
      with post Cons.prems have st1: "ts_inv steps k st1" "temporary st1 = {}"
        "permanent st \<subseteq> permanent st1" "n \<in> permanent st1" by (auto simp: visit_post_def)
      obtain res where "visit_keys fuel steps fp ks st1 = Some res"
        "sort_post steps k fp ks (permanent st1) res"
        using Cons.IH [OF st1(1,2) Cons.prems(3)] by blast
      with ok False v show ?thesis
        using sort_post_Cons [of steps k fp ks "permanent st1" res "permanent st" n] st1(3,4) by auto
    qed
  qed
qed

lemma topologicalSort_spec:
  "\<exists>r. topologicalSort steps fp = Some r \<and>
       sort_post steps (card (fmdom' steps)) fp (sorted_keys steps) {} r"
  using visit_keys_correct [OF ts_inv_init, where steps = steps and k = "card (fmdom' steps)"
      and fuel = "Suc (card (fmdom' steps))" and fp = fp and ks = "sorted_keys steps"]
  by (simp add: topologicalSort_def Let_def range_order_length [of steps] tsort_init_def)


lemma reaches_missing:
  assumes "(n, m) \<in> (deps steps)\<^sup>*" and "n \<in> fmdom' steps" and "m \<notin> fmdom' steps"
  shows "m \<in> Range (deps steps)"
  using assms(1)
proof (cases rule: rtrancl.cases)
  case rtrancl_refl
  with assms(2,3) show ?thesis by simp
next
  case (rtrancl_into_rtrancl b)
  then show ?thesis by blast
qed

lemma topo_order_all:
  assumes "topo_order steps srt" and "distinct srt" and "set srt = fmdom' steps"
  shows "acyclic (deps steps)" and "no_missing_deps steps"
proof -
  have "a \<in> set srt" if "(a, b) \<in> (deps steps)\<^sup>+" for a b
    using tranclD [OF that] assms(3) by (auto simp: deps_def intro: fmdom'I)
  then show "acyclic (deps steps)"
    using topo_order_no_cycle [OF assms(1,2)] by (auto simp: acyclic_def)
  show "no_missing_deps steps"
    using topo_order_closed [OF assms(1)] assms(3)
    by (fastforce simp: no_missing_deps_Range deps_def intro: fmdom'I)
qed

lemma sort_accepts:
  "(\<exists>l. topologicalSort steps fp = Some (Inr l)) \<longleftrightarrow> acyclic (deps steps) \<and> no_missing_deps steps"
proof -
  obtain r where r: "topologicalSort steps fp = Some r"
    and post: "sort_post steps (card (fmdom' steps)) fp (sorted_keys steps) {} r"
    using topologicalSort_spec by blast
  show ?thesis
  proof (cases r)
    case (Inl e)
    with post have "\<not> (acyclic (deps steps) \<and> no_missing_deps steps)"
    proof -
      consider n m where "n \<in> fmdom' steps" "m \<notin> fmdom' steps" "(n, m) \<in> (deps steps)\<^sup>*"
        | x where "(x, x) \<in> (deps steps)\<^sup>+"
        using post Inl by (auto simp: sort_post_def)
      then show ?thesis
        by cases (auto simp: acyclic_def no_missing_deps_Range dest: reaches_missing)
    qed
    with Inl r show ?thesis by auto
  next
    case (Inr l)
    with post obtain srt where "distinct srt" "topo_order steps srt" "set srt = fmdom' steps"
      by (auto simp: sort_post_def)
    with Inr r topo_order_all show ?thesis by auto
  qed
qed

text \<open>
  \<^verbatim>\<open>topologicalSort\<close> returns for every step map: its recursion ends within one call per
  step on the stack, so the fuel the model starts it with is never used up.
\<close>

theorem topologicalSort_terminates: "\<exists>r. topologicalSort steps fp = Some r"
  using topologicalSort_spec by blast

text \<open>
  C21. \<^verbatim>\<open>topologicalSort\<close> succeeds exactly for the step maps whose dependencies all name steps
  and form no cycle.
\<close>

theorem topologicalSort_accepts_iff_dag:
  "(\<exists>l. topologicalSort steps fp = Some (Inr l)) \<longleftrightarrow> acyclic (deps steps) \<and> no_missing_deps steps"
  by (rule sort_accepts)

text \<open>
  C22. A successful sort lists every step exactly once and after all its dependencies - behind
  as many empty strings as there are steps, because the slice is made with that length and then
  appended to.
\<close>

theorem topologicalSort_order:
  assumes "topologicalSort steps fp = Some (Inr l)"
  shows "\<exists>srt. l = replicate (card (fmdom' steps)) [] @ srt \<and> distinct srt
               \<and> set srt = fmdom' steps \<and> topo_order steps srt"
  using assms topologicalSort_spec [of steps fp] by (auto simp: sort_post_def)

text \<open>
  A sort that fails names the reason: a dependency that is no step, or a walk along
  dependencies that ends where it began (when no step has the empty name, with which the code
  marks a closed cycle).
\<close>

theorem topologicalSort_error:
  assumes "topologicalSort steps fp = Some (Inl e)" and "fmlookup steps [] = None"
  shows "(\<exists>m. e = NotFound fp m \<and> m \<in> Range (deps steps) - fmdom' steps)
       \<or> (\<exists>c. e = Forbidden fp (''detected cycle %s'' # c) \<and> genuine_cycle steps c)"
proof -
  have "[] \<notin> fmdom' steps"
    using assms(2) by (simp add: fmdom'_notI)
  with assms(1) topologicalSort_spec [of steps fp] show ?thesis
    by (auto simp: sort_post_def dest: reaches_missing)
qed

section \<open>Examples\<close>

definition bare_step :: "string list \<Rightarrow> WorkflowStep" where
  "bare_step ds = \<lparr>JobTemplate = None, ExternalRef = None, Dependencies = ds\<rparr>"

definition diamond :: "WorkflowStep gomap" where
  "diamond = fmap_of_list
     [(''d'', bare_step [''b'', ''c'']), (''c'', bare_step [''a'']),
      (''b'', bare_step [''a'']), (''a'', bare_step [])]"

definition two_cycle :: "WorkflowStep gomap" where
  "two_cycle = fmap_of_list [(''b'', bare_step [''a'']), (''a'', bare_step [''b''])]"

lemma topologicalSort_order_witness:
  "topologicalSort diamond [] = Some (Inr ([[], [], [], []] @ [''a'', ''b'', ''c'', ''d'']))
   \<and> (\<exists>srt. [[], [], [], []] @ [''a'', ''b'', ''c'', ''d''] = replicate (card (fmdom' diamond)) [] @ srt
            \<and> distinct srt \<and> set srt = fmdom' diamond \<and> topo_order diamond srt)"
proof -
  have "topologicalSort diamond [] = Some (Inr ([[], [], [], []] @ [''a'', ''b'', ''c'', ''d'']))"
    by code_simp
  with topologicalSort_order [OF this] show ?thesis by blast
qed

lemma topologicalSort_error_witness:
  "topologicalSort two_cycle [] = Some (Inl (Forbidden [] [''detected cycle %s'', ''b'', ''a'']))
   \<and> genuine_cycle two_cycle [''b'', ''a'']"
proof -
  have s: "topologicalSort two_cycle [] = Some (Inl (Forbidden [] [''detected cycle %s'', ''b'', ''a'']))"
    by code_simp
  have "fmlookup two_cycle [] = None" by code_simp
  from topologicalSort_error [OF s this] s show ?thesis
    by (auto simp: Forbidden_def NotFound_def)
qed

end
