(* ===== verification/Validation.thy ===== *)
theory Validation
  imports LabelSelectors TopoSort
begin

text \<open>
  \<^verbatim>\<open>pkg/validation/validation.go\<close> but for the sort (theory TopoSort).  The validation of object
  metadata belongs to Kubernetes and is a parameter: \<open>vmeta\<close> stands for
  \<^verbatim>\<open>ValidateObjectMeta(_, true, NameIsDNSSubdomain, "metadata")\<close>, \<open>vmetaUpd\<close> for
  \<^verbatim>\<open>ValidateObjectMetaUpdate\<close>.  The label selector's validation is modelled, because it decides
  whether the selector can be turned into one that matches.  Loops over maps take their order:
  \<open>lks\<close> for the selector's labels, \<open>sks\<close> for the steps.
\<close>

section \<open>Label selectors\<close>

fun msg_detail :: "name_msg \<Rightarrow> string list" where
  "msg_detail EmptyError = [''must be non-empty'']"
| "msg_detail (MaxLenError n) = [''must be no more than %d characters'']"
| "msg_detail (RegexError r) = [''must match the regex'', r]"
| "msg_detail (PrefixPart m) = ''prefix part '' # msg_detail m"
| "msg_detail (NamePart m) = ''name part '' # msg_detail m"

definition ValidateLabelName :: "string \<Rightarrow> Path \<Rightarrow> field_error list" where
  "ValidateLabelName n p = map (\<lambda>m. Invalid p (BadString n) (msg_detail m)) (IsQualifiedName n)"

fun ValidateLabels :: "string gomap \<Rightarrow> string list \<Rightarrow> Path \<Rightarrow> field_error list" where
  "ValidateLabels ls [] p = []"
| "ValidateLabels ls (k # ks) p =
     (case fmlookup ls k of
        None \<Rightarrow> []
      | Some v \<Rightarrow> ValidateLabelName k p
                  @ map (\<lambda>m. Invalid p (BadString v) (msg_detail m)) (IsValidLabelValue v))
     @ ValidateLabels ls ks p"

definition ValidateLabelSelectorRequirement :: "SelectorRequirement \<Rightarrow> Path \<Rightarrow> field_error list" where
  "ValidateLabelSelectorRequirement sr p =
     (case reqOperator sr of
        OpIn \<Rightarrow> if length (reqValues sr) = 0
                 then [Required (p @ [Child ''values'']) [''must be specified when `operator` is 'In' or 'NotIn'']] else []
      | OpNotIn \<Rightarrow> if length (reqValues sr) = 0
                 then [Required (p @ [Child ''values'']) [''must be specified when `operator` is 'In' or 'NotIn'']] else []
      | OpExists \<Rightarrow> if length (reqValues sr) > 0
                 then [Forbidden (p @ [Child ''values'']) [''may not be specified'']] else []
      | OpDoesNotExist \<Rightarrow> if length (reqValues sr) > 0
                 then [Forbidden (p @ [Child ''values'']) [''may not be specified'']] else []
      | OpOther s \<Rightarrow> [Invalid (p @ [Child ''operator'']) (BadString s) [''not a valid selector operator'']])
     @ ValidateLabelName (reqKey sr) (p @ [Child ''key''])"

fun validate_requirements :: "nat \<Rightarrow> SelectorRequirement list \<Rightarrow> Path \<Rightarrow> field_error list" where
  "validate_requirements i [] p = []"
| "validate_requirements i (e # es) p =
     ValidateLabelSelectorRequirement e (p @ [Child ''matchExpressions'', Index i])
     @ validate_requirements (Suc i) es p"

definition ValidateLabelSelector :: "LabelSelector option \<Rightarrow> string list \<Rightarrow> Path \<Rightarrow> field_error list" where
  "ValidateLabelSelector ps lks p =
     (case ps of
        None \<Rightarrow> []
      | Some s \<Rightarrow> ValidateLabels (entries (MatchLabels s)) lks (p @ [Child ''matchLabels''])
                  @ validate_requirements 0 (MatchExpressions s) p)"

section \<open>Workflows\<close>

definition ValidateNonnegativeField :: "int \<Rightarrow> Path \<Rightarrow> field_error list" where
  "ValidateNonnegativeField v p =
     (if v < 0 then [Invalid p (BadInt v) [''must be greater than or equal to 0'']] else [])"

fun exclusive_errors :: "WorkflowStep gomap \<Rightarrow> string list \<Rightarrow> Path \<Rightarrow> field_error list" where
  "exclusive_errors steps [] p = []"
| "exclusive_errors steps (k # ks) p =
     (case fmlookup steps k of
        None \<Rightarrow> []
      | Some v \<Rightarrow>
          (if JobTemplate v \<noteq> None \<and> ExternalRef v \<noteq> None
           then [Invalid p (BadString k) [''jobTemplate and externalRef are mutually exclusive'']] else []))
     @ exclusive_errors steps ks p"

definition ValidateWorkflowSteps :: "WorkflowStep gomap \<Rightarrow> string list \<Rightarrow> Path \<Rightarrow> field_error list" where
  "ValidateWorkflowSteps steps sks p =
     (case topologicalSort steps p of Some (Inl e) \<Rightarrow> [e] | _ \<Rightarrow> [])
     @ exclusive_errors steps sks p"

definition ValidateWorkflowSpec :: "WorkflowSpec \<Rightarrow> string list \<Rightarrow> string list \<Rightarrow> Path \<Rightarrow> field_error list" where
  "ValidateWorkflowSpec spec lks sks p =
     (case ActiveDeadlineSeconds spec of
        None \<Rightarrow> []
      | Some v \<Rightarrow> ValidateNonnegativeField v (p @ [Child ''activeDeadlineSeconds'']))
     @ (case JobsSelector spec of
          None \<Rightarrow> [Required (p @ [Child ''jobsSelector'']) []]
        | Some s \<Rightarrow> ValidateLabelSelector (Some s) lks (p @ [Child ''jobsSelector'']))
     @ ValidateWorkflowSteps (entries (Steps spec)) sks (p @ [Child ''steps''])"

definition ValidateWorkflow ::
  "(ObjectMeta \<Rightarrow> field_error list) \<Rightarrow> string list \<Rightarrow> string list \<Rightarrow> Workflow \<Rightarrow> field_error list" where
  "ValidateWorkflow vmeta lks sks w =
     vmeta (wfMeta w) @ ValidateWorkflowSpec (Spec w) lks sks [Child ''spec'']"

definition ValidateWorkflowStatus :: "WorkflowStatus \<Rightarrow> Path \<Rightarrow> field_error list" where
  "ValidateWorkflowStatus status p =
     (if Statuses status = None
      then [Invalid (p @ [Child ''statuses'']) BadNil [''statuses map may not be nil'']] else [])"

section \<open>Updates\<close>

text \<open>\<^verbatim>\<open>api.Semantic.DeepEqual\<close>: reflect.DeepEqual that takes nil and empty maps for equal.\<close>

definition norm_map :: "'v nilmap \<Rightarrow> 'v nilmap" where
  "norm_map m = Some (entries m)"

definition norm_meta :: "ObjectMeta \<Rightarrow> ObjectMeta" where
  "norm_meta m = m\<lparr>Labels := norm_map (Labels m), Annotations := norm_map (Annotations m)\<rparr>"

definition norm_selector :: "LabelSelector \<Rightarrow> LabelSelector" where
  "norm_selector s = s\<lparr>MatchLabels := norm_map (MatchLabels s)\<rparr>"

definition norm_template :: "JobTemplateSpec \<Rightarrow> JobTemplateSpec" where
  "norm_template t =
     \<lparr>tmplMeta = norm_meta (tmplMeta t),
      tmplSpec = (tmplSpec t)
        \<lparr>Selector := map_option norm_selector (Selector (tmplSpec t)),
         Template := (Template (tmplSpec t))\<lparr>podMeta := norm_meta (podMeta (Template (tmplSpec t)))\<rparr>\<rparr>\<rparr>"

definition norm_step :: "WorkflowStep \<Rightarrow> WorkflowStep" where
  "norm_step s = s\<lparr>JobTemplate := map_option norm_template (JobTemplate s)\<rparr>"

definition step_DeepEqual :: "WorkflowStep \<Rightarrow> WorkflowStep \<Rightarrow> bool" where
  "step_DeepEqual a b \<longleftrightarrow> norm_step a = norm_step b"

definition selector_DeepEqual :: "LabelSelector option \<Rightarrow> LabelSelector option \<Rightarrow> bool" where
  "selector_DeepEqual a b \<longleftrightarrow> map_option norm_selector a = map_option norm_selector b"

text \<open>The zero value a missing step reads as.\<close>

definition zero_step :: WorkflowStep where
  "zero_step = \<lparr>JobTemplate = None, ExternalRef = None, Dependencies = []\<rparr>"

fun running_completed :: "WorkflowStepStatus gomap \<Rightarrow> string list \<Rightarrow> string set \<times> string set \<Rightarrow> string set \<times> string set" where
  "running_completed sts [] acc = acc"
| "running_completed sts (k # ks) (running, completed) =
     running_completed sts ks
       (case fmlookup sts k of
          None \<Rightarrow> (running, completed)
        | Some st \<Rightarrow> if Complete st then (running, insert k completed)
                     else (insert k running, completed))"

definition getWorkflowRunningAndCompletedSteps :: "Workflow \<Rightarrow> string list \<Rightarrow> string set \<times> string set" where
  "getWorkflowRunningAndCompletedSteps w sks =
     (case Statuses (Status w) of
        None \<Rightarrow> ({}, {})
      | Some sts \<Rightarrow> running_completed sts sks ({}, {}))"

definition steps_path :: Path where
  "steps_path = [Child ''spec'', Child ''steps'']"

fun removed_error :: "string set \<Rightarrow> string set \<Rightarrow> string list \<Rightarrow> field_error option" where
  "removed_error running completed [] = None"
| "removed_error running completed (s # ss) =
     (if s \<in> running then Some (Forbidden steps_path [''cannot delete running step'', s])
      else if s \<in> completed then Some (Forbidden steps_path [''cannot delete completed step'', s])
      else removed_error running completed ss)"

fun modified_errors ::
  "WorkflowStep gomap \<Rightarrow> WorkflowStep gomap \<Rightarrow> string set \<Rightarrow> string set \<Rightarrow> string list \<Rightarrow> field_error list" where
  "modified_errors steps old running completed [] = []"
| "modified_errors steps old running completed (k # ks) =
     (case fmlookup steps k of
        None \<Rightarrow> []
      | Some v \<Rightarrow>
          (if \<not> step_DeepEqual v (case fmlookup old k of None \<Rightarrow> zero_step | Some o' \<Rightarrow> o') then
             (if k \<in> running then [Forbidden steps_path [''cannot modify running step'', k]] else [])
             @ (if k \<in> completed then [Forbidden steps_path [''cannot modify completed step'', k]] else [])
           else []))
     @ modified_errors steps old running completed ks"

definition ValidateWorkflowSpecUpdate ::
  "WorkflowSpec \<Rightarrow> WorkflowSpec \<Rightarrow> string set \<Rightarrow> string set \<Rightarrow> string list \<Rightarrow> string list \<Rightarrow> Path \<Rightarrow> field_error list" where
  "ValidateWorkflowSpecUpdate spec oldSpec running completed lks sks p =
     (let errs = ValidateWorkflowSpec spec lks sks p
                 @ (if selector_DeepEqual (JobsSelector oldSpec) (JobsSelector spec) then []
                    else [Invalid (p @ [Child ''jobsSelector'']) BadStruct [''field is immutable'']]);
          removed = sorted_list_of_fset (fmdom (entries (Steps oldSpec)) |-| fmdom (entries (Steps spec)))
      in case removed_error running completed removed of
           Some e \<Rightarrow> errs @ [e]
         | None \<Rightarrow> errs @ modified_errors (entries (Steps spec)) (entries (Steps oldSpec)) running completed sks)"

definition ValidateWorkflowStatusUpdate :: "WorkflowStatus \<Rightarrow> WorkflowStatus \<Rightarrow> Path \<Rightarrow> field_error list" where
  "ValidateWorkflowStatusUpdate status oldStatus p = ValidateWorkflowStatus status p"

text \<open>\<open>oks\<close> is the order of the old workflow's steps.\<close>

definition ValidateWorkflowUpdate ::
  "(ObjectMeta \<Rightarrow> ObjectMeta \<Rightarrow> field_error list) \<Rightarrow> string list \<Rightarrow> string list \<Rightarrow> string list \<Rightarrow>
   Workflow \<Rightarrow> Workflow \<Rightarrow> field_error list" where
  "ValidateWorkflowUpdate vmetaUpd oks lks sks w oldw =
     (let errs = vmetaUpd (wfMeta w) (wfMeta oldw);
          (running, completed) = getWorkflowRunningAndCompletedSteps oldw oks
      in if list_all (\<lambda>k. k \<in> completed) oks
         then errs @ [Forbidden [Child ''workflow''] [''cannot update completed workflow'']]
         else errs
              @ ValidateWorkflowSpecUpdate (Spec w) (Spec oldw) running completed lks sks [Child ''spec'']
              @ ValidateWorkflowStatusUpdate (Status w) (Status oldw) [Child ''status''])"


section \<open>When validation finds nothing\<close>

lemma ValidateLabelName_Nil [simp]: "ValidateLabelName n p = [] \<longleftrightarrow> IsQualifiedName n = []"
  by (simp add: ValidateLabelName_def)

lemma ValidateLabels_Nil:
  "ValidateLabels ls ks p = [] \<longleftrightarrow> (\<forall>k \<in> set ks. \<forall>v. fmlookup ls k = Some v \<longrightarrow> valid_label k v)"
  by (induction ks) (auto simp: valid_label_def split: option.splits)

lemma ValidateLabels_range:
  "range_order ls ks \<Longrightarrow> ValidateLabels ls ks p = [] \<longleftrightarrow> valid_labels ls"
  by (auto simp: ValidateLabels_Nil valid_labels_def fmpred_iff range_order_mem)

text \<open>What the selector's validation asks of a match expression: nothing of its values' form.\<close>

definition expression_shape :: "SelectorRequirement \<Rightarrow> bool" where
  "expression_shape e \<longleftrightarrow>
     IsQualifiedName (reqKey e) = [] \<and>
     (case reqOperator e of
        OpIn \<Rightarrow> reqValues e \<noteq> [] | OpNotIn \<Rightarrow> reqValues e \<noteq> []
      | OpExists \<Rightarrow> reqValues e = [] | OpDoesNotExist \<Rightarrow> reqValues e = []
      | OpOther _ \<Rightarrow> False)"

lemma ValidateLabelSelectorRequirement_Nil:
  "ValidateLabelSelectorRequirement e p = [] \<longleftrightarrow> expression_shape e"
  by (auto simp: ValidateLabelSelectorRequirement_def expression_shape_def split: SelectorOp.splits)

lemma validate_requirements_Nil:
  "validate_requirements i es p = [] \<longleftrightarrow> list_all expression_shape es"
  by (induction es arbitrary: i) (auto simp: ValidateLabelSelectorRequirement_Nil)

lemma expression_ok_shape:
  "expression_ok e \<longleftrightarrow> expression_shape e \<and> (\<forall>v \<in> set (reqValues e). IsValidLabelValue v = [])"
  by (auto simp: expression_ok_def expression_shape_def split: SelectorOp.splits)

definition selector_shape :: "LabelSelector \<Rightarrow> bool" where
  "selector_shape s \<longleftrightarrow>
     valid_labels (entries (MatchLabels s)) \<and> list_all expression_shape (MatchExpressions s)"

lemma ValidateLabelSelector_Nil:
  "selector_order (Some s) lks \<Longrightarrow> ValidateLabelSelector (Some s) lks p = [] \<longleftrightarrow> selector_shape s"
  by (simp add: ValidateLabelSelector_def selector_shape_def selector_order_def
      ValidateLabels_range validate_requirements_Nil)

lemma exclusive_errors_Nil:
  "exclusive_errors steps ks p = [] \<longleftrightarrow>
     (\<forall>k \<in> set ks. \<forall>v. fmlookup steps k = Some v \<longrightarrow> JobTemplate v = None \<or> ExternalRef v = None)"
  by (induction ks) (auto split: option.splits)

definition exclusive_steps :: "WorkflowStep gomap \<Rightarrow> bool" where
  "exclusive_steps steps \<longleftrightarrow> fmpred (\<lambda>k v. JobTemplate v = None \<or> ExternalRef v = None) steps"

lemma ValidateWorkflowSteps_Nil:
  assumes "range_order steps sks"
  shows "ValidateWorkflowSteps steps sks p = [] \<longleftrightarrow>
           acyclic (deps steps) \<and> no_missing_deps steps \<and> exclusive_steps steps"
proof -
  obtain r where r: "topologicalSort steps p = Some r"
    using topologicalSort_spec by blast
  have "(case topologicalSort steps p of Some (Inl e) \<Rightarrow> [e] | _ \<Rightarrow> []) = []
          \<longleftrightarrow> (\<exists>l. topologicalSort steps p = Some (Inr l))"
    using r by (auto split: sum.splits)
  moreover have "exclusive_errors steps sks p = [] \<longleftrightarrow> exclusive_steps steps"
    using range_order_mem [OF assms] unfolding exclusive_errors_Nil exclusive_steps_def fmpred_iff by metis
  ultimately show ?thesis
    by (simp add: ValidateWorkflowSteps_def sort_accepts)
qed

lemma running_completed_sets:
  "fst (running_completed sts ks (r, c)) = r \<union> {k \<in> set ks. \<exists>st. fmlookup sts k = Some st \<and> \<not> Complete st}"
  "snd (running_completed sts ks (r, c)) = c \<union> {k \<in> set ks. \<exists>st. fmlookup sts k = Some st \<and> Complete st}"
  by (induction ks arbitrary: r c) (auto split: option.splits if_splits)

lemma getWorkflowRunningAndCompletedSteps_phase:
  assumes "range_order (wf_steps w) ks"
  shows "getWorkflowRunningAndCompletedSteps w ks =
           ({k \<in> fmdom' (wf_steps w). step_phase w k = Running},
            {k \<in> fmdom' (wf_steps w). step_phase w k = Completed})"
  using running_completed_sets [of _ ks "{}" "{}"] range_order_set [OF assms]
  by (cases "Statuses (Status w)")
     (auto simp: getWorkflowRunningAndCompletedSteps_def step_phase_def status_phase_def
        prod_eq_iff split: option.splits if_splits)


section \<open>Properties of validation\<close>

text \<open>
  C23. A workflow spec passes validation exactly when its deadline is not negative, it has a
  selector of the right shape, its dependencies are a cycle-free graph over its own steps, and
  no step has both a job template and an external reference.  The orders in which the maps are
  walked do not matter.
\<close>

theorem ValidateWorkflowSpec_accepts:
  assumes "range_order (entries (Steps spec)) sks" and "selector_order (JobsSelector spec) lks"
  shows "ValidateWorkflowSpec spec lks sks p = [] \<longleftrightarrow>
           (\<forall>d. ActiveDeadlineSeconds spec = Some d \<longrightarrow> 0 \<le> d)
           \<and> (\<exists>s. JobsSelector spec = Some s \<and> selector_shape s)
           \<and> acyclic (deps (entries (Steps spec))) \<and> no_missing_deps (entries (Steps spec))
           \<and> exclusive_steps (entries (Steps spec))"
  using assms
  by (auto simp: ValidateWorkflowSpec_def ValidateWorkflowSteps_Nil ValidateNonnegativeField_def
      ValidateLabelSelector_Nil split: option.splits)

text \<open>
  A selector that validation accepts can be turned into a matching selector exactly when the
  values of its match expressions are label values, which validation does not look at: an
  accepted selector may still be one that \<^verbatim>\<open>LabelSelectorAsSelector\<close> refuses.
\<close>

theorem accepted_selector_converts:
  assumes "selector_order (Some s) lks" and "ValidateLabelSelector (Some s) lks p = []"
  shows "(\<exists>sel. LabelSelectorAsSelector (Some s) lks = Inr sel) \<longleftrightarrow>
           (\<forall>e \<in> set (MatchExpressions s). \<forall>v \<in> set (reqValues e). IsValidLabelValue v = [])"
proof -
  from assms have shape: "selector_shape s" by (simp add: ValidateLabelSelector_Nil)
  have "(\<exists>sel. LabelSelectorAsSelector (Some s) lks = Inr sel) \<longleftrightarrow> selector_ok (Some s)"
    using LabelSelectorAsSelector_ok [OF assms(1)] LabelSelectorAsSelector_error [OF assms(1)]
    by (metis Inl_Inr_False)
  with shape show ?thesis
    by (auto simp: selector_ok_def selector_shape_def list_all_iff expression_ok_shape)
qed

lemma removed_error_None:
  "removed_error running completed ss = None \<longleftrightarrow> set ss \<inter> (running \<union> completed) = {}"
  by (induction ss) auto

lemma modified_errors_Nil:
  "modified_errors steps old running completed ks = [] \<Longrightarrow> k \<in> set ks \<Longrightarrow> k \<in> running \<union> completed \<Longrightarrow>
   fmlookup steps k = Some v \<Longrightarrow> fmlookup old k = Some v' \<Longrightarrow> step_DeepEqual v v'"
  by (induction ks) (auto split: if_splits)

lemma spec_update_keeps:
  assumes errs: "ValidateWorkflowSpecUpdate spec oldSpec running completed lks sks p = []"
    and sks: "range_order (entries (Steps spec)) sks"
    and k: "k \<in> running \<union> completed" and old: "fmlookup (entries (Steps oldSpec)) k = Some v'"
  shows "\<exists>v. fmlookup (entries (Steps spec)) k = Some v \<and> step_DeepEqual v v'"
proof -
  let ?removed = "sorted_list_of_fset (fmdom (entries (Steps oldSpec)) |-| fmdom (entries (Steps spec)))"
  have none: "removed_error running completed ?removed = None"
    and mods: "modified_errors (entries (Steps spec)) (entries (Steps oldSpec)) running completed sks = []"
    using errs by (auto simp: ValidateWorkflowSpecUpdate_def Let_def split: option.splits)
  have "k \<notin> set ?removed" using none k by (auto simp: removed_error_None)
  then have "k |\<in>| fmdom (entries (Steps spec))"
    using old by (auto dest: fmdomI)
  then obtain v where v: "fmlookup (entries (Steps spec)) k = Some v"
    by (auto simp: fmlookup_dom_iff)
  with modified_errors_Nil [OF mods _ k v old] range_order_mem [OF sks] show ?thesis by blast
qed

text \<open>
  C24. An update that validation accepts keeps the past: every step of the old workflow that is
  running or completed is still there, unchanged, the selector is unchanged, and the new spec is
  itself valid.
\<close>

theorem ValidateWorkflowUpdate_keeps_started_steps:
  assumes "ValidateWorkflowUpdate vmetaUpd oks lks sks w oldw = []"
    and "range_order (wf_steps oldw) oks" and "range_order (wf_steps w) sks"
    and "Running \<le> step_phase oldw k" and "fmlookup (wf_steps oldw) k = Some v'"
  shows "(\<exists>v. fmlookup (wf_steps w) k = Some v \<and> step_DeepEqual v v')
         \<and> selector_DeepEqual (JobsSelector (Spec oldw)) (JobsSelector (Spec w))
         \<and> ValidateWorkflowSpec (Spec w) lks sks [Child ''spec''] = []"
proof -
  let ?r = "{k \<in> fmdom' (wf_steps oldw). step_phase oldw k = Running}"
  let ?c = "{k \<in> fmdom' (wf_steps oldw). step_phase oldw k = Completed}"
  have upd: "ValidateWorkflowSpecUpdate (Spec w) (Spec oldw) ?r ?c lks sks [Child ''spec''] = []"
    using assms(1) by (simp add: ValidateWorkflowUpdate_def Let_def
        getWorkflowRunningAndCompletedSteps_phase [OF assms(2)] split: if_splits)
  have "k \<in> ?r \<union> ?c"
    using assms(4,5) by (cases "step_phase oldw k") (auto intro: fmdom'I)
  with spec_update_keeps [OF upd assms(3) _ assms(5)] upd show ?thesis
    by (auto simp: ValidateWorkflowSpecUpdate_def Let_def split: option.splits if_splits)
qed

text \<open>
  A workflow all of whose steps are completed - a workflow without steps among them - accepts
  no update.
\<close>

theorem completed_workflow_immutable:
  assumes "range_order (wf_steps oldw) oks"
    and "\<forall>k \<in> fmdom' (wf_steps oldw). step_phase oldw k = Completed"
  shows "Forbidden [Child ''workflow''] [''cannot update completed workflow'']
           \<in> set (ValidateWorkflowUpdate vmetaUpd oks lks sks w oldw)"
  using assms(2) range_order_set [OF assms(1)]
  by (auto simp: ValidateWorkflowUpdate_def list_all_iff
      getWorkflowRunningAndCompletedSteps_phase [OF assms(1)])


section \<open>Examples\<close>

definition two_steps :: "WorkflowStep gomap" where
  "two_steps = fmap_of_list [(''two'', job_step [''one'']), (''one'', job_step [])]"

definition uid_selector :: LabelSelector where
  "uid_selector = \<lparr>MatchLabels = Some (fmap_of_list [(WorkflowUIDLabel, ''123'')]), MatchExpressions = []\<rparr>"

definition odd_selector :: LabelSelector where
  "odd_selector = \<lparr>MatchLabels = None,
     MatchExpressions = [\<lparr>reqKey = ''app'', reqOperator = OpIn, reqValues = [''not a label'']\<rparr>]\<rparr>"

definition two_spec :: WorkflowSpec where
  "two_spec = \<lparr>ActiveDeadlineSeconds = None, Steps = Some two_steps, JobsSelector = Some uid_selector\<rparr>"

lemma two_orders: "range_order (entries (Steps two_spec)) [''one'', ''two'']"
  "selector_order (JobsSelector two_spec) [WorkflowUIDLabel]"
  by code_simp+

lemma ValidateWorkflowSpec_accepts_witness:
  "ValidateWorkflowSpec two_spec [WorkflowUIDLabel] [''one'', ''two''] [] = []
   \<and> acyclic (deps two_steps)"
proof -
  have v: "ValidateWorkflowSpec two_spec [WorkflowUIDLabel] [''one'', ''two''] [] = []"
    by code_simp
  with ValidateWorkflowSpec_accepts [OF two_orders, of "[]"] have "acyclic (deps (entries (Steps two_spec)))"
    by blast
  with v show ?thesis by (simp add: two_spec_def)
qed

lemma accepted_selector_converts_witness:
  "ValidateLabelSelector (Some odd_selector) [] [] = []
   \<and> \<not> (\<exists>sel. LabelSelectorAsSelector (Some odd_selector) [] = Inr sel)"
proof -
  have o: "selector_order (Some odd_selector) []" by code_simp
  have v: "ValidateLabelSelector (Some odd_selector) [] [] = []" by code_simp
  have "\<not> (\<forall>e \<in> set (MatchExpressions odd_selector). \<forall>v \<in> set (reqValues e). IsValidLabelValue v = [])"
    by code_simp
  with accepted_selector_converts [OF o v] v show ?thesis by blast
qed

definition two_workflow :: "WorkflowStepStatus gomap \<Rightarrow> Workflow" where
  "two_workflow sts = sample_workflow (Some (fmap_of_list [(WorkflowUIDLabel, ''123'')]))
     two_spec (Some sts)"

definition one_running :: "WorkflowStepStatus gomap" where
  "one_running = fmap_of_list [(''one'', \<lparr>Complete = False, Reference = sample_reference\<rparr>)]"

definition all_done :: "WorkflowStepStatus gomap" where
  "all_done = fmap_of_list [(''one'', \<lparr>Complete = True, Reference = sample_reference\<rparr>),
                            (''two'', \<lparr>Complete = True, Reference = sample_reference\<rparr>)]"

lemma ValidateWorkflowUpdate_keeps_started_steps_witness:
  "ValidateWorkflowUpdate (\<lambda>_ _. []) [''one'', ''two''] [WorkflowUIDLabel] [''one'', ''two'']
      (two_workflow one_running) (two_workflow one_running) = []
   \<and> (\<exists>v. fmlookup (wf_steps (two_workflow one_running)) ''one'' = Some v \<and> step_DeepEqual v (job_step []))"
proof -
  let ?w = "two_workflow one_running"
  have v: "ValidateWorkflowUpdate (\<lambda>_ _. []) [''one'', ''two''] [WorkflowUIDLabel] [''one'', ''two''] ?w ?w = []"
    by code_simp
  have o: "range_order (wf_steps ?w) [''one'', ''two'']" by code_simp
  have p: "Running \<le> step_phase ?w ''one''" by code_simp
  have l: "fmlookup (wf_steps ?w) ''one'' = Some (job_step [])" by code_simp
  from ValidateWorkflowUpdate_keeps_started_steps [OF v o o p l] v show ?thesis by blast
qed

lemma completed_workflow_immutable_witness:
  "Forbidden [Child ''workflow''] [''cannot update completed workflow'']
       \<in> set (ValidateWorkflowUpdate (\<lambda>_ _. []) [''one'', ''two''] [] [] (two_workflow all_done) (two_workflow all_done))"
proof -
  have o: "range_order (wf_steps (two_workflow all_done)) [''one'', ''two'']" by code_simp
  have c: "\<forall>k \<in> fmdom' (wf_steps (two_workflow all_done)). step_phase (two_workflow all_done) k = Completed"
    by code_simp
  from completed_workflow_immutable [OF o c] c show ?thesis by blast
qed

end
