(* ===== verification/Stores.thy ===== *)
theory Stores
  imports Api
begin

text \<open>
  The local object caches the informers fill: \<^verbatim>\<open>pkg/client/cache/store.go\<close> and
  \<^verbatim>\<open>thread_safe_store.go\<close> of the vendored Kubernetes, without the indexes, which the controller
  does not use.  Each method runs under the store's lock, so it is one function on the map of
  items.  \<open>object_store\<close> is the interface, \<open>object_lister\<close> extends it by the listing the listers
  of this repository walk.
\<close>

section \<open>Keys\<close>

definition MetaNamespaceKeyFunc :: "ObjectMeta \<Rightarrow> string" where
  "MetaNamespaceKeyFunc m =
     (if length (Namespace m) > 0 then Namespace m @ ''/'' @ Name m else Name m)"

text \<open>Names and namespaces hold no slash, so the key tells objects apart.\<close>

lemma append_slash_inj:
  "CHR ''/'' \<notin> set a \<Longrightarrow> CHR ''/'' \<notin> set c \<Longrightarrow> a @ CHR ''/'' # b = c @ CHR ''/'' # d \<Longrightarrow> a = c \<and> b = d"
  by (induction a arbitrary: c) (auto simp: Cons_eq_append_conv append_eq_Cons_conv)

lemma MetaNamespaceKeyFunc_inj:
  assumes "CHR ''/'' \<notin> set (Namespace m)" "CHR ''/'' \<notin> set (Name m)"
    and "CHR ''/'' \<notin> set (Namespace m')" "CHR ''/'' \<notin> set (Name m')"
    and "MetaNamespaceKeyFunc m = MetaNamespaceKeyFunc m'"
  shows "Namespace m = Namespace m' \<and> Name m = Name m'"
proof -
  have slash: "CHR ''/'' \<in> set (MetaNamespaceKeyFunc x) \<longleftrightarrow> Namespace x \<noteq> []"
    if "CHR ''/'' \<notin> set (Name x)" for x
    using that by (auto simp: MetaNamespaceKeyFunc_def)
  show ?thesis
  proof (cases "Namespace m = []")
    case True
    with slash assms have "Namespace m' = []" by metis
    with True assms(5) show ?thesis by (simp add: MetaNamespaceKeyFunc_def)
  next
    case False
    with slash assms have "Namespace m' \<noteq> []" by metis
    with False assms show ?thesis
      by (auto simp: MetaNamespaceKeyFunc_def dest: append_slash_inj)
  qed
qed

section \<open>The store\<close>

type_synonym 'o store = "'o gomap"

definition Store_Add :: "('o \<Rightarrow> ObjectMeta) \<Rightarrow> 'o \<Rightarrow> 'o store \<Rightarrow> 'o store" where
  "Store_Add meta obj items = fmupd (MetaNamespaceKeyFunc (meta obj)) obj items"

definition Store_Update :: "('o \<Rightarrow> ObjectMeta) \<Rightarrow> 'o \<Rightarrow> 'o store \<Rightarrow> 'o store" where
  "Store_Update meta obj items = fmupd (MetaNamespaceKeyFunc (meta obj)) obj items"

definition Store_Delete :: "('o \<Rightarrow> ObjectMeta) \<Rightarrow> 'o \<Rightarrow> 'o store \<Rightarrow> 'o store" where
  "Store_Delete meta obj items =
     (case fmlookup items (MetaNamespaceKeyFunc (meta obj)) of
        None \<Rightarrow> items
      | Some _ \<Rightarrow> fmdrop (MetaNamespaceKeyFunc (meta obj)) items)"

definition Store_GetByKey :: "'o store \<Rightarrow> string \<Rightarrow> 'o option" where
  "Store_GetByKey items key = fmlookup items key"

definition Store_Get :: "('o \<Rightarrow> ObjectMeta) \<Rightarrow> 'o store \<Rightarrow> 'o \<Rightarrow> 'o option" where
  "Store_Get meta items obj = Store_GetByKey items (MetaNamespaceKeyFunc (meta obj))"

fun Store_List :: "'o store \<Rightarrow> string list \<Rightarrow> 'o list" where
  "Store_List items [] = []"
| "Store_List items (k # ks) =
     (case fmlookup items k of None \<Rightarrow> Store_List items ks | Some obj \<Rightarrow> obj # Store_List items ks)"

fun replace_items :: "('o \<Rightarrow> ObjectMeta) \<Rightarrow> 'o list \<Rightarrow> 'o store \<Rightarrow> 'o store" where
  "replace_items meta [] items = items"
| "replace_items meta (obj # objs) items =
     replace_items meta objs (fmupd (MetaNamespaceKeyFunc (meta obj)) obj items)"

definition Store_Replace :: "('o \<Rightarrow> ObjectMeta) \<Rightarrow> 'o list \<Rightarrow> 'o store \<Rightarrow> 'o store" where
  "Store_Replace meta objs items = replace_items meta objs fmempty"

text \<open>Every object lies under its own key.\<close>

definition store_keyed :: "('o \<Rightarrow> ObjectMeta) \<Rightarrow> 'o store \<Rightarrow> bool" where
  "store_keyed meta items \<longleftrightarrow> fmpred (\<lambda>k obj. MetaNamespaceKeyFunc (meta obj) = k) items"

lemma Store_List_set: "set (Store_List items ks) = {obj. \<exists>k \<in> set ks. fmlookup items k = Some obj}"
  by (induction ks) (auto split: option.splits)

lemma Store_List_range:
  "range_order items ks \<Longrightarrow> set (Store_List items ks) = {obj. \<exists>k. fmlookup items k = Some obj}"
  by (auto simp: Store_List_set range_order_mem)

lemma Store_List_distinct:
  assumes "store_keyed meta items" and "distinct ks"
  shows "distinct (Store_List items ks)"
  using assms(2)
proof (induction ks)
  case (Cons k ks)
  show ?case
  proof (cases "fmlookup items k")
    case (Some obj)
    have "obj \<notin> set (Store_List items ks)"
    proof
      assume "obj \<in> set (Store_List items ks)"
      then obtain k' where "k' \<in> set ks" "fmlookup items k' = Some obj" by (auto simp: Store_List_set)
      with assms(1) Some have "k' = k" by (auto simp: store_keyed_def fmpred_iff)
      with \<open>k' \<in> set ks\<close> Cons.prems show False by simp
    qed
    with Some Cons show ?thesis by simp
  qed (use Cons in simp)
qed simp

section \<open>The interface\<close>

locale object_store =
  fixes add :: "'o \<Rightarrow> 's \<Rightarrow> 's"
    and delete :: "'o \<Rightarrow> 's \<Rightarrow> 's"
    and get :: "'s \<Rightarrow> string \<Rightarrow> 'o option"
    and key :: "'o \<Rightarrow> string"
    and invar :: "'s \<Rightarrow> bool"
  assumes get_add: "get (add x s) k = (if k = key x then Some x else get s k)"
    and get_delete: "get (delete x s) k = (if k = key x then None else get s k)"
    and get_key: "invar s \<Longrightarrow> get s k = Some x \<Longrightarrow> key x = k"
    and invar_add: "invar s \<Longrightarrow> invar (add x s)"
    and invar_delete: "invar s \<Longrightarrow> invar (delete x s)"
begin

lemma get_added: "get (add x s) (key x) = Some x"
  by (simp add: get_add)

lemma get_deleted: "get (delete x s) (key x) = None"
  by (simp add: get_delete)

lemma add_other: "key x \<noteq> k \<Longrightarrow> get (add x s) k = get s k"
  by (simp add: get_add)

lemma same_key_same_object: "invar s \<Longrightarrow> get s k = Some x \<Longrightarrow> get s k' = Some x \<Longrightarrow> k = k'"
  using get_key by blast

end

locale object_lister = object_store add delete get key invar
  for add :: "'o \<Rightarrow> 's \<Rightarrow> 's" and delete :: "'o \<Rightarrow> 's \<Rightarrow> 's" and get :: "'s \<Rightarrow> string \<Rightarrow> 'o option"
    and key :: "'o \<Rightarrow> string" and invar :: "'s \<Rightarrow> bool" +
  fixes list :: "'s \<Rightarrow> string list \<Rightarrow> 'o list"
    and order :: "'s \<Rightarrow> string list \<Rightarrow> bool"
  assumes list_get: "order s ks \<Longrightarrow> set (list s ks) = {x. \<exists>k. get s k = Some x}"
    and list_distinct: "invar s \<Longrightarrow> order s ks \<Longrightarrow> distinct (list s ks)"
begin

text \<open>A filtered listing holds exactly the stored objects that pass the filter, each once.\<close>

lemma filtered_list:
  "order s ks \<Longrightarrow> set (filter P (list s ks)) = {x. (\<exists>k. get s k = Some x) \<and> P x}"
  by (auto simp: list_get)

lemma filtered_list_empty:
  "order s ks \<Longrightarrow> filter P (list s ks) = [] \<longleftrightarrow> (\<forall>k x. get s k = Some x \<longrightarrow> \<not> P x)"
  by (auto simp: filter_empty_conv list_get)

lemma filtered_list_single:
  assumes "invar s" and "order s ks" and "get s k = Some x" and "P x"
    and "\<And>k' y. get s k' = Some y \<Longrightarrow> P y \<Longrightarrow> y = x"
  shows "filter P (list s ks) = [x]"
proof -
  have "set (filter P (list s ks)) = {x}"
    unfolding filtered_list [OF assms(2)] using assms(3-5) by blast
  moreover have "distinct (filter P (list s ks))" using list_distinct assms(1,2) by simp
  ultimately show ?thesis by (rule distinct_singleton [rotated])
qed

end

text \<open>Both caches of the controller, the workflow store and the job store, are such listers.\<close>

interpretation cache: object_lister "Store_Add meta" "Store_Delete meta" Store_GetByKey
  "\<lambda>x. MetaNamespaceKeyFunc (meta x)" "store_keyed meta" Store_List range_order for meta
proof (unfold_locales, goal_cases)
  case 1
  then show ?case by (auto simp: Store_GetByKey_def Store_Add_def)
next
  case 2
  then show ?case by (auto simp: Store_GetByKey_def Store_Delete_def split: option.splits)
next
  case 3
  then show ?case by (auto simp: Store_GetByKey_def store_keyed_def)
next
  case 4
  then show ?case by (auto simp: store_keyed_def Store_Add_def fmpred_iff)
next
  case 5
  then show ?case by (auto simp: store_keyed_def Store_Delete_def fmpred_iff split: option.splits)
next
  case 6
  then show ?case by (simp add: Store_List_range Store_GetByKey_def)
next
  case 7
  then show ?case using Store_List_distinct range_order_distinct by blast
qed

end
