(* ===== verification/Listers.thy ===== *)
theory Listers
  imports Stores LabelSelectors
begin

text \<open>
  \<^verbatim>\<open>pkg/client/cache/listers.go\<close>: the typed views of the two caches.  A listing walks the cache in
  the order \<open>ks\<close>.  \<open>so w\<close> is the order in which the labels of workflow \<open>w\<close>'s selector are walked
  (\<open>js\<close> for jobs).  \<^verbatim>\<open>GetJobWorkflows\<close> and \<^verbatim>\<open>GetPodJobs\<close> drop the error of
  \<^verbatim>\<open>LabelSelectorAsSelector\<close> and call a method of the nil selector it comes with: that panic is
  the result None.
\<close>

section \<open>Workflows\<close>

definition WorkflowLister_Exists :: "Workflow store \<Rightarrow> Workflow \<Rightarrow> bool" where
  "WorkflowLister_Exists s w = (case Store_Get wfMeta s w of None \<Rightarrow> False | Some _ \<Rightarrow> True)"

definition WorkflowLister_List :: "Workflow store \<Rightarrow> string list \<Rightarrow> Workflow list" where
  "WorkflowLister_List s ks = Store_List s ks"

fun job_workflows_loop ::
  "(Workflow \<Rightarrow> string list) \<Rightarrow> Job \<Rightarrow> Workflow list \<Rightarrow> Workflow list option" where
  "job_workflows_loop so job [] = Some []"
| "job_workflows_loop so job (w # ws) =
     (if Namespace (wfMeta w) \<noteq> Namespace (jobMeta job) then job_workflows_loop so job ws
      else
        (case LabelSelectorAsSelector (JobsSelector (Spec w)) (so w) of
           Inl _ \<Rightarrow> None
         | Inr selector \<Rightarrow>
             (if Selector_Matches selector (entries (Labels (jobMeta job)))
              then map_option (Cons w) (job_workflows_loop so job ws)
              else job_workflows_loop so job ws)))"

definition GetJobWorkflows ::
  "(Workflow \<Rightarrow> string list) \<Rightarrow> Workflow store \<Rightarrow> string list \<Rightarrow> Job \<Rightarrow> (Workflow list \<times> go_error option) option" where
  "GetJobWorkflows so s ks job =
     (if fcard (fmdom (entries (Labels (jobMeta job)))) = 0
      then Some ([], Some (Errorf ''no workflows found for job %v because it has no labels''))
      else
        (case job_workflows_loop so job (Store_List s ks) of
           None \<Rightarrow> None
         | Some ws \<Rightarrow>
             Some (ws, if length ws = 0 then Some (Errorf ''could not find workflows for job %s'') else None)))"

section \<open>Jobs\<close>

definition JobLister_Exists :: "Job store \<Rightarrow> Job \<Rightarrow> bool" where
  "JobLister_Exists s j = (case Store_Get jobMeta s j of None \<Rightarrow> False | Some _ \<Rightarrow> True)"

definition JobLister_List :: "Job store \<Rightarrow> string list \<Rightarrow> Job list" where
  "JobLister_List s ks = Store_List s ks"

record storeJobsNamespacer =
  sjStore :: "Job store"
  sjNamespace :: string

definition JobLister_Jobs :: "Job store \<Rightarrow> string \<Rightarrow> storeJobsNamespacer" where
  "JobLister_Jobs s ns = \<lparr>sjStore = s, sjNamespace = ns\<rparr>"

definition NamespaceAll :: string where
  "NamespaceAll = []"

fun list_jobs_loop :: "string \<Rightarrow> LabelsSelector \<Rightarrow> Job list \<Rightarrow> Job list" where
  "list_jobs_loop ns selector [] = []"
| "list_jobs_loop ns selector (job # jobs) =
     (if ns = NamespaceAll \<or> ns = Namespace (jobMeta job) then
        (if Selector_Matches selector (entries (Labels (jobMeta job)))
         then job # list_jobs_loop ns selector jobs
         else list_jobs_loop ns selector jobs)
      else list_jobs_loop ns selector jobs)"

definition storeJobs_List :: "storeJobsNamespacer \<Rightarrow> string list \<Rightarrow> LabelsSelector \<Rightarrow> Job list" where
  "storeJobs_List n ks selector = list_jobs_loop (sjNamespace n) selector (Store_List (sjStore n) ks)"

fun pod_jobs_loop :: "(Job \<Rightarrow> string list) \<Rightarrow> ObjectMeta \<Rightarrow> Job list \<Rightarrow> Job list option" where
  "pod_jobs_loop js pod [] = Some []"
| "pod_jobs_loop js pod (job # jobs) =
     (if Namespace (jobMeta job) \<noteq> Namespace pod then pod_jobs_loop js pod jobs
      else
        (case LabelSelectorAsSelector (Selector (jobSpec job)) (js job) of
           Inl _ \<Rightarrow> None
         | Inr selector \<Rightarrow>
             (if \<not> Selector_Matches selector (entries (Labels pod)) then pod_jobs_loop js pod jobs
              else map_option (Cons job) (pod_jobs_loop js pod jobs))))"

definition GetPodJobs ::
  "(Job \<Rightarrow> string list) \<Rightarrow> Job store \<Rightarrow> string list \<Rightarrow> ObjectMeta \<Rightarrow> (Job list \<times> go_error option) option" where
  "GetPodJobs js s ks pod =
     (if fcard (fmdom (entries (Labels pod))) = 0
      then Some ([], Some (Errorf ''no jobs found for pod %v because it has no labels''))
      else
        (case pod_jobs_loop js pod (Store_List s ks) of
           None \<Rightarrow> None
         | Some jobs \<Rightarrow>
             Some (jobs, if length jobs = 0 then Some (Errorf ''could not find jobs for pod %s'') else None)))"

section \<open>What the listings hold\<close>

lemma list_jobs_loop_filter:
  "list_jobs_loop ns sel jobs =
     filter (\<lambda>j. (ns = NamespaceAll \<or> ns = Namespace (jobMeta j))
                 \<and> Selector_Matches sel (entries (Labels (jobMeta j)))) jobs"
  by (induction jobs) auto

definition job_in_scope :: "string \<Rightarrow> LabelsSelector \<Rightarrow> Job \<Rightarrow> bool" where
  "job_in_scope ns sel j \<longleftrightarrow>
     (ns = NamespaceAll \<or> ns = Namespace (jobMeta j)) \<and> Selector_Matches sel (entries (Labels (jobMeta j)))"

lemma storeJobs_List_filter:
  "storeJobs_List (JobLister_Jobs s ns) ks sel = filter (job_in_scope ns sel) (Store_List s ks)"
  by (simp add: storeJobs_List_def JobLister_Jobs_def list_jobs_loop_filter job_in_scope_def [abs_def])

lemma storeJobs_List_set:
  "range_order s ks \<Longrightarrow>
     set (storeJobs_List (JobLister_Jobs s ns) ks sel) =
       {j. (\<exists>k. fmlookup s k = Some j) \<and> job_in_scope ns sel j}"
  by (simp only: storeJobs_List_filter cache.filtered_list Store_GetByKey_def)

text \<open>The workflows of a namespace whose selector cannot be converted.\<close>

definition selector_broken :: "string \<Rightarrow> Workflow \<Rightarrow> bool" where
  "selector_broken ns w \<longleftrightarrow> Namespace (wfMeta w) = ns \<and> \<not> selector_ok (JobsSelector (Spec w))"

lemma job_workflows_loop_spec:
  assumes "\<forall>w \<in> set ws. selector_order (JobsSelector (Spec w)) (so w)"
  shows "job_workflows_loop so job ws =
           (if \<exists>w \<in> set ws. selector_broken (Namespace (jobMeta job)) w then None
            else Some (filter (\<lambda>w. Namespace (wfMeta w) = Namespace (jobMeta job)
                         \<and> selector_matches (JobsSelector (Spec w)) (entries (Labels (jobMeta job)))) ws))"
  using assms
proof (induction ws)
  case Nil
  then show ?case by simp
next
  case (Cons w ws)
  have ord: "selector_order (JobsSelector (Spec w)) (so w)" using Cons.prems by simp
  show ?case
  proof (cases "Namespace (wfMeta w) = Namespace (jobMeta job)")
    case False
    with Cons show ?thesis by (auto simp: selector_broken_def)
  next
    case ns: True
    show ?thesis
    proof (cases "selector_ok (JobsSelector (Spec w))")
      case True
      obtain sel where "LabelSelectorAsSelector (JobsSelector (Spec w)) (so w) = Inr sel"
        "\<And>l. Selector_Matches sel l \<longleftrightarrow> selector_matches (JobsSelector (Spec w)) l"
        using LabelSelectorAsSelector_ok [OF ord True] by blast
      with True ns Cons show ?thesis by (auto simp: selector_broken_def)
    next
      case False
      with LabelSelectorAsSelector_error [OF ord False] ns show ?thesis
        by (auto simp: selector_broken_def)
    qed
  qed
qed


lemma Store_List_all: "range_order s ks \<Longrightarrow> (\<forall>x \<in> set (Store_List s ks). P x) \<longleftrightarrow> (\<forall>k x. fmlookup s k = Some x \<longrightarrow> P x)"
  by (auto simp: Store_List_range)

definition selector_orders :: "(Workflow \<Rightarrow> string list) \<Rightarrow> Workflow store \<Rightarrow> bool" where
  "selector_orders so s \<longleftrightarrow> fmpred (\<lambda>k w. selector_order (JobsSelector (Spec w)) (so w)) s"

lemma GetJobWorkflows_loop:
  assumes "range_order s ks" and "selector_orders so s"
  shows "job_workflows_loop so job (Store_List s ks) =
           (if \<exists>k w. fmlookup s k = Some w \<and> selector_broken (Namespace (jobMeta job)) w then None
            else Some (filter (\<lambda>w. Namespace (wfMeta w) = Namespace (jobMeta job)
                         \<and> selector_matches (JobsSelector (Spec w)) (entries (Labels (jobMeta job))))
                       (Store_List s ks)))"
proof -
  have "\<forall>w \<in> set (Store_List s ks). selector_order (JobsSelector (Spec w)) (so w)"
    using assms by (simp add: Store_List_all selector_orders_def fmpred_iff)
  from job_workflows_loop_spec [OF this] show ?thesis
    using assms(1) by (auto simp: Store_List_range)
qed

text \<open>The whole answer, for those who call it.\<close>

lemma GetJobWorkflows_spec:
  assumes "range_order s ks" and "selector_orders so s"
  shows "GetJobWorkflows so s ks job =
     (if entries (Labels (jobMeta job)) = fmempty
      then Some ([], Some (Errorf ''no workflows found for job %v because it has no labels''))
      else if \<exists>k w. fmlookup s k = Some w \<and> selector_broken (Namespace (jobMeta job)) w then None
      else (let ws = filter (\<lambda>w. Namespace (wfMeta w) = Namespace (jobMeta job)
                         \<and> selector_matches (JobsSelector (Spec w)) (entries (Labels (jobMeta job)))) (Store_List s ks)
            in Some (ws, if ws = [] then Some (Errorf ''could not find workflows for job %s'') else None)))"
  by (simp add: GetJobWorkflows_def GetJobWorkflows_loop [OF assms] fmdom_empty_iff Let_def) blast

text \<open>
  \<^verbatim>\<open>GetJobWorkflows\<close> panics exactly when the job has labels and some workflow of its
  namespace - any workflow, the job's own or not, validated or not - has a selector that cannot
  be converted.
\<close>

theorem GetJobWorkflows_panics_iff:
  assumes "range_order s ks" and "selector_orders so s"
  shows "GetJobWorkflows so s ks job = None \<longleftrightarrow>
           entries (Labels (jobMeta job)) \<noteq> fmempty
           \<and> (\<exists>k w. fmlookup s k = Some w \<and> selector_broken (Namespace (jobMeta job)) w)"
  by (simp add: GetJobWorkflows_def GetJobWorkflows_loop [OF assms] fmdom_empty_iff)

text \<open>
  When it does not panic, \<^verbatim>\<open>GetJobWorkflows\<close> returns exactly the stored workflows of the
  job's namespace whose selector matches the job's labels, and an error exactly when there are
  none: after a nil error the first element exists.
\<close>

theorem GetJobWorkflows_exact:
  assumes "range_order s ks" and "selector_orders so s"
    and "GetJobWorkflows so s ks job = Some (ws, err)"
  shows "(err = None \<longleftrightarrow> ws \<noteq> [])
         \<and> (entries (Labels (jobMeta job)) \<noteq> fmempty \<longrightarrow>
              set ws = {w. (\<exists>k. fmlookup s k = Some w) \<and> Namespace (wfMeta w) = Namespace (jobMeta job)
                           \<and> selector_matches (JobsSelector (Spec w)) (entries (Labels (jobMeta job)))})"
proof (cases "entries (Labels (jobMeta job)) = fmempty")
  case True
  with assms(3) show ?thesis by (auto simp: GetJobWorkflows_def)
next
  case False
  with assms(3) have ws: "job_workflows_loop so job (Store_List s ks) = Some ws"
    "err = (if length ws = 0 then Some (Errorf ''could not find workflows for job %s'') else None)"
    by (auto simp: GetJobWorkflows_def fmdom_empty_iff split: option.splits)
  then have "ws = filter (\<lambda>w. Namespace (wfMeta w) = Namespace (jobMeta job)
               \<and> selector_matches (JobsSelector (Spec w)) (entries (Labels (jobMeta job)))) (Store_List s ks)"
    by (simp add: GetJobWorkflows_loop [OF assms(1,2)] split: if_splits)
  then have "set ws = {w. (\<exists>k. Store_GetByKey s k = Some w) \<and> Namespace (wfMeta w) = Namespace (jobMeta job)
               \<and> selector_matches (JobsSelector (Spec w)) (entries (Labels (jobMeta job)))}"
    by (simp only: cache.filtered_list [OF assms(1)])
  with ws(2) show ?thesis by (simp add: Store_GetByKey_def)
qed

text \<open>
  Listing jobs through a selector made from a set of valid labels gives exactly the cached
  jobs of the namespace that carry all of these labels, each once.
\<close>

theorem storeJobs_List_by_labels:
  assumes "range_order s ks" and "store_keyed jobMeta s" and "range_order ls lks" and "valid_labels ls"
  shows "set (storeJobs_List (JobLister_Jobs s ns) ks (SelectorFromSet (Some ls) lks)) =
           {j. (\<exists>k. fmlookup s k = Some j) \<and> (ns = NamespaceAll \<or> ns = Namespace (jobMeta j))
               \<and> ls \<subseteq>\<^sub>f entries (Labels (jobMeta j))}
         \<and> distinct (storeJobs_List (JobLister_Jobs s ns) ks (SelectorFromSet (Some ls) lks))"
proof
  show "set (storeJobs_List (JobLister_Jobs s ns) ks (SelectorFromSet (Some ls) lks)) =
           {j. (\<exists>k. fmlookup s k = Some j) \<and> (ns = NamespaceAll \<or> ns = Namespace (jobMeta j))
               \<and> ls \<subseteq>\<^sub>f entries (Labels (jobMeta j))}"
    by (simp only: storeJobs_List_set [OF assms(1)] job_in_scope_def SelectorFromSet_subset [OF assms(3,4)])
  show "distinct (storeJobs_List (JobLister_Jobs s ns) ks (SelectorFromSet (Some ls) lks))"
    using cache.list_distinct [OF assms(2,1)] by (simp add: storeJobs_List_filter)
qed

text \<open>
  With one label that is not valid in the set, the same listing returns every job of the
  namespace, whatever its labels: \<^verbatim>\<open>SelectorFromSet\<close> falls back to the selector that matches all.
\<close>

theorem storeJobs_List_invalid_label:
  assumes "range_order s ks" and "range_order ls lks" and "\<not> valid_labels ls"
  shows "set (storeJobs_List (JobLister_Jobs s ns) ks (SelectorFromSet (Some ls) lks)) =
           {j. (\<exists>k. fmlookup s k = Some j) \<and> (ns = NamespaceAll \<or> ns = Namespace (jobMeta j))}"
  by (simp add: storeJobs_List_set [OF assms(1)] job_in_scope_def SelectorFromSet_everything [OF assms(2,3)])


section \<open>Examples\<close>

definition sample_job :: "string \<Rightarrow> string gomap \<Rightarrow> JobCondition list \<Rightarrow> Job" where
  "sample_job n ls cs =
     \<lparr>jobMeta = sample_meta n (Some ls), jobSpec = tmplSpec sample_template, jobConditions = cs\<rparr>"

definition app_spec :: "LabelSelector \<Rightarrow> WorkflowSpec" where
  "app_spec sel = \<lparr>ActiveDeadlineSeconds = None, Steps = None, JobsSelector = Some sel\<rparr>"

definition good_selector :: LabelSelector where
  "good_selector = \<lparr>MatchLabels = Some (fmap_of_list [(''app'', ''x'')]), MatchExpressions = []\<rparr>"

definition bad_selector :: LabelSelector where
  "bad_selector = \<lparr>MatchLabels = None,
     MatchExpressions = [\<lparr>reqKey = ''app'', reqOperator = OpIn, reqValues = [''not a label'']\<rparr>]\<rparr>"

definition store_of :: "LabelSelector \<Rightarrow> Workflow store" where
  "store_of sel = fmap_of_list [(''default/mydag'', sample_workflow None (app_spec sel) None)]"

definition app_job :: Job where
  "app_job = sample_job ''foo'' (fmap_of_list [(''app'', ''x'')]) []"

definition job_cache :: "Job store" where
  "job_cache = fmap_of_list [(''default/foo'', app_job),
     (''default/bar'', sample_job ''bar'' (fmap_of_list [(''app'', ''y'')]) [])]"

lemma GetJobWorkflows_panics_iff_witness:
  "GetJobWorkflows (\<lambda>_. []) (store_of bad_selector) [''default/mydag''] app_job = None
   \<and> (\<exists>k w. fmlookup (store_of bad_selector) k = Some w \<and> selector_broken (Namespace (jobMeta app_job)) w)"
proof -
  have o: "range_order (store_of bad_selector) [''default/mydag'']"
    "selector_orders (\<lambda>_. []) (store_of bad_selector)" by code_simp+
  have p: "GetJobWorkflows (\<lambda>_. []) (store_of bad_selector) [''default/mydag''] app_job = None"
    by code_simp
  with GetJobWorkflows_panics_iff [OF o] show ?thesis by blast
qed

lemma GetJobWorkflows_exact_witness:
  "GetJobWorkflows (\<lambda>_. [''app'']) (store_of good_selector) [''default/mydag''] app_job =
     Some ([sample_workflow None (app_spec good_selector) None], None)
   \<and> ((None :: go_error option) = None \<longleftrightarrow> [sample_workflow None (app_spec good_selector) None] \<noteq> [])"
proof -
  have o: "range_order (store_of good_selector) [''default/mydag'']"
    "selector_orders (\<lambda>_. [''app'']) (store_of good_selector)" by code_simp+
  have r: "GetJobWorkflows (\<lambda>_. [''app'']) (store_of good_selector) [''default/mydag''] app_job =
     Some ([sample_workflow None (app_spec good_selector) None], None)"
    by code_simp
  from GetJobWorkflows_exact [OF o r] r show ?thesis by blast
qed

lemma job_cache_facts:
  "range_order job_cache [''default/bar'', ''default/foo'']" "store_keyed jobMeta job_cache"
  by code_simp+

lemma storeJobs_List_by_labels_witness:
  "storeJobs_List (JobLister_Jobs job_cache ''default'') [''default/bar'', ''default/foo'']
     (SelectorFromSet (Some (fmap_of_list [(''app'', ''x'')])) [''app'']) = [app_job]
   \<and> fmap_of_list [(''app'', ''x'')] \<subseteq>\<^sub>f entries (Labels (jobMeta app_job))"
proof -
  have ls: "range_order (fmap_of_list [(''app'', ''x'')]) [''app'']"
    "valid_labels (fmap_of_list [(''app'', ''x'')])" by code_simp+
  have l: "storeJobs_List (JobLister_Jobs job_cache ''default'') [''default/bar'', ''default/foo'']
     (SelectorFromSet (Some (fmap_of_list [(''app'', ''x'')])) [''app'']) = [app_job]"
    by code_simp
  from storeJobs_List_by_labels [OF job_cache_facts ls, of "''default''"] l show ?thesis
    by auto
qed

lemma storeJobs_List_invalid_label_witness:
  "\<not> valid_labels (fmap_of_list [(''step'', ''my step'')])
   \<and> app_job \<in> set (storeJobs_List (JobLister_Jobs job_cache ''default'') [''default/bar'', ''default/foo'']
        (SelectorFromSet (Some (fmap_of_list [(''step'', ''my step'')])) [''step'']))"
proof -
  have o: "range_order (fmap_of_list [(''step'', ''my step'')]) [''step'']" by code_simp
  have v: "\<not> valid_labels (fmap_of_list [(''step'', ''my step'')])" by code_simp
  have "fmlookup job_cache ''default/foo'' = Some app_job" "Namespace (jobMeta app_job) = ''default''"
    by code_simp+
  then have "app_job \<in> {j. (\<exists>k. fmlookup job_cache k = Some j) \<and>
      (''default'' = NamespaceAll \<or> ''default'' = Namespace (jobMeta j))}" by auto
  with v show ?thesis
    by (simp only: storeJobs_List_invalid_label [OF job_cache_facts(1) o v] simp_thms)
qed

end
