(* ===== verification/JobControl.thy ===== *)
theory JobControl
  imports LabelSelectors
begin

text \<open>
  \<^verbatim>\<open>pkg/job/control.go\<close>: the jobs a workflow's steps become.  What lies outside is a parameter:
  \<open>kc\<close> answers the Create call of the job client, \<open>enc\<close> is \<^verbatim>\<open>runtime.Encode\<close> of the serialized
  reference, \<open>conv\<close> is \<^verbatim>\<open>Scheme.Convert\<close> on job specs.  The record \<open>Control\<close> logs the jobs the
  server took and the events sent to the recorder.  \<^verbatim>\<open>ControlInterface\<close> is the locale
  \<open>job_control\<close>, interpreted by \<^verbatim>\<open>Control\<close> and by \<^verbatim>\<open>FakeControl\<close>.
\<close>

section \<open>Label sets and selectors of a step's jobs\<close>

definition WorkflowStepLabelKey :: string where
  "WorkflowStepLabelKey = Group @ ''/workflow''"

text \<open>
  Each of the two copying loops is \<open>range_copy\<close>, whose result is the override of the maps in every
  order (\<open>range_copy_add\<close>).
\<close>

definition getWorkflowJobLabelSet :: "Workflow \<Rightarrow> JobTemplateSpec \<Rightarrow> string \<Rightarrow> string gomap" where
  "getWorkflowJobLabelSet w template stepName =
     (let desired0 = fmempty;
          desired1 = range_copy (wf_labels w) (sorted_keys (wf_labels w)) desired0;
          desired2 = range_copy (entries (Labels (tmplMeta template)))
                       (sorted_keys (entries (Labels (tmplMeta template)))) desired1
      in fmupd WorkflowStepLabelKey stepName desired2)"

definition CreateWorkflowJobLabelSelector :: "Workflow \<Rightarrow> JobTemplateSpec \<Rightarrow> string \<Rightarrow> LabelsSelector" where
  "CreateWorkflowJobLabelSelector w template stepName =
     (let ls = getWorkflowJobLabelSet w template stepName
      in SelectorFromSet (Some ls) (sorted_keys ls))"

section \<open>Creating jobs\<close>

text \<open>\<^verbatim>\<open>name[:len(name)-2] + "a"\<close> panics on a name of one character.\<close>

definition maskTrailingDash :: "string \<Rightarrow> string option" where
  "maskTrailingDash name =
     (if name \<noteq> [] \<and> last name = CHR ''-'' then
        (if length name < 2 then None else Some (take (length name - 2) name @ ''a''))
      else Some name)"

definition NameIsDNSSubdomain :: "string \<Rightarrow> bool \<Rightarrow> name_msg list option" where
  "NameIsDNSSubdomain name prefix =
     (if prefix then map_option IsDNS1123Subdomain (maskTrailingDash name)
      else Some (IsDNS1123Subdomain name))"

definition getJobsPrefix :: "string \<Rightarrow> string option" where
  "getJobsPrefix controllerName =
     (let prefix = controllerName @ ''-''
      in case NameIsDNSSubdomain prefix True of
           None \<Rightarrow> None
         | Some errs \<Rightarrow> Some (if errs \<noteq> [] then controllerName else prefix))"

definition GetReference ::
  "ObjectMeta \<Rightarrow> TypeMeta \<Rightarrow> go_error + string \<Rightarrow> go_error + string \<Rightarrow> go_error + ObjectReference" where
  "GetReference m tm objectKind selfLinkVersion =
     (case (if length (tmKind tm) = 0 then objectKind else Inr (tmKind tm)) of
        Inl e \<Rightarrow> Inl e
      | Inr kind \<Rightarrow>
          (case (if length (tmAPIVersion tm) = 0 then selfLinkVersion else Inr (tmAPIVersion tm)) of
             Inl e \<Rightarrow> Inl e
           | Inr version \<Rightarrow>
               Inr \<lparr>refKind = kind, refAPIVersion = version, refName = Name m,
                    refNamespace = Namespace m, refUID = UID m, refResourceVersion = ResourceVersion m\<rparr>))"

definition CreatedByAnnotation :: string where
  "CreatedByAnnotation = ''kubernetes.io/created-by''"

definition getJobsAnnotationSet ::
  "(ObjectReference \<Rightarrow> go_error + string) \<Rightarrow> Workflow \<Rightarrow> string gomap \<times> go_error option" where
  "getJobsAnnotationSet enc w =
     (let annotations = entries (Annotations (wfMeta w));
          desired = range_copy annotations (sorted_keys annotations) fmempty;
          noKind = Inl (Errorf ''no kind registered''); noLink = Inl (Errorf ''selfLink was empty'')
      in case GetReference (wfMeta w) (GetObjectKind w) noKind noLink of
           Inl _ \<Rightarrow> (desired, Some (Errorf ''unable to get controller reference: %v''))
         | Inr ref \<Rightarrow>
             (case enc ref of
                Inl _ \<Rightarrow> (desired, Some (Errorf ''unable to serialize controller reference: %v''))
              | Inr json \<Rightarrow> (fmupd CreatedByAnnotation json desired, None)))"

record Control =
  created :: "(string \<times> Job) list"
  events :: "string list"

definition Control_CreateJob ::
  "(string \<Rightarrow> Job \<Rightarrow> go_error + Job) \<Rightarrow> (ObjectReference \<Rightarrow> go_error + string) \<Rightarrow>
   (JobSpec \<Rightarrow> go_error + JobSpec) \<Rightarrow>
   string \<Rightarrow> JobTemplateSpec \<Rightarrow> Workflow \<Rightarrow> string \<Rightarrow> Control \<Rightarrow> (go_error option \<times> Control) option" where
  "Control_CreateJob kc enc conv namespace template w stepName st =
     (let desiredLabels = getWorkflowJobLabelSet w template stepName
      in case getJobsAnnotationSet enc w of
           (_, Some err) \<Rightarrow> Some (Some err, st)
         | (desiredAnnotations, None) \<Rightarrow>
             (case getJobsPrefix (Name (wfMeta w)) of
                None \<Rightarrow> None
              | Some prefix \<Rightarrow>
                  (case conv (tmplSpec template) of
                     Inl _ \<Rightarrow> Some (Some (Errorf ''unable to convert job template: %v''), st)
                   | Inr spec \<Rightarrow>
                       (let job = \<lparr>jobMeta = \<lparr>Name = [], GenerateName = prefix, Namespace = [], UID = [],
                                     ResourceVersion = [], Labels = Some desiredLabels,
                                     Annotations = Some desiredAnnotations\<rparr>,
                                   jobSpec = spec, jobConditions = []\<rparr>
                        in case kc namespace job of
                             Inl _ \<Rightarrow> Some (Some (Errorf ''unable to create job: %v''),
                                           st\<lparr>events := events st @ [''FailedCreate'']\<rparr>)
                           | Inr newJob \<Rightarrow> Some (None, st\<lparr>created := created st @ [(namespace, job)]\<rparr>)))))"

definition Control_DeleteJob :: "string \<Rightarrow> string \<Rightarrow> Workflow \<Rightarrow> Control \<Rightarrow> go_error option \<times> Control" where
  "Control_DeleteJob namespace jobName w st = (None, st)"

fun job_finished_conditions :: "JobCondition list \<Rightarrow> bool" where
  "job_finished_conditions [] = False"
| "job_finished_conditions (c # cs) =
     (if (jcType c = JobComplete \<or> jcType c = JobFailed) \<and> jcStatus c = ConditionTrue then True
      else job_finished_conditions cs)"

definition IsJobFinished :: "Job \<Rightarrow> bool" where
  "IsJobFinished j = job_finished_conditions (jobConditions j)"

section \<open>The test double\<close>

record FakeControl =
  CreatedJobTemplates :: "JobTemplateSpec list"
  DeletedJobNames :: "string list"
  Err :: "go_error option"

definition FakeControl_CreateJob ::
  "string \<Rightarrow> JobTemplateSpec \<Rightarrow> Workflow \<Rightarrow> string \<Rightarrow> FakeControl \<Rightarrow> (go_error option \<times> FakeControl) option" where
  "FakeControl_CreateJob namespace template w key f =
     Some (None, f\<lparr>CreatedJobTemplates := CreatedJobTemplates f @ [template]\<rparr>)"

definition FakeControl_DeleteJob ::
  "string \<Rightarrow> string \<Rightarrow> Workflow \<Rightarrow> FakeControl \<Rightarrow> go_error option \<times> FakeControl" where
  "FakeControl_DeleteJob namespace name w f =
     (if Err f \<noteq> None then (Err f, f) else (None, f\<lparr>DeletedJobNames := DeletedJobNames f @ [name]\<rparr>))"

section \<open>The interface\<close>

locale job_control =
  fixes CreateJob :: "string \<Rightarrow> JobTemplateSpec \<Rightarrow> Workflow \<Rightarrow> string \<Rightarrow> 's \<Rightarrow> (go_error option \<times> 's) option"
    and DeleteJob :: "string \<Rightarrow> string \<Rightarrow> Workflow \<Rightarrow> 's \<Rightarrow> go_error option \<times> 's"
    and creations :: "'s \<Rightarrow> nat"
  assumes create_ok: "CreateJob ns t w s st = Some (None, st') \<Longrightarrow> creations st' = Suc (creations st)"
    and create_error: "CreateJob ns t w s st = Some (Some e, st') \<Longrightarrow> creations st' = creations st"
    and delete_creations: "creations (snd (DeleteJob ns n w st)) = creations st"
begin

lemma create_at_most_one:
  "CreateJob ns t w s st = Some (r, st') \<Longrightarrow>
     creations st \<le> creations st' \<and> creations st' \<le> Suc (creations st)"
  by (cases r) (auto dest: create_ok create_error)

end

interpretation control: job_control "Control_CreateJob kc enc conv" Control_DeleteJob
  "\<lambda>st. length (created st)" for kc enc conv
  by unfold_locales
     (auto simp: Control_CreateJob_def Control_DeleteJob_def Let_def split: prod.splits option.splits sum.splits)

interpretation fake: job_control FakeControl_CreateJob FakeControl_DeleteJob
  "\<lambda>f. length (CreatedJobTemplates f)"
  by unfold_locales (auto simp: FakeControl_CreateJob_def FakeControl_DeleteJob_def)

section \<open>Facts about label sets\<close>

lemma getWorkflowJobLabelSet_eq:
  "getWorkflowJobLabelSet w t s =
     fmupd WorkflowStepLabelKey s (wf_labels w ++\<^sub>f entries (Labels (tmplMeta t)))"
  by (simp add: getWorkflowJobLabelSet_def Let_def)

lemma label_set_step: "fmlookup (getWorkflowJobLabelSet w t s) WorkflowStepLabelKey = Some s"
  by (simp add: getWorkflowJobLabelSet_eq)

lemma label_set_template:
  "k \<noteq> WorkflowStepLabelKey \<Longrightarrow> fmlookup (entries (Labels (tmplMeta t))) k = Some v \<Longrightarrow>
     fmlookup (getWorkflowJobLabelSet w t s) k = Some v"
  by (auto simp: getWorkflowJobLabelSet_eq fmlookup_dom_iff)

lemma CreateWorkflowJobLabelSelector_matches:
  "valid_labels (getWorkflowJobLabelSet w t s) \<Longrightarrow>
     Selector_Matches (CreateWorkflowJobLabelSelector w t s) l \<longleftrightarrow> getWorkflowJobLabelSet w t s \<subseteq>\<^sub>f l"
  by (simp add: CreateWorkflowJobLabelSelector_def Let_def SelectorFromSet_subset)

lemma CreateWorkflowJobLabelSelector_invalid:
  "\<not> valid_labels (getWorkflowJobLabelSet w t s) \<Longrightarrow>
     Selector_Matches (CreateWorkflowJobLabelSelector w t s) l"
  by (simp add: CreateWorkflowJobLabelSelector_def Let_def SelectorFromSet_everything)

lemma IsJobFinished_iff:
  "IsJobFinished j \<longleftrightarrow>
     (\<exists>c \<in> set (jobConditions j). (jcType c = JobComplete \<or> jcType c = JobFailed) \<and> jcStatus c = ConditionTrue)"
proof -
  have "job_finished_conditions cs \<longleftrightarrow>
     (\<exists>c \<in> set cs. (jcType c = JobComplete \<or> jcType c = JobFailed) \<and> jcStatus c = ConditionTrue)" for cs
    by (induction cs) auto
  then show ?thesis by (simp add: IsJobFinished_def)
qed

text \<open>The one job a successful \<^verbatim>\<open>CreateJob\<close> sends, and what it carries.\<close>

lemma Control_CreateJob_created:
  assumes "Control_CreateJob kc enc conv ns t w s st = Some (None, st')"
  shows "\<exists>job. created st' = created st @ [(ns, job)]
               \<and> Labels (jobMeta job) = Some (getWorkflowJobLabelSet w t s)
               \<and> conv (tmplSpec t) = Inr (jobSpec job) \<and> jobConditions job = []
               \<and> getJobsPrefix (Name (wfMeta w)) = Some (GenerateName (jobMeta job))"
  using assms
  by (auto simp: Control_CreateJob_def Let_def split: prod.splits option.splits sum.splits)

section \<open>The name prefix\<close>

lemma split_on_butlast:
  "s \<noteq> [] \<Longrightarrow> last s \<noteq> c \<Longrightarrow> a \<noteq> c \<Longrightarrow>
     split_on c (butlast s @ [a]) =
       butlast (split_on c s) @ [butlast (last (split_on c s)) @ [a]]"
proof (induction s)
  case (Cons x xs)
  show ?case
  proof (cases xs)
    case Nil
    with Cons.prems show ?thesis by auto
  next
    case (Cons y ys)
    obtain u us where us: "split_on c xs = u # us" by (cases "split_on c xs") auto
    have IH: "split_on c (butlast xs @ [a]) = butlast (u # us) @ [butlast (last (u # us)) @ [a]]"
      using Cons.IH Cons.prems \<open>xs = y # ys\<close> us by auto
    have "us = [] \<Longrightarrow> u \<noteq> []"
    proof
      assume "us = []" "u = []"
      with us \<open>xs = y # ys\<close> show False by (auto split: if_splits list.splits)
    qed
    with IH us \<open>xs = y # ys\<close> show ?thesis by (cases us) auto
  qed
qed simp

lemma split_on_last_nonempty: "s \<noteq> [] \<Longrightarrow> last s \<noteq> c \<Longrightarrow> last (split_on c s) \<noteq> [] \<and> last (last (split_on c s)) = last s"
proof (induction s)
  case (Cons x xs)
  show ?case
  proof (cases xs)
    case Nil
    with Cons.prems show ?thesis by auto
  next
    case (Cons y ys)
    obtain u us where us: "split_on c xs = u # us" by (cases "split_on c xs") auto
    with Cons.IH Cons.prems \<open>xs = y # ys\<close> show ?thesis by (cases us) auto
  qed
qed simp

lemma dns_label_replace_last:
  assumes "dns1123LabelRegexp l" and "is_lower_alnum a"
  shows "dns1123LabelRegexp (butlast l @ [a])"
proof -
  have "hd (butlast l @ [a]) = (if length l \<le> 1 then a else hd l)"
    by (cases l) auto
  with assms show ?thesis
    by (auto simp: dns1123LabelRegexp_def list_all_iff dest: in_set_butlastD)
qed

lemma a_is_alnum: "is_lower_alnum (CHR ''a'')"
  by code_simp

lemma dns_subdomain_last:
  assumes "dns1123SubdomainRegexp s"
  shows "s \<noteq> [] \<and> last s \<noteq> CHR ''.'' \<and> last s \<noteq> CHR ''-''"
proof -
  have dots: "\<not> is_lower_alnum (CHR ''.'')" "\<not> is_lower_alnum (CHR ''-'')" by code_simp+
  have nonempty: "s \<noteq> []"
    using assms by (auto simp: dns1123SubdomainRegexp_def dns1123LabelRegexp_def)
  have all: "\<forall>l \<in> set (split_on (CHR ''.'') s). dns1123LabelRegexp l"
    using assms by (simp add: dns1123SubdomainRegexp_def list_all_iff)
  then have last_label: "dns1123LabelRegexp (last (split_on (CHR ''.'') s))" by simp
  have "last s \<noteq> CHR ''.''"
  proof
    assume "last s = CHR ''.''"
    with nonempty have "s = butlast s @ [CHR ''.'']" by (metis append_butlast_last_id)
    then have "last (split_on (CHR ''.'') s) = []"
      by (metis last_split_on_sep)
    with last_label show False by (simp add: dns1123LabelRegexp_def)
  qed
  with split_on_last_nonempty [OF nonempty this] last_label dots nonempty show ?thesis
    by (auto simp: dns1123LabelRegexp_def)
qed

lemma dns_subdomain_replace_last:
  assumes "dns1123SubdomainRegexp s"
  shows "dns1123SubdomainRegexp (butlast s @ ''a'')"
proof -
  have all: "\<forall>l \<in> set (split_on (CHR ''.'') s). dns1123LabelRegexp l"
    using assms by (simp add: dns1123SubdomainRegexp_def list_all_iff)
  then have "dns1123LabelRegexp (butlast (last (split_on (CHR ''.'') s)) @ ''a'')"
    by (intro dns_label_replace_last a_is_alnum) simp
  with all dns_subdomain_last [OF assms] show ?thesis
    by (auto simp: dns1123SubdomainRegexp_def split_on_butlast list_all_iff dest: in_set_butlastD)
qed

text \<open>
  For a workflow whose name is a valid DNS subdomain the jobs' name prefix is that name and a
  dash: neither the panic nor the fallback without the dash occurs.
\<close>

theorem getJobsPrefix_valid_name:
  assumes "IsDNS1123Subdomain name = []"
  shows "getJobsPrefix name = Some (name @ ''-'')"
proof -
  have sub: "dns1123SubdomainRegexp name" and len: "length name \<le> 253"
    using assms by (auto simp: IsDNS1123Subdomain_def split: if_splits)
  then have "name \<noteq> []" by (simp add: dns_subdomain_last)
  then have "take (length (name @ ''-'') - 2) (name @ ''-'') @ ''a'' = butlast name @ ''a''"
    and "\<not> length (name @ ''-'') < 2"
    by (auto simp: butlast_conv_take Suc_le_eq)
  moreover have "IsDNS1123Subdomain (butlast name @ ''a'') = []"
    using dns_subdomain_replace_last [OF sub] len by (simp add: IsDNS1123Subdomain_def)
  ultimately show ?thesis
    by (simp add: getJobsPrefix_def NameIsDNSSubdomain_def maskTrailingDash_def Let_def)
qed


section \<open>Finding the jobs that were created\<close>

text \<open>
  C29. A job that \<^verbatim>\<open>CreateJob\<close> had the server make is selected by the selector of its own step,
  and by no selector of another step of the workflow, as long as the label sets are valid.
\<close>

theorem created_job_selected:
  assumes "Control_CreateJob kc enc conv ns t w s st = Some (None, st')"
    and "valid_labels (getWorkflowJobLabelSet w t s)"
    and "valid_labels (getWorkflowJobLabelSet w t' s')" and "s' \<noteq> s"
  shows "\<exists>job. created st' = created st @ [(ns, job)]
           \<and> Selector_Matches (CreateWorkflowJobLabelSelector w t s) (entries (Labels (jobMeta job)))
           \<and> \<not> Selector_Matches (CreateWorkflowJobLabelSelector w t' s') (entries (Labels (jobMeta job)))"
proof -
  from Control_CreateJob_created [OF assms(1)] obtain job where
    job: "created st' = created st @ [(ns, job)]"
    "Labels (jobMeta job) = Some (getWorkflowJobLabelSet w t s)" by blast
  moreover have "\<not> getWorkflowJobLabelSet w t' s' \<subseteq>\<^sub>f getWorkflowJobLabelSet w t s"
    using label_set_step assms(4) by (fastforce simp: fmsubset_iff)
  ultimately show ?thesis
    using assms(2,3) by (auto simp: CreateWorkflowJobLabelSelector_matches fmsubset_iff)
qed

text \<open>
  C30. A label given to the workflow after the job was created (the pause label, say) makes the
  step's selector lose the job, unless the job's template sets the same label.
\<close>

theorem label_change_loses_job:
  assumes "valid_labels (getWorkflowJobLabelSet (set_meta_labels (Some (fmupd k v (wf_labels w))) w) t s)"
    and "k \<noteq> WorkflowStepLabelKey" and "fmlookup (entries (Labels (tmplMeta t))) k = None"
    and "fmlookup (wf_labels w) k \<noteq> Some v"
  shows "\<not> Selector_Matches
            (CreateWorkflowJobLabelSelector (set_meta_labels (Some (fmupd k v (wf_labels w))) w) t s)
            (getWorkflowJobLabelSet w t s)"
proof -
  let ?w = "set_meta_labels (Some (fmupd k v (wf_labels w))) w"
  have "fmlookup (getWorkflowJobLabelSet ?w t s) k = Some v"
    and "fmlookup (getWorkflowJobLabelSet w t s) k \<noteq> Some v"
    using assms(2-4) by (auto simp: getWorkflowJobLabelSet_eq dest: fmdomI split: if_splits)
  then have "\<not> getWorkflowJobLabelSet ?w t s \<subseteq>\<^sub>f getWorkflowJobLabelSet w t s"
    by (auto simp: fmsubset_iff)
  with assms(1) show ?thesis by (simp add: CreateWorkflowJobLabelSelector_matches)
qed

section \<open>Examples\<close>

definition uid_labels :: "string gomap" where
  "uid_labels = fmap_of_list [(WorkflowUIDLabel, ''123'')]"

definition empty_spec :: WorkflowSpec where
  "empty_spec = \<lparr>ActiveDeadlineSeconds = None, Steps = None, JobsSelector = None\<rparr>"

definition sample_wf :: Workflow where
  "sample_wf = sample_workflow (Some uid_labels) empty_spec (Some fmempty)"

definition accept_job :: "string \<Rightarrow> Job \<Rightarrow> go_error + Job" where
  "accept_job ns j = Inr (j\<lparr>jobMeta := (jobMeta j)\<lparr>Name := GenerateName (jobMeta j) @ ''x1'', Namespace := ns\<rparr>\<rparr>)"

definition encode_name :: "ObjectReference \<Rightarrow> go_error + string" where
  "encode_name r = Inr (refName r)"

definition sample_control :: Control where
  "sample_control = \<lparr>created = [], events = []\<rparr>"

lemma getJobsPrefix_valid_name_witness:
  "IsDNS1123Subdomain ''my-wf.x'' = [] \<and> getJobsPrefix ''my-wf.x'' = Some ''my-wf.x-''"
proof -
  have v: "IsDNS1123Subdomain ''my-wf.x'' = []" by code_simp
  with getJobsPrefix_valid_name [OF v] show ?thesis by simp
qed

lemma created_job_selected_witness:
  "\<exists>st' job. Control_CreateJob accept_job encode_name Inr ''default'' sample_template sample_wf ''one''
        sample_control = Some (None, st') \<and> created st' = [(''default'', job)]
   \<and> Selector_Matches (CreateWorkflowJobLabelSelector sample_wf sample_template ''one'')
       (entries (Labels (jobMeta job)))"
proof -
  obtain st' where c: "Control_CreateJob accept_job encode_name Inr ''default'' sample_template sample_wf ''one''
        sample_control = Some (None, st')"
    by (simp add: Control_CreateJob_def Let_def getJobsAnnotationSet_def GetReference_def encode_name_def
        accept_job_def sample_wf_def sample_workflow_def sample_meta_def GetObjectKind_def Kind_def
        path_Join_def path_Clean_def Group_def getJobsPrefix_def NameIsDNSSubdomain_def maskTrailingDash_def)
  have v: "valid_labels (getWorkflowJobLabelSet sample_wf sample_template ''one'')"
    "valid_labels (getWorkflowJobLabelSet sample_wf sample_template ''two'')" by code_simp+
  have "''two'' \<noteq> ''one''" by simp
  from created_job_selected [OF c v this] c show ?thesis by (auto simp: sample_control_def)
qed

lemma label_change_loses_job_witness:
  "\<not> Selector_Matches
      (CreateWorkflowJobLabelSelector
        (set_meta_labels (Some (fmupd ''nerdalize.com/pause'' ''false'' (wf_labels sample_wf))) sample_wf)
        sample_template ''one'')
      (getWorkflowJobLabelSet sample_wf sample_template ''one'')"
proof -
  have "valid_labels (getWorkflowJobLabelSet
      (set_meta_labels (Some (fmupd ''nerdalize.com/pause'' ''false'' (wf_labels sample_wf))) sample_wf)
      sample_template ''one'')" by code_simp
  moreover have "''nerdalize.com/pause'' \<noteq> WorkflowStepLabelKey" by code_simp
  moreover have "fmlookup (entries (Labels (tmplMeta sample_template))) ''nerdalize.com/pause'' = None"
    by code_simp
  moreover have "fmlookup (wf_labels sample_wf) ''nerdalize.com/pause'' \<noteq> Some ''false''" by code_simp
  ultimately show ?thesis by (rule label_change_loses_job)
qed

end
