(* ===== verification/Expectations.thy ===== *)
theory Expectations
  imports Prelude
begin

text \<open>
  \<^verbatim>\<open>pkg/workflow/utils.go\<close>: the cache of job creations the informer has not shown yet.  Every
  method runs under the store's lock, so each is one atomic function on the store.  The locale
  \<open>expectation_cache\<close> is the interface the transitioner and the manager rely on: its laws say
  which operations change the answer of \<^verbatim>\<open>ExpectationsForStepSatisfied\<close> for which step.
\<close>

section \<open>The store and its methods\<close>

type_synonym StepExpectations = "int gomap"

type_synonym WorkflowStepExpectations = "StepExpectations gomap"

definition NewWorkflowStepExpectations :: WorkflowStepExpectations where
  "NewWorkflowStepExpectations = fmempty"

text \<open>Five minutes, in nanoseconds, and \<^verbatim>\<open>Since\<close>, which saturates at the ends of an int64.\<close>

definition ExpectationsTimeout :: int where
  "ExpectationsTimeout = 5 * 60 * 1000000000"

definition Since :: "int \<Rightarrow> int \<Rightarrow> int" where
  "Since now t = max (- (2 ^ 63)) (min (2 ^ 63 - 1) (now - t))"

definition isExpired :: "int \<Rightarrow> int \<Rightarrow> bool" where
  "isExpired now timestamp \<longleftrightarrow> Since now timestamp > ExpectationsTimeout"

definition ExpectCreation ::
  "int \<Rightarrow> WorkflowStepExpectations \<Rightarrow> string \<Rightarrow> string \<Rightarrow> WorkflowStepExpectations" where
  "ExpectCreation now store wfKey step =
     (let store1 = (if fmlookup store wfKey = None then fmupd wfKey fmempty store else store)
      in case fmlookup store1 wfKey of
           None \<Rightarrow> store1
         | Some steps \<Rightarrow> fmupd wfKey (fmupd step now steps) store1)"

definition ExpectationsForStepSatisfied ::
  "int \<Rightarrow> WorkflowStepExpectations \<Rightarrow> string \<Rightarrow> string \<Rightarrow> bool" where
  "ExpectationsForStepSatisfied now store wfKey step =
     (case fmlookup store wfKey of
        None \<Rightarrow> True
      | Some steps \<Rightarrow>
          (case fmlookup steps step of
             Some stepTimestamp \<Rightarrow> if isExpired now stepTimestamp then True else False
           | None \<Rightarrow> True))"

definition CreationObserved ::
  "WorkflowStepExpectations \<Rightarrow> string \<Rightarrow> string \<Rightarrow> go_error option \<times> WorkflowStepExpectations" where
  "CreationObserved store wfKey step =
     (case fmlookup store wfKey of
        None \<Rightarrow> (Some (Errorf ''No deletion expectations found for %v''), store)
      | Some steps \<Rightarrow> (None, fmupd wfKey (fmdrop step steps) store))"

definition DeleteExpectations :: "WorkflowStepExpectations \<Rightarrow> string \<Rightarrow> WorkflowStepExpectations" where
  "DeleteExpectations store wfKey = fmdrop wfKey store"

lemma isExpired_iff: "isExpired now t \<longleftrightarrow> now - t > ExpectationsTimeout"
  by (auto simp: isExpired_def Since_def ExpectationsTimeout_def)

section \<open>Histories of calls\<close>

text \<open>The calls the program makes on the cache, each with its clock reading.\<close>

datatype exp_op = Expect int string string | Observe string string | Forget string

fun apply_call ::
  "(int \<Rightarrow> 'c \<Rightarrow> string \<Rightarrow> string \<Rightarrow> 'c) \<Rightarrow> ('c \<Rightarrow> string \<Rightarrow> string \<Rightarrow> 'c) \<Rightarrow>
   ('c \<Rightarrow> string \<Rightarrow> 'c) \<Rightarrow> 'c \<Rightarrow> exp_op \<Rightarrow> 'c" where
  "apply_call expect observed forget c (Expect t k s) = expect t c k s"
| "apply_call expect observed forget c (Observe k s) = observed c k s"
| "apply_call expect observed forget c (Forget k) = forget c k"

text \<open>The specification: what the newest relevant call (the head) left outstanding.\<close>

fun pending_since :: "exp_op list \<Rightarrow> string \<Rightarrow> string \<Rightarrow> int option" where
  "pending_since [] k s = None"
| "pending_since (Expect t k' s' # ops) k s =
     (if k' = k \<and> s' = s then Some t else pending_since ops k s)"
| "pending_since (Observe k' s' # ops) k s =
     (if k' = k \<and> s' = s then None else pending_since ops k s)"
| "pending_since (Forget k' # ops) k s = (if k' = k then None else pending_since ops k s)"

section \<open>The interface\<close>

locale expectation_cache =
  fixes satisfied :: "int \<Rightarrow> 'c \<Rightarrow> string \<Rightarrow> string \<Rightarrow> bool"
    and expect :: "int \<Rightarrow> 'c \<Rightarrow> string \<Rightarrow> string \<Rightarrow> 'c"
    and observed :: "'c \<Rightarrow> string \<Rightarrow> string \<Rightarrow> 'c"
    and forget :: "'c \<Rightarrow> string \<Rightarrow> 'c"
    and expired :: "int \<Rightarrow> int \<Rightarrow> bool"
  assumes satisfied_expect:
      "satisfied now (expect t c k s) k' s' \<longleftrightarrow>
         (if k' = k \<and> s' = s then expired now t else satisfied now c k' s')"
    and satisfied_observed:
      "satisfied now (observed c k s) k' s' \<longleftrightarrow> (k' = k \<and> s' = s \<or> satisfied now c k' s')"
    and satisfied_forget:
      "satisfied now (forget c k) k' s' \<longleftrightarrow> (k' = k \<or> satisfied now c k' s')"
begin

text \<open>The cache after a whole history of calls.\<close>

lemma history_satisfied:
  assumes fresh: "\<And>k s. satisfied now c k s"
  shows "satisfied now (foldl (apply_call expect observed forget) c ops) k s \<longleftrightarrow>
           (case pending_since (rev ops) k s of None \<Rightarrow> True | Some t \<Rightarrow> expired now t)"
proof (induction ops rule: rev_induct)
  case Nil
  then show ?case by (simp add: fresh)
next
  case (snoc x xs)
  then show ?case
    by (cases x) (auto simp: satisfied_expect satisfied_observed satisfied_forget)
qed

text \<open>An expectation blocks its own step until it is observed, forgotten or expired.\<close>

lemma blocked_until_observed:
  "\<not> expired now t \<Longrightarrow> \<not> satisfied now (expect t c k s) k s"
  by (simp add: satisfied_expect)

lemma observed_unblocks: "satisfied now (observed c k s) k s"
  by (simp add: satisfied_observed)

lemma forget_unblocks: "satisfied now (forget c k) k s"
  by (simp add: satisfied_forget)

lemma expect_other_step:
  "(k', s') \<noteq> (k, s) \<Longrightarrow> satisfied now (expect t c k s) k' s' \<longleftrightarrow> satisfied now c k' s'"
  by (auto simp: satisfied_expect)

end

section \<open>The store implements the interface\<close>

lemma ExpectCreation_lookup:
  "fmlookup (ExpectCreation now store k s) k' =
     (if k' = k then Some (fmupd s now (case fmlookup store k of None \<Rightarrow> fmempty | Some m \<Rightarrow> m))
      else fmlookup store k')"
  by (auto simp: ExpectCreation_def Let_def split: option.splits)

interpretation exps: expectation_cache ExpectationsForStepSatisfied ExpectCreation
  "\<lambda>c k s. snd (CreationObserved c k s)" DeleteExpectations isExpired
proof (unfold_locales, goal_cases)
  case 1
  then show ?case
    by (auto simp: ExpectationsForStepSatisfied_def ExpectCreation_lookup split: option.splits)
next
  case 2
  then show ?case
    by (auto simp: ExpectationsForStepSatisfied_def CreationObserved_def split: option.splits)
next
  case 3
  then show ?case
    by (auto simp: ExpectationsForStepSatisfied_def DeleteExpectations_def)
qed

lemma New_satisfied [simp]: "ExpectationsForStepSatisfied now NewWorkflowStepExpectations k s"
  by (simp add: ExpectationsForStepSatisfied_def NewWorkflowStepExpectations_def)

lemma CreationObserved_error:
  "fst (CreationObserved store k s) = None \<longleftrightarrow> fmlookup store k \<noteq> None"
  "fst (CreationObserved store k s) \<noteq> None \<Longrightarrow> snd (CreationObserved store k s) = store"
  by (auto simp: CreationObserved_def split: option.splits)

section \<open>Correctness over whole histories\<close>

definition exp_run :: "exp_op list \<Rightarrow> WorkflowStepExpectations" where
  "exp_run ops =
     foldl (apply_call ExpectCreation (\<lambda>c k s. snd (CreationObserved c k s)) DeleteExpectations)
       NewWorkflowStepExpectations ops"

text \<open>
  C26. After any sequence of calls on a fresh cache, \<^verbatim>\<open>ExpectationsForStepSatisfied\<close> says no exactly
  when the last call that concerns the step was an \<^verbatim>\<open>ExpectCreation\<close> at most the timeout ago.
\<close>

theorem expectations_trace:
  "ExpectationsForStepSatisfied now (exp_run ops) k s \<longleftrightarrow>
     (case pending_since (rev ops) k s of None \<Rightarrow> True | Some t \<Rightarrow> now - t > ExpectationsTimeout)"
  unfolding exp_run_def
  by (subst exps.history_satisfied) (simp_all add: isExpired_iff cong: option.case_cong)

end
