(* ===== verification/Transitioner.thy ===== *)
theory Transitioner
  imports Validation Listers JobControl Expectations
begin

text \<open>
  \<^verbatim>\<open>pkg/workflow/transitioner.go\<close>: one pass over a workflow.  The record \<open>tenv\<close> is what a pass sees
  of the rest of the world: the job control's \<^verbatim>\<open>CreateJob\<close> (any \<^verbatim>\<open>ControlInterface\<close>), \<^verbatim>\<open>GetReference\<close>
  for jobs and the metadata validation (Kubernetes code, parameters), the clock, the orders of the
  loops over maps, and for every step the job cache and the clock at the moment the step is looked
  at, since the informer and time go on while the pass runs.  The record \<open>tstate\<close> is what a pass
  changes besides the workflow: the state of the job control and the expectations.  None is a
  panic.
\<close>

section \<open>Constants\<close>

definition workflowValidLabel :: string where "workflowValidLabel = Group @ ''/valid''"
definition workflowPauseLabel :: string where "workflowPauseLabel = Group @ ''/pause''"
definition requeueAfterStatusConflictTime :: int where "requeueAfterStatusConflictTime = 500 * 1000000"
definition requeueJobstoreNotSyncedTime :: int where "requeueJobstoreNotSyncedTime = 100 * 1000000"
definition retryOnStatusConflict :: nat where "retryOnStatusConflict = 3"
definition falseString :: string where "falseString = ''false''"
definition trueString :: string where "trueString = ''true''"

definition FormatBool :: "bool \<Rightarrow> string" where
  "FormatBool b = (if b then ''true'' else ''false'')"

section \<open>The world a pass sees and the state it changes\<close>

record obs =
  obClock :: int
  obStore :: "Job store"
  obOrder :: "string list"

record 'c tstate =
  ctl :: 'c
  exps :: WorkflowStepExpectations

record 'c tenv =
  teCreateJob :: "string \<Rightarrow> JobTemplateSpec \<Rightarrow> Workflow \<Rightarrow> string \<Rightarrow> 'c \<Rightarrow> (go_error option \<times> 'c) option"
  teGetReference :: "Job \<Rightarrow> go_error + ObjectReference"
  teValidateMeta :: "ObjectMeta \<Rightarrow> field_error list"
  teNow :: int
  teObs :: "string \<Rightarrow> obs"
  teLabelOrder :: "string list"
  teStepOrder :: "string list"
  teRange :: "string list"

section \<open>Steps\<close>

definition createJobForStep ::
  "'c tenv \<Rightarrow> Workflow \<Rightarrow> string \<Rightarrow> WorkflowStep \<Rightarrow> 'c tstate \<Rightarrow> 'c tstate option" where
  "createJobForStep env w stepName step st =
     (let key = MetaNamespaceKeyFunc (wfMeta w); now = obClock (teObs env stepName)
      in if \<not> ExpectationsForStepSatisfied now (exps st) key stepName then Some st
         else
           (case JobTemplate step of
              None \<Rightarrow> None
            | Some template \<Rightarrow>
                (case teCreateJob env (Namespace (wfMeta w)) template w stepName (ctl st) of
                   None \<Rightarrow> None
                 | Some (Some err, c) \<Rightarrow> Some (st\<lparr>ctl := c\<rparr>)
                 | Some (None, c) \<Rightarrow>
                     Some (st\<lparr>ctl := c, exps := ExpectCreation now (exps st) key stepName\<rparr>))))"

definition updateStepStatus ::
  "'c tenv \<Rightarrow> Workflow \<Rightarrow> string \<Rightarrow> Job \<Rightarrow> (bool \<times> Workflow) option" where
  "updateStepStatus env w stepName curJob =
     (case teGetReference env curJob of
        Inl _ \<Rightarrow> Some (False, w)
      | Inr reference \<Rightarrow>
          (let oldStatus = map_get (Statuses (Status w)) stepName;
               jobFinished = IsJobFinished curJob
           in if (case oldStatus of None \<Rightarrow> False | Some old \<Rightarrow> jobFinished = Complete old) then Some (False, w)
              else
                (case map_put (Statuses (Status w)) stepName
                        \<lparr>Complete = jobFinished, Reference = reference\<rparr> of
                   None \<Rightarrow> None
                 | Some statuses \<Rightarrow> Some (True, set_statuses statuses w))))"

definition processJobStep ::
  "'c tenv \<Rightarrow> Workflow \<Rightarrow> string \<Rightarrow> WorkflowStep \<Rightarrow> 'c tstate \<Rightarrow> (bool \<times> Workflow \<times> 'c tstate) option" where
  "processJobStep env w stepName step st =
     (if \<not> DependenciesResolved step w then Some (False, w, st)
      else
        (case (case fmlookup (wf_steps w) stepName of None \<Rightarrow> None | Some s \<Rightarrow> JobTemplate s) of
           None \<Rightarrow> None
         | Some template \<Rightarrow>
             (let jobSelector = CreateWorkflowJobLabelSelector w template stepName;
                  ob = teObs env stepName;
                  jobList = storeJobs_List (JobLister_Jobs (obStore ob) (Namespace (wfMeta w)))
                              (obOrder ob) jobSelector
              in (case jobList of
                    [] \<Rightarrow> map_option (\<lambda>st'. (False, w, st')) (createJobForStep env w stepName step st)
                  | [curJob] \<Rightarrow> map_option (\<lambda>(b, w'). (b, w', st)) (updateStepStatus env w stepName curJob)
                  | _ \<Rightarrow> Some (False, w, st)))))"

definition processExternalReferenceStep ::
  "'c tenv \<Rightarrow> Workflow \<Rightarrow> string \<Rightarrow> WorkflowStep \<Rightarrow> 'c tstate \<Rightarrow> (bool \<times> Workflow \<times> 'c tstate) option" where
  "processExternalReferenceStep env w stepName step st = Some (False, w, st)"

text \<open>The body of the loop for one step that is not complete: the switch on its kind.\<close>

definition process_step ::
  "'c tenv \<Rightarrow> Workflow \<Rightarrow> string \<Rightarrow> WorkflowStep \<Rightarrow> 'c tstate \<Rightarrow> (bool \<times> Workflow \<times> 'c tstate) option" where
  "process_step env w stepName step st =
     (if JobTemplate step \<noteq> None then processJobStep env w stepName step st
      else if ExternalRef step \<noteq> None then processExternalReferenceStep env w stepName step st
      else Some (False, w, st))"

fun steps_loop ::
  "'c tenv \<Rightarrow> WorkflowStep gomap \<Rightarrow> string list \<Rightarrow> bool \<times> bool \<times> Workflow \<times> 'c tstate \<Rightarrow>
   (bool \<times> bool \<times> Workflow \<times> 'c tstate) option" where
  "steps_loop env steps [] acc = Some acc"
| "steps_loop env steps (stepName # rest) (needsStatusUpdate, workflowComplete, w, st) =
     (case fmlookup steps stepName of
        None \<Rightarrow> steps_loop env steps rest (needsStatusUpdate, workflowComplete, w, st)
      | Some step \<Rightarrow>
          if (case map_get (Statuses (Status w)) stepName of None \<Rightarrow> False | Some s \<Rightarrow> Complete s)
          then steps_loop env steps rest (needsStatusUpdate, workflowComplete, w, st)
          else
            (case process_step env w stepName step st of
               None \<Rightarrow> None
             | Some (b, w', st') \<Rightarrow> steps_loop env steps rest (b \<or> needsStatusUpdate, False, w', st')))"

definition processSteps :: "'c tenv \<Rightarrow> Workflow \<Rightarrow> 'c tstate \<Rightarrow> (bool \<times> Workflow \<times> 'c tstate) option" where
  "processSteps env w st =
     (case steps_loop env (wf_steps w) (teRange env) (False, True, w, st) of
        None \<Rightarrow> None
      | Some (needsStatusUpdate, workflowComplete, w', st') \<Rightarrow>
          if workflowComplete then Some (True, AddCompleteCondition (teNow env) w', st')
          else Some (needsStatusUpdate, w', st'))"

section \<open>Workflows\<close>

definition pastActiveDeadline :: "Workflow \<Rightarrow> bool" where
  "pastActiveDeadline w = False"

definition isWorkflowValid :: "'c tenv \<Rightarrow> Workflow \<Rightarrow> bool" where
  "isWorkflowValid env w =
     (if length (ValidateWorkflow (teValidateMeta env) (teLabelOrder env) (teStepOrder env) w) > 0
      then False else True)"

definition process :: "'c tenv \<Rightarrow> Workflow \<Rightarrow> 'c tstate \<Rightarrow> (bool \<times> Workflow \<times> 'c tstate) option" where
  "process env w st =
     (if map_get (Labels (wfMeta w)) WorkflowUIDLabel = None then
        map_option (\<lambda>w'. (True, w', st)) (SetDefaults (teNow env) w)
      else
        (let wasValid = map_get (Labels (wfMeta w)) workflowValidLabel
         in if wasValid = None \<or> wasValid = Some falseString then
              (let isValid = isWorkflowValid env w
               in case map_put (Labels (wfMeta w)) workflowValidLabel (FormatBool isValid) of
                    None \<Rightarrow> None
                  | Some labels \<Rightarrow>
                      (let w1 = set_meta_labels labels w
                       in if \<not> isValid then Some (wasValid = None, w1, st)
                          else map_option (\<lambda>(b, w', st'). (True, w', st')) (processSteps env w1 st)))
            else processSteps env w st))"

definition preconditionsMet :: "bool \<Rightarrow> Workflow \<Rightarrow> bool" where
  "preconditionsMet jobStoreSynced w =
     (if \<not> jobStoreSynced then False
      else if IsFinished w then False
      else if map_get (Labels (wfMeta w)) workflowPauseLabel = Some trueString then False
      else True)"

section \<open>Updating the server\<close>

text \<open>
  The retry loop of \<^verbatim>\<open>updateWorkflowStatus\<close>.  \<open>upd\<close> and \<open>get\<close> are the Update and Get methods of the
  workflow client, \<open>'n\<close> is the state of the network behind them; the result is the error, the
  workflow (whose resource version the loop writes) and that state.
\<close>

function update_loop ::
  "(Workflow \<Rightarrow> 'n \<Rightarrow> (go_error + Workflow) \<times> 'n) \<Rightarrow> (string \<Rightarrow> string \<Rightarrow> 'n \<Rightarrow> (go_error + Workflow) \<times> 'n) \<Rightarrow>
   nat \<Rightarrow> string \<Rightarrow> Workflow \<Rightarrow> 'n \<Rightarrow> go_error option \<times> Workflow \<times> 'n" where
  "update_loop upd get i rv w n =
     (let w1 = w\<lparr>wfMeta := (wfMeta w)\<lparr>ResourceVersion := rv\<rparr>\<rparr>;
          (res, n1) = upd w1 n
      in case res of
           Inr _ \<Rightarrow> (None, w1, n1)
         | Inl updateErr \<Rightarrow>
             if i \<ge> retryOnStatusConflict then
               (Some (Errorf ''tried to update status of wf %v, but amount of retries exceeded''), w1, n1)
             else if \<not> is_StatusError updateErr then
               (Some (Errorf ''tried to update status of wf %v, but got error''), w1, n1)
             else
               (let (got, n2) = get (Namespace (wfMeta w1)) (Name (wfMeta w1)) n1
                in case got of
                     Inl getErr \<Rightarrow> (Some (Errorf ''tried to update status of wf %v, but got error''), w1, n2)
                   | Inr getWorkflow \<Rightarrow>
                       update_loop upd get (Suc i) (ResourceVersion (wfMeta getWorkflow)) w1 n2))"
  by pat_completeness auto
termination
  by (relation "measure (\<lambda>(upd, get, i, rv, w, n). Suc retryOnStatusConflict - i)") auto

declare update_loop.simps [simp del]

definition updateWorkflowStatus ::
  "(Workflow \<Rightarrow> 'n \<Rightarrow> (go_error + Workflow) \<times> 'n) \<Rightarrow> (string \<Rightarrow> string \<Rightarrow> 'n \<Rightarrow> (go_error + Workflow) \<times> 'n) \<Rightarrow>
   Workflow \<Rightarrow> 'n \<Rightarrow> go_error option \<times> Workflow \<times> 'n" where
  "updateWorkflowStatus upd get w n = update_loop upd get 0 (ResourceVersion (wfMeta w)) w n"

section \<open>One transition\<close>

text \<open>
  \<^verbatim>\<open>workflowByKey\<close> copies the struct of the cached object, so the pass and the cache share the maps:
  the labels, the statuses and the labels of the selector.  \<open>cached_after w w'\<close> is the cached
  object \<open>w\<close> after a pass has turned its copy into \<open>w'\<close>: a map that was not nil has been written
  in place, except that \<^verbatim>\<open>SetDefaults\<close> gives the copy a statuses map of its own; the fields that
  hold no map (status conditions, times, resource version) are the copy's alone.
\<close>

definition workflowByKey :: "Workflow store \<Rightarrow> string \<Rightarrow> Workflow option" where
  "workflowByKey store key = Store_GetByKey store key"

definition cached_after :: "Workflow \<Rightarrow> Workflow \<Rightarrow> Workflow" where
  "cached_after w w' =
     (let defaulted = (map_get (Labels (wfMeta w)) WorkflowUIDLabel = None);
          labels = (if Labels (wfMeta w) = None then None else Labels (wfMeta w'));
          statuses = (if defaulted \<or> Statuses (Status w) = None then Statuses (Status w)
                      else Statuses (Status w'));
          selector = (if JobsSelector (Spec w) = None then None else JobsSelector (Spec w'))
      in set_statuses statuses (set_selector selector (set_meta_labels labels w)))"

record 'a transition_result =
  requeue :: bool
  requeueAfter :: int
  transErr :: "go_error option"
  transState :: 'a

text \<open>
  \<open>synced1\<close> and \<open>synced2\<close> are the answers of the two calls of \<^verbatim>\<open>jobStoreSynced\<close>, which may differ.
  The state is that of the pass, the network behind the update handler and the workflow cache.
\<close>

definition transitionWorkflow ::
  "'c tenv \<Rightarrow> (Workflow \<Rightarrow> 'n \<Rightarrow> go_error option \<times> Workflow \<times> 'n) \<Rightarrow> bool \<Rightarrow> bool \<Rightarrow> string \<Rightarrow>
   'c tstate \<times> 'n \<times> Workflow store \<Rightarrow> ('c tstate \<times> 'n \<times> Workflow store) transition_result option" where
  "transitionWorkflow env updateHandler synced1 synced2 key s =
     (let (st, n, store) = s
      in case workflowByKey store key of
           None \<Rightarrow>
             Some \<lparr>requeue = False, requeueAfter = 0, transErr = None,
                   transState = (st\<lparr>exps := DeleteExpectations (exps st) key\<rparr>, n, store)\<rparr>
         | Some w \<Rightarrow>
             if \<not> preconditionsMet synced1 w then
               (if \<not> synced2
                then Some \<lparr>requeue = True, requeueAfter = requeueJobstoreNotSyncedTime, transErr = None, transState = s\<rparr>
                else Some \<lparr>requeue = False, requeueAfter = 0, transErr = None, transState = s\<rparr>)
             else
               (case process env w st of
                  None \<Rightarrow> None
                | Some (needsUpdate, w', st') \<Rightarrow>
                    (let store' = fmupd key (cached_after w w') store
                     in if needsUpdate then
                          (let (err, w'', n') = updateHandler w' n
                           in case err of
                                Some e \<Rightarrow> Some \<lparr>requeue = True, requeueAfter = requeueAfterStatusConflictTime,
                                               transErr = Some (Errorf ''failed to update workflow %v''),
                                               transState = (st', n', store')\<rparr>
                              | None \<Rightarrow> Some \<lparr>requeue = False, requeueAfter = 0, transErr = None,
                                             transState = (st', n', store')\<rparr>)
                        else Some \<lparr>requeue = False, requeueAfter = 0, transErr = None,
                                  transState = (st', n, store')\<rparr>)))"

end
