(* ===== verification/Pass.thy ===== *)
theory Pass
  imports Transitioner
begin

text \<open>
  What one pass of the transitioner does: lemmas for one step, lifted to the loop over the steps by
  one induction (\<open>steps_loop_induct\<close>), and the properties of \<^verbatim>\<open>processSteps\<close> and \<^verbatim>\<open>process\<close> that
  follow.  Everything holds for every order in which Go visits the steps and for whatever the
  cache shows while each step is looked at.
\<close>

section \<open>One step\<close>

text \<open>The three things a pass can do with a step that is not complete.\<close>

lemma updateStepStatus_cases:
  assumes "updateStepStatus env w s job = Some (b, w')"
  shows "(\<not> b \<and> w' = w)
       \<or> (b \<and> (\<exists>ref. w' = set_statuses (Some (fmupd s \<lparr>Complete = IsJobFinished job, Reference = ref\<rparr> (wf_statuses w))) w
                \<and> Statuses (Status w) \<noteq> None))"
  using assms
  by (cases "Statuses (Status w)")
     (auto simp: updateStepStatus_def Let_def split: sum.splits if_splits option.splits)

definition step_jobs :: "'c tenv \<Rightarrow> Workflow \<Rightarrow> string \<Rightarrow> JobTemplateSpec \<Rightarrow> Job list" where
  "step_jobs env w s t =
     storeJobs_List (JobLister_Jobs (obStore (teObs env s)) (Namespace (wfMeta w)))
       (obOrder (teObs env s)) (CreateWorkflowJobLabelSelector w t s)"

lemma processJobStep_cases:
  assumes "processJobStep env w s step st = Some (b, w', st')" and "fmlookup (wf_steps w) s = Some step"
  obtains (waiting) "\<not> DependenciesResolved step w" "\<not> b" "w' = w" "st' = st"
    | (create) t where "DependenciesResolved step w" "JobTemplate step = Some t" "step_jobs env w s t = []"
        "\<not> b" "w' = w" "createJobForStep env w s step st = Some st'"
    | (update) t job where "DependenciesResolved step w" "JobTemplate step = Some t" "step_jobs env w s t = [job]"
        "updateStepStatus env w s job = Some (b, w')" "st' = st"
    | (many) t where "DependenciesResolved step w" "JobTemplate step = Some t"
        "2 \<le> length (step_jobs env w s t)" "\<not> b" "w' = w" "st' = st"
proof (cases "DependenciesResolved step w")
  case False
  from assms False have "b = False \<and> w' = w \<and> st' = st" by (auto simp: processJobStep_def)
  with False that(1) show ?thesis by blast
next
  case True
  have "JobTemplate step \<noteq> None"
  proof
    assume "JobTemplate step = None"
    with assms True show False by (simp add: processJobStep_def)
  qed
  then obtain t where t: "JobTemplate step = Some t" by blast
  note pass = assms(1) [unfolded processJobStep_def] and lk = assms(2)
  show ?thesis
  proof (cases "step_jobs env w s t" rule: remdups_adj.cases)
    case 1
    with True t pass lk have "createJobForStep env w s step st = Some st'" "b = False" "w' = w"
      by (auto simp: Let_def step_jobs_def)
    with True t 1 that(2) show ?thesis by blast
  next
    case (2 j)
    with True t pass lk have "updateStepStatus env w s j = Some (b, w')" "st' = st"
      by (auto simp: Let_def step_jobs_def)
    with True t 2 that(3) show ?thesis by blast
  next
    case (3 j k js)
    with True t pass lk have "b = False \<and> w' = w \<and> st' = st" by (auto simp: Let_def step_jobs_def)
    moreover from 3 have "2 \<le> length (step_jobs env w s t)" by simp
    ultimately show ?thesis using True t that(4) by blast
  qed
qed

text \<open>A step only ever writes its own status, and leaves metadata, spec and conditions alone.\<close>

definition status_frame :: "Workflow \<Rightarrow> string \<Rightarrow> Workflow \<Rightarrow> bool" where
  "status_frame w s w' \<longleftrightarrow>
     w' = w \<or> (\<exists>x. Statuses (Status w) \<noteq> None \<and> w' = set_statuses (Some (fmupd s x (wf_statuses w))) w)"

lemma status_frame_refl [simp]: "status_frame w s w"
  by (simp add: status_frame_def)

lemma process_step_frame:
  assumes "process_step env w s step st = Some (b, w', st')" and "fmlookup (wf_steps w) s = Some step"
  shows "status_frame w s w' \<and> (\<not> b \<longrightarrow> w' = w)"
proof (cases "JobTemplate step = None")
  case True
  with assms(1) show ?thesis
    by (auto simp: process_step_def processExternalReferenceStep_def split: if_splits)
next
  case False
  with assms(1) have "processJobStep env w s step st = Some (b, w', st')"
    by (simp add: process_step_def)
  from this assms(2) show ?thesis
  proof (cases rule: processJobStep_cases)
    case (update t job)
    from updateStepStatus_cases [OF update(4)] show ?thesis by (auto simp: status_frame_def)
  qed simp_all
qed

lemma status_frame_simps:
  assumes "status_frame w s w'"
  shows "wfMeta w' = wfMeta w" "Spec w' = Spec w" "Conditions (Status w') = Conditions (Status w)"
    "Statuses (Status w') = None \<longleftrightarrow> Statuses (Status w) = None"
    "s' \<noteq> s \<Longrightarrow> step_phase w' s' = step_phase w s'"
  using assms by (auto simp: status_frame_def step_phase_def map_get_entries)

section \<open>The loop over the steps\<close>

text \<open>
  The steps a pass works on are those not completed when it reaches them.  The induction rule: an
  invariant of the accumulator that skipping a completed step and processing an open one keep,
  holds at the end.
\<close>

lemma steps_loop_induct [consumes 1, case_names init skip process]:
  assumes "steps_loop env steps ks (n, c, w, st) = Some (n', c', w', st')"
    and "P ks n c w st"
    and "\<And>k rest n c w st. P (k # rest) n c w st \<Longrightarrow> fmlookup steps k = None \<or> step_phase w k = Completed
           \<Longrightarrow> P rest n c w st"
    and "\<And>k rest n c w st step b w1 st1. P (k # rest) n c w st \<Longrightarrow> fmlookup steps k = Some step \<Longrightarrow>
           step_phase w k \<noteq> Completed \<Longrightarrow> process_step env w k step st = Some (b, w1, st1) \<Longrightarrow>
           P rest (b \<or> n) False w1 st1"
  shows "P [] n' c' w' st'"
  using assms(1,2)
proof (induction ks arbitrary: n c w st)
  case Nil
  then show ?case by simp
next
  case (Cons k ks)
  have comp: "(case map_get (Statuses (Status w)) k of None \<Rightarrow> False | Some s \<Rightarrow> Complete s)
                \<longleftrightarrow> step_phase w k = Completed"
    by (simp add: step_phase_def status_phase_Completed split: option.splits)
  show ?case
  proof (cases "fmlookup steps k")
    case None
    with Cons.prems Cons.IH assms(3) show ?thesis by simp
  next
    case (Some step)
    show ?thesis
    proof (cases "step_phase w k = Completed")
      case True
      with Some Cons.prems have "steps_loop env steps ks (n, c, w, st) = Some (n', c', w', st')"
        using comp by simp
      with Cons.IH Cons.prems(2) assms(3) True show ?thesis by blast
    next
      case False
      with Some Cons.prems(1) comp obtain b w1 st1 where
        p: "process_step env w k step st = Some (b, w1, st1)"
        and rest: "steps_loop env steps ks (b \<or> n, False, w1, st1) = Some (n', c', w', st')"
        by (auto split: option.splits)
      show ?thesis
        by (rule Cons.IH [OF rest]) (rule assms(4) [OF Cons.prems(2) Some False p])
    qed
  qed
qed

text \<open>What the loop keeps: everything but the statuses, whose phases only rise.\<close>

lemma process_step_phase_mono:
  assumes "process_step env w s step st = Some (b, w', st')" and "fmlookup (wf_steps w) s = Some step"
    and "step_phase w s \<noteq> Completed"
  shows "step_phase w s' \<le> step_phase w' s'"
proof -
  have frame: "status_frame w s w'" using process_step_frame [OF assms(1,2)] by simp
  show ?thesis
  proof (cases "s' = s \<and> w' \<noteq> w")
    case False
    with frame show ?thesis by (auto dest: status_frame_simps(5))
  next
    case True
    with frame have "Running \<le> step_phase w' s"
      by (auto simp: status_frame_def step_phase_def status_phase_def less_eq_phase_def)
    moreover have "step_phase w s \<le> Running"
      using assms(3) by (cases "step_phase w s") simp_all
    ultimately show ?thesis using True by (meson order_trans)
  qed
qed

lemma steps_loop_frame:
  assumes "steps_loop env (wf_steps w) ks (n, c, w, st) = Some (n', c', w', st')"
  shows "wfMeta w' = wfMeta w \<and> Spec w' = Spec w \<and> Conditions (Status w') = Conditions (Status w)
         \<and> (Statuses (Status w') = None \<longleftrightarrow> Statuses (Status w) = None)
         \<and> (\<forall>s. step_phase w s \<le> step_phase w' s)"
  using assms
proof (induction rule: steps_loop_induct [where P = "\<lambda>_ _ _ v _.
      wfMeta v = wfMeta w \<and> Spec v = Spec w \<and> Conditions (Status v) = Conditions (Status w)
      \<and> (Statuses (Status v) = None \<longleftrightarrow> Statuses (Status w) = None)
      \<and> (\<forall>s. step_phase w s \<le> step_phase v s)"])
  case init
  then show ?case by simp
next
  case (skip k rest n c v st)
  then show ?case by simp
next
  case (process k rest n c v st step b v1 st1)
  then have lk: "fmlookup (wf_steps v) k = Some step" by simp
  from process_step_frame [OF process(4) lk] have "status_frame v k v1" by simp
  from status_frame_simps(1-4) [OF this] process(1)
    process_step_phase_mono [OF process(4) lk process(3)]
  show ?case by (metis order_trans)
qed

lemma process_step_jobs_cong:
  "wfMeta v = wfMeta w \<Longrightarrow> step_jobs env v s t = step_jobs env w s t"
  by (simp add: step_jobs_def CreateWorkflowJobLabelSelector_def getWorkflowJobLabelSet_def)

section \<open>When no pass panics\<close>

text \<open>
  The only assignments to a map in a pass that could hit a nil map are those to the statuses; the
  only dereference of nil could come from a job control that panics.
\<close>

definition control_total :: "'c tenv \<Rightarrow> bool" where
  "control_total env \<longleftrightarrow> (\<forall>ns t w s c. teCreateJob env ns t w s c \<noteq> None)"

lemma process_step_total:
  assumes "control_total env" and "Statuses (Status w) \<noteq> None" and "fmlookup (wf_steps w) s = Some step"
  shows "process_step env w s step st \<noteq> None"
proof -
  obtain sts where sts: "Statuses (Status w) = Some sts" using assms(2) by auto
  have upd: "updateStepStatus env w s j \<noteq> None" for j
    by (simp add: updateStepStatus_def Let_def sts split: sum.split option.split) auto
  have cre: "JobTemplate step \<noteq> None \<Longrightarrow> createJobForStep env w s step st \<noteq> None"
    using assms(1) [unfolded control_total_def, rule_format, of "Namespace (wfMeta w)"]
    by (auto simp: createJobForStep_def Let_def split: option.split simp del: not_None_eq)
  show ?thesis
    using upd cre assms(3)
    by (auto simp: process_step_def processExternalReferenceStep_def processJobStep_def Let_def
        split: list.splits)
qed

lemma steps_loop_total:
  assumes "control_total env" and "Statuses (Status w) \<noteq> None" and "steps = wf_steps w"
  shows "steps_loop env steps ks (n, c, w, st) \<noteq> None"
  using assms(2,3)
proof (induction ks arbitrary: n c w st)
  case (Cons k ks)
  show ?case
  proof (cases "fmlookup steps k")
    case None
    with Cons show ?thesis by simp
  next
    case (Some step)
    with Cons.prems have lk: "fmlookup (wf_steps w) k = Some step" by simp
    from process_step_total [OF assms(1) Cons.prems(1) lk] obtain b w1 st1 where
      p: "process_step env w k step st = Some (b, w1, st1)" by fast
    from process_step_frame [OF p lk] have "status_frame w k w1" by simp
    note f = status_frame_simps(2,4) [OF this]
    have "steps_loop env steps ks (b \<or> n, False, w1, st1) \<noteq> None"
      using Cons.IH [of w1] Cons.prems f by simp
    moreover have "steps_loop env steps ks (n, c, w, st) \<noteq> None" using Cons by simp
    ultimately show ?thesis using Some p by (simp split: option.splits)
  qed
qed simp

lemma processSteps_total:
  assumes "control_total env" and "Statuses (Status w) \<noteq> None"
  shows "processSteps env w st \<noteq> None"
  using steps_loop_total [OF assms(1), of w "wf_steps w" "teRange env" False True st] assms(2)
  by (auto simp: processSteps_def)


section \<open>Which jobs a pass creates\<close>

text \<open>
  A job control that notes every call it gets, with its arguments, and answers as it likes.
\<close>

type_synonym call = "string \<times> JobTemplateSpec \<times> string"

definition noted :: "(string \<Rightarrow> go_error option) \<Rightarrow> string \<Rightarrow> JobTemplateSpec \<Rightarrow> Workflow \<Rightarrow> string \<Rightarrow>
    call list \<Rightarrow> (go_error option \<times> call list) option" where
  "noted answer ns t w s calls = Some (answer s, calls @ [(ns, t, s)])"

text \<open>
  A step lacks its job: it is not complete, its template's selector finds no job in the cache, and
  no creation is expected.  \<open>deps_done w v s\<close>: what the step of \<open>w\<close> depends on is complete in \<open>v\<close>.
\<close>

definition lacks_job :: "'c tenv \<Rightarrow> Workflow \<Rightarrow> 'c tstate \<Rightarrow> string \<Rightarrow> JobTemplateSpec \<Rightarrow> bool" where
  "lacks_job env w st s t \<longleftrightarrow>
     (case fmlookup (wf_steps w) s of None \<Rightarrow> False | Some step \<Rightarrow> JobTemplate step = Some t)
     \<and> step_phase w s \<noteq> Completed \<and> step_jobs env w s t = []
     \<and> ExpectationsForStepSatisfied (obClock (teObs env s)) (exps st) (MetaNamespaceKeyFunc (wfMeta w)) s"

definition deps_done :: "Workflow \<Rightarrow> Workflow \<Rightarrow> string \<Rightarrow> bool" where
  "deps_done w v s \<longleftrightarrow>
     (case fmlookup (wf_steps w) s of None \<Rightarrow> False | Some step \<Rightarrow> DependenciesResolved step v)"

lemma deps_done_mono:
  "deps_done w v s \<Longrightarrow> (\<And>d. step_phase v d \<le> step_phase v' d) \<Longrightarrow> deps_done w v' s"
  by (auto simp: deps_done_def dest: DependenciesResolved_mono split: option.splits)

text \<open>What one step adds to the calls, and what it does to the expectations.\<close>

lemma process_step_calls:
  assumes "process_step env w s step st = Some (b, w', st')" and "fmlookup (wf_steps w) s = Some step"
    and "teCreateJob env = noted answer" and "step_phase w s \<noteq> Completed"
  shows "(ctl st' = ctl st \<and> exps st' = exps st \<and> (\<forall>t. lacks_job env w st s t \<longrightarrow> \<not> deps_done w w s))
       \<or> (\<exists>t. lacks_job env w st s t \<and> deps_done w w s
            \<and> ctl st' = ctl st @ [(Namespace (wfMeta w), t, s)]
            \<and> exps st' = (if answer s = None
                 then ExpectCreation (obClock (teObs env s)) (exps st) (MetaNamespaceKeyFunc (wfMeta w)) s
                 else exps st))"
proof (cases "JobTemplate step = None")
  case True
  with assms(1,2) show ?thesis
    by (auto simp: process_step_def processExternalReferenceStep_def lacks_job_def split: if_splits)
next
  case False
  with assms(1) have "processJobStep env w s step st = Some (b, w', st')"
    by (simp add: process_step_def)
  from this assms(2) show ?thesis
  proof (cases rule: processJobStep_cases)
    case waiting
    with assms(2) show ?thesis by (auto simp: deps_done_def)
  next
    case (create t)
    from create(6,2,1,3) assms(2,3,4) show ?thesis
      by (auto simp: createJobForStep_def Let_def noted_def lacks_job_def deps_done_def
          split: if_splits option.splits)
  next
    case (update t job)
    with assms(2) show ?thesis by (auto simp: lacks_job_def)
  next
    case (many t)
    with assms(2) show ?thesis by (auto simp: lacks_job_def)
  qed
qed

text \<open>
  The state of the loop with \<open>ks\<close> still to visit, of all steps \<open>ks0\<close>: the calls so far were for
  visited steps, each legitimate and each recorded as expected; no visited step that had to be
  created is missing; the steps ahead look as they did at the start.
\<close>

definition step_expected :: "'c tenv \<Rightarrow> Workflow \<Rightarrow> 'c tstate \<Rightarrow> string \<Rightarrow> bool" where
  "step_expected env w st s \<longleftrightarrow>
     \<not> ExpectationsForStepSatisfied (obClock (teObs env s)) (exps st) (MetaNamespaceKeyFunc (wfMeta w)) s"

definition calls_inv ::
  "call list tenv \<Rightarrow> (string \<Rightarrow> go_error option) \<Rightarrow> string list \<Rightarrow> Workflow \<Rightarrow> call list tstate \<Rightarrow>
   string list \<Rightarrow> Workflow \<Rightarrow> call list tstate \<Rightarrow> call list \<Rightarrow> bool" where
  "calls_inv env answer ks0 w st ks v st1 calls \<longleftrightarrow>
     ctl st1 = ctl st @ calls \<and> distinct (map (snd \<circ> snd) calls)
     \<and> (\<forall>(ns, t, s) \<in> set calls. s \<notin> set ks \<and> ns = Namespace (wfMeta w) \<and> lacks_job env w st s t
          \<and> deps_done w v s \<and> (answer s = None \<longrightarrow> step_expected env w st1 s))
     \<and> (\<forall>s \<in> set ks0 - set ks. \<forall>t. lacks_job env w st s t \<and> deps_done w w s \<longrightarrow>
          (Namespace (wfMeta w), t, s) \<in> set calls)
     \<and> (\<forall>s \<in> set ks. step_phase v s = step_phase w s \<and> step_expected env w st1 s = step_expected env w st s)
     \<and> wfMeta v = wfMeta w \<and> Spec v = Spec w \<and> (\<forall>s. step_phase w s \<le> step_phase v s)"

lemma expected_after:
  "step_expected env w (st\<lparr>ctl := c, exps := ExpectCreation (obClock (teObs env s)) (exps st) (MetaNamespaceKeyFunc (wfMeta w)) s\<rparr>) s' \<longleftrightarrow>
     s' = s \<or> step_expected env w st s'"
  using exps.satisfied_expect [of "obClock (teObs env s')" "obClock (teObs env s)"]
  by (auto simp: step_expected_def isExpired_iff ExpectationsTimeout_def)

lemma lacks_job_cong:
  assumes "wfMeta v = wfMeta w" "Spec v = Spec w" "step_phase v s = step_phase w s"
    "step_expected env w st1 s = step_expected env w st s"
  shows "lacks_job env v st1 s t = lacks_job env w st s t"
  using assms process_step_jobs_cong [OF assms(1), of env s]
  by (auto simp: lacks_job_def step_expected_def)

lemma calls_inv_process:
  assumes inv: "calls_inv env answer ks0 w st (k # rest) v st1 calls"
    and step: "process_step env v k step st1 = Some (b, v', st2)" "fmlookup (wf_steps w) k = Some step"
    and env: "teCreateJob env = noted answer" and phase: "step_phase v k \<noteq> Completed"
    and dist: "k \<notin> set rest"
  shows "\<exists>calls'. calls_inv env answer ks0 w st rest v' st2 calls'"
proof -
  have same: "wfMeta v = wfMeta w" "Spec v = Spec w" "step_phase v k = step_phase w k"
    "step_expected env w st1 k = step_expected env w st k" "\<forall>s. step_phase w s \<le> step_phase v s"
    using inv by (auto simp: calls_inv_def)
  have lk: "fmlookup (wf_steps v) k = Some step" using step(2) same(2) by simp
  from process_step_frame [OF step(1) lk] have fr: "status_frame v k v'" by simp
  note fr' = status_frame_simps(1,2) [OF fr] status_frame_simps(5) [OF fr]
  have mono: "step_phase v d \<le> step_phase v' d" for d
    by (rule process_step_phase_mono [OF step(1) lk phase])
  have mono': "\<forall>s. step_phase w s \<le> step_phase v' s" using same(5) mono order_trans by blast
  have done_mono: "deps_done w v s \<Longrightarrow> deps_done w v' s" for s
    using deps_done_mono mono by blast
  have ready: "deps_done w w k \<Longrightarrow> deps_done v v k"
    using deps_done_mono [of w w k v] same(2,5) by (simp add: deps_done_def)
  have lacks: "lacks_job env v st1 k t = lacks_job env w st k t" for t
    using same by (intro lacks_job_cong) auto
  consider (quiet) "ctl st2 = ctl st1" "exps st2 = exps st1" "\<forall>t. lacks_job env w st k t \<longrightarrow> \<not> deps_done w w k"
    | (call) t where "lacks_job env w st k t" "deps_done w v k"
        "ctl st2 = ctl st1 @ [(Namespace (wfMeta w), t, k)]"
        "exps st2 = (if answer k = None
           then ExpectCreation (obClock (teObs env k)) (exps st1) (MetaNamespaceKeyFunc (wfMeta w)) k
           else exps st1)"
    using process_step_calls [OF step(1) lk env phase] lacks ready same(1,2)
    by (auto simp: deps_done_def)
  then show ?thesis
  proof cases
    case quiet
    have "step_expected env w st2 s = step_expected env w st1 s" for s
      using quiet(2) by (simp add: step_expected_def)
    then have "calls_inv env answer ks0 w st rest v' st2 calls"
      using inv quiet dist fr' mono' done_mono unfolding calls_inv_def by fastforce
    then show ?thesis by blast
  next
    case (call t)
    have unique: "lacks_job env w st k t' \<Longrightarrow> t' = t" for t'
      using call(1) by (auto simp: lacks_job_def split: option.splits)
    have expected: "step_expected env w st2 s \<longleftrightarrow> (s = k \<and> answer k = None) \<or> step_expected env w st1 s" for s
      using expected_after [where env = env and w = w and st = st1 and c = "ctl st2" and s = k and s' = s]
        call(4) by (auto simp: step_expected_def)
    have oldB: "\<forall>(ns, t, s) \<in> set calls. s \<notin> set (k # rest) \<and> ns = Namespace (wfMeta w) \<and> lacks_job env w st s t
          \<and> deps_done w v s \<and> (answer s = None \<longrightarrow> step_expected env w st1 s)"
      and mustB: "\<forall>s \<in> set ks0 - set (k # rest). \<forall>t. lacks_job env w st s t \<and> deps_done w w s \<longrightarrow>
          (Namespace (wfMeta w), t, s) \<in> set calls"
      and ctlB: "ctl st1 = ctl st @ calls" and distB: "distinct (map (snd \<circ> snd) calls)"
      and aheadB: "\<forall>s \<in> set (k # rest). step_phase v s = step_phase w s
                     \<and> step_expected env w st1 s = step_expected env w st s"
      using inv unfolding calls_inv_def by - (elim conjE, assumption)+
    have old: "s \<noteq> k \<and> s \<notin> set rest \<and> ns = Namespace (wfMeta w) \<and> lacks_job env w st s t'
          \<and> deps_done w v s \<and> (answer s = None \<longrightarrow> step_expected env w st1 s)"
      if "(ns, t', s) \<in> set calls" for ns t' s
      using bspec [OF oldB that] by simp
    have must: "(Namespace (wfMeta w), t', s) \<in> set calls"
      if "s \<in> set ks0" "s \<noteq> k" "s \<notin> set rest" "lacks_job env w st s t'" "deps_done w w s" for s t'
      using bspec [OF mustB, of s] that by simp
    have "calls_inv env answer ks0 w st rest v' st2 (calls @ [(Namespace (wfMeta w), t, k)])"
      unfolding calls_inv_def
    proof (intro conjI)
      show "ctl st2 = ctl st @ calls @ [(Namespace (wfMeta w), t, k)]"
        using ctlB call(3) by simp
      have "k \<notin> set (map (snd \<circ> snd) calls)" using old by fastforce
      with distB show "distinct (map (snd \<circ> snd) (calls @ [(Namespace (wfMeta w), t, k)]))"
        by (simp only: map_append distinct_append list.map comp_apply snd_conv) simp
      have "(case c of (ns, t', s) \<Rightarrow> s \<notin> set rest \<and> ns = Namespace (wfMeta w)
          \<and> lacks_job env w st s t' \<and> deps_done w v' s \<and> (answer s = None \<longrightarrow> step_expected env w st2 s))"
        if "c \<in> set (calls @ [(Namespace (wfMeta w), t, k)])" for c
        by (rule prod_cases3 [of c]) (use that old call(1,2) dist done_mono expected in auto)
      then show "\<forall>(ns, t', s) \<in> set (calls @ [(Namespace (wfMeta w), t, k)]). s \<notin> set rest \<and> ns = Namespace (wfMeta w)
          \<and> lacks_job env w st s t' \<and> deps_done w v' s \<and> (answer s = None \<longrightarrow> step_expected env w st2 s)"
        by blast
      show "\<forall>s \<in> set ks0 - set rest. \<forall>t'. lacks_job env w st s t' \<and> deps_done w w s \<longrightarrow>
          (Namespace (wfMeta w), t', s) \<in> set (calls @ [(Namespace (wfMeta w), t, k)])"
        using must unique by auto
      show "\<forall>s \<in> set rest. step_phase v' s = step_phase w s \<and> step_expected env w st2 s = step_expected env w st s"
        using aheadB dist fr'(3) expected by (metis list.set_intros(2))
    qed (simp_all add: fr'(1,2) same(1,2) mono')
    then show ?thesis by blast
  qed
qed

lemma steps_loop_calls:
  assumes "steps_loop env (wf_steps w) ks0 (n, c, w, st) = Some (n', c', w', st')"
    and "teCreateJob env = noted answer" and "distinct ks0"
  shows "\<exists>calls. calls_inv env answer ks0 w st [] w' st' calls"
proof -
  have "distinct ([] :: string list) \<and> (\<exists>calls. calls_inv env answer ks0 w st [] w' st' calls)"
    using assms(1)
  proof (induction rule: steps_loop_induct [where P = "\<lambda>ks _ _ v st1.
        distinct ks \<and> (\<exists>calls. calls_inv env answer ks0 w st ks v st1 calls)"])
    case init
    have "calls_inv env answer ks0 w st ks0 w st []" by (simp add: calls_inv_def)
    with assms(3) show ?case by blast
  next
    case (skip k rest n c v st1)
    then obtain calls where inv: "calls_inv env answer ks0 w st (k # rest) v st1 calls" by blast
    then have "step_phase v k = step_phase w k" by (simp add: calls_inv_def)
    with skip(2) have "\<not> lacks_job env w st k t" for t by (auto simp: lacks_job_def)
    with inv have "calls_inv env answer ks0 w st rest v st1 calls"
      unfolding calls_inv_def by fastforce
    with skip(1) show ?case by auto
  next
    case (process k rest n c v st1 step b v1 st2)
    then show ?case using calls_inv_process [OF _ process(4,2) assms(2) process(3)] by fastforce
  qed
  then show ?thesis by blast
qed

text \<open>
  C8. \<^verbatim>\<open>CreateJob\<close> is called for the steps that lack their job and whose dependencies are done, and
  for no others; once per step, with the workflow's namespace and the step's own template; and if
  the call succeeds the creation is expected afterwards.  A step whose dependencies were done when
  the pass began is served by this pass in every order of the steps; one whose last dependency
  completes during the pass may have to wait for the next.
\<close>

theorem processSteps_creates:
  assumes "teCreateJob env = noted answer" and "distinct (teRange env)"
    and "set (teRange env) = fmdom' (wf_steps w)"
    and "processSteps env w st = Some (b, w', st')"
  shows "\<exists>calls. ctl st' = ctl st @ calls \<and> distinct (map (snd \<circ> snd) calls)
     \<and> {(Namespace (wfMeta w), t, s) |s t. lacks_job env w st s t \<and> deps_done w w s} \<subseteq> set calls
     \<and> set calls \<subseteq> {(Namespace (wfMeta w), t, s) |s t. lacks_job env w st s t \<and> deps_done w w' s
                                                    \<and> (answer s = None \<longrightarrow> step_expected env w st' s)}"
proof -
  from assms(4) obtain n c v where
    loop: "steps_loop env (wf_steps w) (teRange env) (False, True, w, st) = Some (n, c, v, st')"
    and v: "w' = v \<or> w' = AddCompleteCondition (teNow env) v"
    by (auto simp: processSteps_def split: option.splits if_splits)
  from steps_loop_calls [OF loop assms(1,2)] obtain calls where
    inv: "calls_inv env answer (teRange env) w st [] v st' calls" by blast
  have "deps_done w w' s = deps_done w v s" for s
    using v by (auto simp: deps_done_def DependenciesResolved_def split: option.splits)
  moreover have "lacks_job env w st s t \<Longrightarrow> s \<in> set (teRange env)" for s t
    using assms(3) by (auto simp: lacks_job_def fmlookup_dom'_iff split: option.splits)
  ultimately show ?thesis
    using inv by (intro exI [of _ calls]) (fastforce simp: calls_inv_def)
qed

section \<open>Progress and completion\<close>

lemma steps_loop_quiet:
  assumes "steps_loop env (wf_steps w) ks (False, c, w, st) = Some (False, c', w', st')"
  shows "w' = w"
proof -
  have "Spec w' = Spec w \<and> (\<not> False \<longrightarrow> w' = w)"
    using assms
  proof (induction rule: steps_loop_induct [where P = "\<lambda>_ n _ v _. Spec v = Spec w \<and> (\<not> n \<longrightarrow> v = w)"])
    case (process k rest n c v st1 step b v1 st2)
    then have "fmlookup (wf_steps v) k = Some step" by simp
    from process_step_frame [OF process(4) this] process(1) show ?case
      using status_frame_simps(2) by fastforce
  qed simp_all
  then show ?thesis by simp
qed

text \<open>The flag \<^verbatim>\<open>workflowComplete\<close> survives the loop exactly if every step was complete at its start.\<close>

lemma steps_loop_complete:
  assumes "steps_loop env (wf_steps w) ks (n, True, w, st) = Some (n', c', w', st')"
  shows "c' \<Longrightarrow> n' = n \<and> w' = w \<and> st' = st \<and> (\<forall>s \<in> set ks \<inter> fmdom' (wf_steps w). step_phase w s = Completed)"
    and "\<forall>s \<in> set ks \<inter> fmdom' (wf_steps w). step_phase w s = Completed \<Longrightarrow> c'"
proof -
  let ?all = "\<lambda>xs. \<forall>s \<in> set xs \<inter> fmdom' (wf_steps w). step_phase w s = Completed"
  have "\<exists>xs. ks = xs @ [] \<and> (if c' then n' = n \<and> w' = w \<and> st' = st \<and> ?all xs else \<not> ?all ks)"
    using assms
  proof (induction rule: steps_loop_induct [where P = "\<lambda>rest m c v st1.
        \<exists>xs. ks = xs @ rest \<and> (if c then m = n \<and> v = w \<and> st1 = st \<and> ?all xs else \<not> ?all ks)"])
    case init
    then show ?case by simp
  next
    case (skip k rest m c v st1)
    then obtain xs where xs: "ks = xs @ k # rest"
      and P: "if c then m = n \<and> v = w \<and> st1 = st \<and> ?all xs else \<not> ?all ks" by blast
    have "ks = (xs @ [k]) @ rest" using xs by simp
    moreover have "if c then m = n \<and> v = w \<and> st1 = st \<and> ?all (xs @ [k]) else \<not> ?all ks"
      using P skip(2) by (auto simp: fmlookup_dom'_iff)
    ultimately show ?case by blast
  next
    case (process k rest m c v st1 step b v1 st2)
    then obtain xs where xs: "ks = xs @ k # rest"
      and P: "if c then m = n \<and> v = w \<and> st1 = st \<and> ?all xs else \<not> ?all ks" by blast
    have "\<not> ?all ks"
    proof (cases c)
      case True
      with P process(2,3) xs show ?thesis by (auto simp: fmlookup_dom'_iff)
    qed (use P in simp)
    then show ?case using xs by (intro exI [of _ "xs @ [k]"]) simp
  qed
  then have *: "if c' then n' = n \<and> w' = w \<and> st' = st \<and> ?all ks else \<not> ?all ks" by auto
  show "c' \<Longrightarrow> n' = n \<and> w' = w \<and> st' = st \<and> ?all ks" using * by simp
  show "?all ks \<Longrightarrow> c'" using * by (simp split: if_splits)
qed

lemma processSteps_keeps:
  assumes "processSteps env w st = Some (b, w', st')"
  shows "(\<forall>s. step_phase w s \<le> step_phase w' s) \<and> wfMeta w' = wfMeta w \<and> Spec w' = Spec w \<and> (b \<or> w' = w)"
proof -
  from assms obtain n c v where
    loop: "steps_loop env (wf_steps w) (teRange env) (False, True, w, st) = Some (n, c, v, st')"
    and v: "if c then b \<and> w' = AddCompleteCondition (teNow env) v else b = n \<and> w' = v"
    by (auto simp: processSteps_def split: option.splits if_splits)
  have same: "step_phase (AddCompleteCondition (teNow env) v) s = step_phase v s" for s
    by (rule step_phase_cong) simp
  show ?thesis
    using steps_loop_frame [OF loop] steps_loop_quiet [of env w "teRange env" True st c v st'] loop v same
    by (auto split: if_splits)
qed

text \<open>
  C9. A pass over the steps never takes a step back from running or complete, leaves metadata and
  spec alone, and if it reports that no update of the server is needed it has changed nothing.
\<close>

theorem processSteps_progress:
  assumes "processSteps env w st = Some (b, w', st')"
  shows "(\<forall>s. step_phase w s \<le> step_phase w' s) \<and> wfMeta w' = wfMeta w \<and> Spec w' = Spec w \<and> (b \<or> w' = w)"
  using assms by (rule processSteps_keeps)

lemma processSteps_finishes:
  assumes "processSteps env w st = Some (b, w', st')" and "set (teRange env) = fmdom' (wf_steps w)"
  shows "if \<forall>s \<in> fmdom' (wf_steps w). step_phase w s = Completed
         then b \<and> w' = AddCompleteCondition (teNow env) w \<and> st' = st \<and> IsFinished w'
         else Conditions (Status w') = Conditions (Status w) \<and> IsFinished w' = IsFinished w"
proof -
  from assms(1) obtain n c v where
    loop: "steps_loop env (wf_steps w) (teRange env) (False, True, w, st) = Some (n, c, v, st')"
    and v: "if c then b \<and> w' = AddCompleteCondition (teNow env) v else b = n \<and> w' = v"
    by (auto simp: processSteps_def split: option.splits if_splits)
  note fin = steps_loop_complete [OF loop, unfolded assms(2) Int_absorb]
  have "c \<longleftrightarrow> (\<forall>s \<in> fmdom' (wf_steps w). step_phase w s = Completed)" using fin by blast
  then show ?thesis
    using fin(1) v steps_loop_frame [OF loop] IsFinished_AddComplete
    by (auto simp: IsFinished_def split: if_splits)
qed

text \<open>
  C10. The pass appends the completion condition exactly if every step was complete when it began
  (so a workflow completes one pass after its last step, and a workflow without steps at once);
  such a pass does nothing else.
\<close>

theorem processSteps_completes:
  assumes "processSteps env w st = Some (b, w', st')" and "set (teRange env) = fmdom' (wf_steps w)"
  shows "if \<forall>s \<in> fmdom' (wf_steps w). step_phase w s = Completed
         then b \<and> w' = AddCompleteCondition (teNow env) w \<and> st' = st \<and> IsFinished w'
         else Conditions (Status w') = Conditions (Status w) \<and> IsFinished w' = IsFinished w"
  using assms by (rule processSteps_finishes)

lemma process_step_tracks:
  assumes "process_step env w s step st = Some (b, w', st')" and "fmlookup (wf_steps w) s = Some step"
    and "JobTemplate step = Some t" "DependenciesResolved step w" "step_jobs env w s t = [job]"
    and "teGetReference env job = Inr ref" and "step_phase w s \<noteq> Completed"
  shows "step_phase w' s = (if IsJobFinished job then Completed else Running)"
proof -
  from assms(1,3) have "processJobStep env w s step st = Some (b, w', st')"
    by (simp add: process_step_def)
  from this assms(2) have upd: "updateStepStatus env w s job = Some (b, w')"
    by (cases rule: processJobStep_cases) (use assms(3-5) in auto)
  show ?thesis
    using upd assms(6,7)
    by (cases "Statuses (Status w)")
       (auto simp: updateStepStatus_def Let_def step_phase_def status_phase_def
         split: option.splits if_splits)
qed

text \<open>
  The status of an open step after a pass is what processing it at its turn makes of it: the steps
  before it may have risen by then, the steps after it do not touch it.
\<close>

lemma processSteps_at_turn:
  assumes "processSteps env w st = Some (b, w', st')"
    and "distinct (teRange env)" and "s \<in> set (teRange env)"
    and "fmlookup (wf_steps w) s = Some step" and "step_phase w s \<noteq> Completed"
    and turn: "\<And>v st1 b1 v1 st2. wfMeta v = wfMeta w \<Longrightarrow> Spec v = Spec w \<Longrightarrow> (\<forall>d. step_phase w d \<le> step_phase v d) \<Longrightarrow>
           step_phase v s = step_phase w s \<Longrightarrow> process_step env v s step st1 = Some (b1, v1, st2) \<Longrightarrow>
           step_phase v1 s = target"
  shows "step_phase w' s = target"
proof -
  from assms(1) obtain n c v where
    loop: "steps_loop env (wf_steps w) (teRange env) (False, True, w, st) = Some (n, c, v, st')"
    and v: "w' = v \<or> w' = AddCompleteCondition (teNow env) v"
    by (auto simp: processSteps_def split: option.splits if_splits)
  let ?I = "\<lambda>ks v. distinct ks \<and> wfMeta v = wfMeta w \<and> Spec v = Spec w \<and> (\<forall>d. step_phase w d \<le> step_phase v d)
              \<and> step_phase v s = (if s \<in> set ks then step_phase w s else target)"
  have "?I [] v" using loop
  proof (induction rule: steps_loop_induct [where P = "\<lambda>ks _ _ v _. ?I ks v"])
    case init
    with assms(2,3) show ?case by simp
  next
    case (skip k rest n c v st1)
    with assms(4,5) show ?case by auto
  next
    case (process k rest n c v st1 step' b v1 st2)
    from process(1) have I: "?I (k # rest) v" .
    with process(2) have lk: "fmlookup (wf_steps v) k = Some step'" by simp
    from process_step_frame [OF process(4) lk] have fr: "status_frame v k v1" by simp
    note fr' = status_frame_simps(1,2) [OF fr] status_frame_simps(5) [OF fr]
    have mono: "\<forall>d. step_phase w d \<le> step_phase v1 d"
      using process_step_phase_mono [OF process(4) lk process(3)] I order_trans by blast
    have "step_phase v1 s = target" if "k = s"
      using that process(2,4) assms(4) I turn [of v st1 b v1 st2] by simp
    moreover have "step_phase v1 s = step_phase v s" if "k \<noteq> s" using that fr'(3) by simp
    ultimately show ?case using I fr'(1,2) mono by (cases "k = s") auto
  qed
  moreover have "step_phase w' s = step_phase v s"
    using v step_phase_cong [of "AddCompleteCondition (teNow env) v" v s] by auto
  ultimately show ?thesis by simp
qed

lemma processSteps_tracks:
  assumes "processSteps env w st = Some (b, w', st')"
    and "distinct (teRange env)" and "s \<in> set (teRange env)"
    and "fmlookup (wf_steps w) s = Some step" "JobTemplate step = Some t" "DependenciesResolved step w"
    and "step_phase w s \<noteq> Completed" "step_jobs env w s t = [job]" "teGetReference env job = Inr ref"
  shows "step_phase w' s = (if IsJobFinished job then Completed else Running)"
proof (rule processSteps_at_turn [OF assms(1-4,7)])
  fix v st1 b1 v1 st2
  assume v: "wfMeta v = wfMeta w" "Spec v = Spec w" "\<forall>d. step_phase w d \<le> step_phase v d"
    "step_phase v s = step_phase w s" and p: "process_step env v s step st1 = Some (b1, v1, st2)"
  from v(2) assms(4) have lk: "fmlookup (wf_steps v) s = Some step" by simp
  have "DependenciesResolved step v" using v(3) by (intro DependenciesResolved_mono [OF assms(6)]) simp
  moreover have "step_jobs env v s t = [job]" using v(1) assms(8) process_step_jobs_cong by metis
  ultimately show "step_phase v1 s = (if IsJobFinished job then Completed else Running)"
    using process_step_tracks [OF p lk assms(5)] assms(7,9) v(4) by simp
qed

text \<open>With more than one job in the cache for it a step stays what it is.\<close>

lemma processSteps_many_jobs:
  assumes "processSteps env w st = Some (b, w', st')"
    and "distinct (teRange env)" and "s \<in> set (teRange env)"
    and "fmlookup (wf_steps w) s = Some step" "JobTemplate step = Some t"
    and "step_phase w s \<noteq> Completed" "2 \<le> length (step_jobs env w s t)"
  shows "step_phase w' s = step_phase w s"
proof (rule processSteps_at_turn [OF assms(1-4,6)])
  fix v st1 b1 v1 st2
  assume v: "wfMeta v = wfMeta w" "Spec v = Spec w" "step_phase v s = step_phase w s"
    and p: "process_step env v s step st1 = Some (b1, v1, st2)"
  from v(2) assms(4) have lk: "fmlookup (wf_steps v) s = Some step" by simp
  from p assms(5) have "processJobStep env v s step st1 = Some (b1, v1, st2)" by (simp add: process_step_def)
  from this lk have "v1 = v"
  proof (cases rule: processJobStep_cases)
    case (update t' job)
    with assms(5,7) process_step_jobs_cong [OF v(1), of env s t] show ?thesis by simp
  qed simp_all
  with v(3) show "step_phase v1 s = step_phase w s" by simp
qed

text \<open>
  C11. The status of an open step whose dependencies are done follows its job: if the cache holds
  one job for it, the step is complete after the pass if the job has finished - failed jobs count
  as finished - and running otherwise.
\<close>

theorem processSteps_tracks_job:
  assumes "processSteps env w st = Some (b, w', st')"
    and "distinct (teRange env)" and "s \<in> set (teRange env)"
    and "fmlookup (wf_steps w) s = Some step" "JobTemplate step = Some t" "DependenciesResolved step w"
    and "step_phase w s \<noteq> Completed" "step_jobs env w s t = [job]" "teGetReference env job = Inr ref"
  shows "step_phase w' s = (if IsJobFinished job then Completed else Running)"
  using assms by (rule processSteps_tracks)

section \<open>Examples\<close>

text \<open>
  Two steps, the second after the first; a cache without jobs, and one in which the first step's
  job has finished.
\<close>

definition no_jobs :: obs where
  "no_jobs = \<lparr>obClock = 0, obStore = fmempty, obOrder = []\<rparr>"

definition step_one_job :: Job where
  "step_one_job =
     \<lparr>jobMeta = (sample_meta ''mydag-x1'' (Some (getWorkflowJobLabelSet (two_workflow fmempty) sample_template ''one''))),
      jobSpec = tmplSpec sample_template,
      jobConditions = [\<lparr>jcType = JobComplete, jcStatus = ConditionTrue\<rparr>]\<rparr>"

definition one_job :: obs where
  "one_job = \<lparr>obClock = 0, obStore = fmupd ''default/mydag-x1'' step_one_job fmempty, obOrder = [''default/mydag-x1'']\<rparr>"

definition sample_env :: "obs \<Rightarrow> call list tenv" where
  "sample_env ob =
     \<lparr>teCreateJob = noted (\<lambda>_. None), teGetReference = \<lambda>_. Inr sample_reference,
      teValidateMeta = \<lambda>_. [], teNow = 7, teObs = (\<lambda>_. ob), teLabelOrder = [WorkflowUIDLabel],
      teStepOrder = [''one'', ''two''], teRange = [''two'', ''one'']\<rparr>"

definition sample_tstate :: "call list tstate" where
  "sample_tstate = \<lparr>ctl = [], exps = NewWorkflowStepExpectations\<rparr>"

lemma sample_env_total: "control_total (sample_env ob)"
  by (simp add: control_total_def sample_env_def noted_def)

lemma sample_env_noted: "teCreateJob (sample_env ob) = noted (\<lambda>_. None)"
  by (simp add: sample_env_def)

lemma sample_env_range:
  "distinct (teRange (sample_env ob))" "set (teRange (sample_env ob)) = fmdom' (wf_steps (two_workflow sts))"
  by (auto simp: sample_env_def two_workflow_def sample_workflow_def two_spec_def two_steps_def)


lemma processSteps_creates_witness:
  "\<exists>b w' st'. processSteps (sample_env no_jobs) (two_workflow fmempty) sample_tstate = Some (b, w', st')
     \<and> (''default'', sample_template, ''one'') \<in> set (ctl st')"
proof -
  let ?env = "sample_env no_jobs" and ?w = "two_workflow fmempty"
  obtain b w' st' where p: "processSteps ?env ?w sample_tstate = Some (b, w', st')"
    using processSteps_total [OF sample_env_total, of ?w no_jobs sample_tstate]
    by (auto simp: two_workflow_def sample_workflow_def)
  have "lacks_job ?env ?w sample_tstate ''one'' sample_template" "deps_done ?w ?w ''one''" by code_simp+
  moreover have "Namespace (wfMeta ?w) = ''default''" by code_simp
  ultimately have "(''default'', sample_template, ''one'')
      \<in> {(Namespace (wfMeta ?w), t, s) |s t. lacks_job ?env ?w sample_tstate s t \<and> deps_done ?w ?w s}"
    by auto
  with processSteps_creates [OF sample_env_noted sample_env_range p] p show ?thesis by fastforce
qed

lemma processSteps_progress_witness:
  "\<exists>b w' st'. processSteps (sample_env no_jobs) (two_workflow one_running) sample_tstate = Some (b, w', st')
     \<and> Running \<le> step_phase w' ''one''"
proof -
  obtain b w' st' where p: "processSteps (sample_env no_jobs) (two_workflow one_running) sample_tstate = Some (b, w', st')"
    using processSteps_total [OF sample_env_total, of "two_workflow one_running" no_jobs sample_tstate]
    by (auto simp: two_workflow_def sample_workflow_def)
  have "step_phase (two_workflow one_running) ''one'' = Running" by code_simp
  with processSteps_progress [OF p] p show ?thesis by metis
qed

lemma processSteps_completes_witness:
  "\<exists>b w' st'. processSteps (sample_env no_jobs) (two_workflow all_done) sample_tstate = Some (b, w', st')
     \<and> IsFinished w'"
proof -
  obtain b w' st' where p: "processSteps (sample_env no_jobs) (two_workflow all_done) sample_tstate = Some (b, w', st')"
    using processSteps_total [OF sample_env_total, of "two_workflow all_done" no_jobs sample_tstate]
    by (auto simp: two_workflow_def sample_workflow_def)
  have "\<forall>s \<in> fmdom' (wf_steps (two_workflow all_done)). step_phase (two_workflow all_done) s = Completed"
    by code_simp
  with processSteps_completes [OF p sample_env_range(2)] p show ?thesis by auto
qed

lemma processSteps_tracks_job_witness:
  "\<exists>b w' st'. processSteps (sample_env one_job) (two_workflow one_running) sample_tstate = Some (b, w', st')
     \<and> step_phase w' ''one'' = Completed"
proof -
  let ?env = "sample_env one_job" and ?w = "two_workflow one_running"
  obtain b w' st' where p: "processSteps ?env ?w sample_tstate = Some (b, w', st')"
    using processSteps_total [OF sample_env_total, of ?w one_job sample_tstate]
    by (auto simp: two_workflow_def sample_workflow_def)
  have r: "distinct (teRange ?env)" "''one'' \<in> set (teRange ?env)" by (simp_all add: sample_env_def)
  have l: "fmlookup (wf_steps ?w) ''one'' = Some (job_step [])" by code_simp
  have t: "JobTemplate (job_step []) = Some sample_template" by (simp add: job_step_def)
  have d: "DependenciesResolved (job_step []) ?w" by (simp add: DependenciesResolved_def job_step_def)
  have o: "step_phase ?w ''one'' \<noteq> Completed" by code_simp
  have j: "step_jobs ?env ?w ''one'' sample_template = [step_one_job]" by code_simp
  have f: "IsJobFinished step_one_job" by code_simp
  have g: "teGetReference ?env step_one_job = Inr sample_reference" by (simp add: sample_env_def)
  from processSteps_tracks_job [OF p r l t d o j g] f p show ?thesis by auto
qed

end
