(* ===== verification/Client.thy ===== *)
theory Client
  imports Api Complex_Main
begin

text \<open>
  \<^verbatim>\<open>pkg/client/workflows.go\<close> (but for Watch, theory Watch) and \<^verbatim>\<open>pkg/client/thirdparty.go\<close>: the
  client for workflows.  The network is a parameter: \<open>tpParse\<close> says which URLs \<^verbatim>\<open>http.NewRequest\<close>
  accepts, \<open>tpDo\<close> is the round trip on the world behind it (no answer, a body that cannot be
  read, or a body), and the codec is \<^verbatim>\<open>encoding/json\<close> on the Kubernetes types, whose marshalling
  methods are not part of this repository's code.  The record \<open>net\<close> keeps what the client does to
  the outside: the requests sent and the tickers started.  \<open>workflow_interface\<close> is the part of
  \<^verbatim>\<open>WorkflowInterface\<close> the transitioner uses.
\<close>

section \<open>Requests\<close>

datatype Method = MethodGet | MethodPut

record request =
  rqMethod :: Method
  rqURL :: string
  rqBody :: string

record 'w net =
  rqSent :: "request list"
  tickers :: nat
  rqWorld :: 'w

record 'w transport =
  tpParse :: "string \<Rightarrow> bool"
  tpDo :: "request \<Rightarrow> 'w \<Rightarrow> (go_error + (go_error + string)) \<times> 'w"

record codec =
  marshal :: "Workflow \<Rightarrow> go_error + string"
  unmarshalWorkflow :: "string \<Rightarrow> go_error + Workflow"
  unmarshalStatus :: "string \<Rightarrow> go_error + reason"
  unmarshalList :: "string \<Rightarrow> go_error + Workflow list"

definition send :: "'w transport \<Rightarrow> request \<Rightarrow> 'w net \<Rightarrow> (go_error + (go_error + string)) \<times> 'w net" where
  "send tp req n =
     (let (r, w') = tpDo tp req (rqWorld n) in (r, n\<lparr>rqSent := rqSent n @ [req], rqWorld := w'\<rparr>))"

section \<open>The client for workflows\<close>

definition namespacesPathString :: string where "namespacesPathString = ''namespaces''"
definition workflowsPathString :: string where "workflowsPathString = ''workflows''"

record workflows =
  wsBaseURL :: string
  wsNs :: string
  nameMap :: "Workflow gomap"

text \<open>\<^verbatim>\<open>newWorkflows\<close> starts a ticker, which nothing ever stops.\<close>

definition newWorkflows :: "string \<Rightarrow> string \<Rightarrow> 'w net \<Rightarrow> workflows \<times> 'w net" where
  "newWorkflows base namespace n =
     (\<lparr>wsBaseURL = base, wsNs = namespace, nameMap = fmempty\<rparr>, n\<lparr>tickers := Suc (tickers n)\<rparr>)"

definition newFakeWorkflows :: "string \<Rightarrow> string \<Rightarrow> workflows" where
  "newFakeWorkflows base namespace = \<lparr>wsBaseURL = base, wsNs = namespace, nameMap = fmempty\<rparr>"

definition createURL :: "string \<Rightarrow> string list \<Rightarrow> string" where
  "createURL base endpoint = base @ ''/'' @ path_Join endpoint"

definition namespace_path :: "workflows \<Rightarrow> string" where
  "namespace_path ws = (if wsNs ws \<noteq> [] then path_Join [namespacesPathString, wsNs ws] else [])"

definition Update ::
  "'w transport \<Rightarrow> codec \<Rightarrow> workflows \<Rightarrow> Workflow \<Rightarrow> 'w net \<Rightarrow> (go_error + Workflow) \<times> 'w net" where
  "Update tp cd ws workflow n =
     (let nsPath = namespace_path ws
      in if Name (wfMeta workflow) = [] then (Inl (Errorf ''no name found in workflow''), n)
      else
        (let url = createURL (wsBaseURL ws) [nsPath, workflowsPathString, Name (wfMeta workflow)]
         in case marshal cd workflow of
              Inl err \<Rightarrow> (Inl (Errorf ''couldn't encode workflow: %v''), n)
            | Inr b \<Rightarrow>
                if \<not> tpParse tp url then (Inl (Errorf ''could not reach create request: %v''), n)
                else
                  (case send tp \<lparr>rqMethod = MethodPut, rqURL = url, rqBody = b\<rparr> n of
                     (Inl err, n') \<Rightarrow> (Inl (Errorf ''could not reach %s: %v''), n')
                   | (Inr (Inl err), n') \<Rightarrow> (Inl (Errorf ''could not read from response body: %v''), n')
                   | (Inr (Inr data), n') \<Rightarrow>
                       (case unmarshalWorkflow cd data of
                          Inr result \<Rightarrow> (Inr result, n')
                        | Inl _ \<Rightarrow>
                            (case unmarshalStatus cd data of
                               Inr status \<Rightarrow> (Inl (StatusError status), n')
                             | Inl err \<Rightarrow>
                                 (Inl (Errorf ''could not decode into api.Workflow or k8sApiUnv.Status: %v''), n'))))))"

text \<open>\<^verbatim>\<open>http.Get\<close> followed by a JSON decoder on the body.\<close>

definition fetch ::
  "'w transport \<Rightarrow> (string \<Rightarrow> go_error + 'a) \<Rightarrow> string \<Rightarrow> 'w net \<Rightarrow> (go_error + 'a) \<times> 'w net" where
  "fetch tp decode url n =
     (case send tp \<lparr>rqMethod = MethodGet, rqURL = url, rqBody = []\<rparr> n of
        (Inl err, n') \<Rightarrow> (Inl (Errorf ''could not reach %s: %v''), n')
      | (Inr (Inl err), n') \<Rightarrow> (Inl err, n')
      | (Inr (Inr data), n') \<Rightarrow> (decode data, n'))"

definition Workflows_List ::
  "'w transport \<Rightarrow> codec \<Rightarrow> workflows \<Rightarrow> 'w net \<Rightarrow> (go_error + Workflow list) \<times> 'w net" where
  "Workflows_List tp cd ws n =
     (let url = createURL (wsBaseURL ws) [namespace_path ws, workflowsPathString]
      in fetch tp (unmarshalList cd) url n)"

definition Workflows_Get ::
  "'w transport \<Rightarrow> codec \<Rightarrow> workflows \<Rightarrow> string \<Rightarrow> 'w net \<Rightarrow> (go_error + Workflow) \<times> 'w net" where
  "Workflows_Get tp cd ws name n =
     (let url = createURL (wsBaseURL ws) [namespace_path ws, workflowsPathString, name]
      in fetch tp (unmarshalWorkflow cd) url n)"

section \<open>The third party client\<close>

record GroupVersion =
  gvGroup :: string
  gvVersion :: string

text \<open>The codec and the serializer of the configuration are named, not modelled.\<close>

datatype rest_codec = NoCodec | LegacyCodec GroupVersion
datatype serializer = NoSerializer | ApiCodecs

record Config =
  Host :: string
  APIPath :: string
  UserAgent :: string
  cfgGroupVersion :: "GroupVersion option"
  Codec :: rest_codec
  NegotiatedSerializer :: serializer
  QPS :: real
  Burst :: int

record 'c ThirdPartyClient =
  RESTClient :: 'c
  tpBaseURL :: string

definition defaultAPIPath :: string where "defaultAPIPath = ''/apis''"
definition defaultQPS :: real where "defaultQPS = 5"
definition defaultBurst :: int where "defaultBurst = 10"

text \<open>\<open>agent\<close> is \<^verbatim>\<open>DefaultKubernetesUserAgent()\<close>, \<open>rest\<close> is \<^verbatim>\<open>RESTClientFor\<close>.\<close>

definition setThirdPartyDefaults :: "string \<Rightarrow> GroupVersion \<Rightarrow> Config \<Rightarrow> go_error option \<times> Config" where
  "setThirdPartyDefaults agent groupVersion config =
     (let c1 = config\<lparr>APIPath := defaultAPIPath\<rparr>;
          c2 = (if UserAgent c1 = [] then c1\<lparr>UserAgent := agent\<rparr> else c1);
          c3 = c2\<lparr>cfgGroupVersion := Some groupVersion, Codec := LegacyCodec groupVersion,
                  NegotiatedSerializer := ApiCodecs\<rparr>;
          c4 = (if QPS c3 = 0 then c3\<lparr>QPS := defaultQPS\<rparr> else c3);
          c5 = (if Burst c4 = 0 then c4\<lparr>Burst := defaultBurst\<rparr> else c4)
      in (None, c5))"

definition NewThirdParty ::
  "string \<Rightarrow> (Config \<Rightarrow> go_error + 'c) \<Rightarrow> GroupVersion \<Rightarrow> Config \<Rightarrow> go_error + 'c ThirdPartyClient" where
  "NewThirdParty agent rest gv c =
     (case setThirdPartyDefaults agent gv c of
        (Some err, _) \<Rightarrow> Inl err
      | (None, c') \<Rightarrow>
          (case rest c' of
             Inl err \<Rightarrow> Inl err
           | Inr client \<Rightarrow>
               Inr \<lparr>RESTClient = client,
                    tpBaseURL = Host c' @ path_Join [APIPath c',
                      (case cfgGroupVersion c' of None \<Rightarrow> [] | Some g \<Rightarrow> gvGroup g),
                      (case cfgGroupVersion c' of None \<Rightarrow> [] | Some g \<Rightarrow> gvVersion g)]\<rparr>))"

text \<open>None is the panic.\<close>

definition NewThirdPartyOrDie ::
  "string \<Rightarrow> (Config \<Rightarrow> go_error + 'c) \<Rightarrow> GroupVersion \<Rightarrow> Config \<Rightarrow> 'c ThirdPartyClient option" where
  "NewThirdPartyOrDie agent rest gv c =
     (case setThirdPartyDefaults agent gv c of
        (Some err, _) \<Rightarrow> None
      | (None, c') \<Rightarrow>
          (case rest c' of
             Inl err \<Rightarrow> None
           | Inr client \<Rightarrow>
               Some \<lparr>RESTClient = client,
                    tpBaseURL = Host c' @ path_Join [APIPath c',
                      (case cfgGroupVersion c' of None \<Rightarrow> [] | Some g \<Rightarrow> gvGroup g),
                      (case cfgGroupVersion c' of None \<Rightarrow> [] | Some g \<Rightarrow> gvVersion g)]\<rparr>))"

text \<open>The two methods the transitioner calls on a new object of \<^verbatim>\<open>Workflows(namespace)\<close>.\<close>

definition client_update ::
  "'w transport \<Rightarrow> codec \<Rightarrow> 'c ThirdPartyClient \<Rightarrow> Workflow \<Rightarrow> 'w net \<Rightarrow> (go_error + Workflow) \<times> 'w net" where
  "client_update tp cd c w n =
     (let (ws, n1) = newWorkflows (tpBaseURL c) (Namespace (wfMeta w)) n in Update tp cd ws w n1)"

definition client_get ::
  "'w transport \<Rightarrow> codec \<Rightarrow> 'c ThirdPartyClient \<Rightarrow> string \<Rightarrow> string \<Rightarrow> 'w net \<Rightarrow> (go_error + Workflow) \<times> 'w net" where
  "client_get tp cd c namespace name n =
     (let (ws, n1) = newWorkflows (tpBaseURL c) namespace n in Workflows_Get tp cd ws name n1)"

section \<open>The interface the transitioner relies on\<close>

text \<open>
  \<open>puts n\<close> are the workflows sent to the server so far, as they went over the wire, \<open>gets n\<close>
  counts the reads: an Update sends its workflow at most once and fails if it sends nothing, a Get
  sends nothing.
\<close>

locale workflow_interface =
  fixes upd :: "Workflow \<Rightarrow> 'n \<Rightarrow> (go_error + Workflow) \<times> 'n"
    and get :: "string \<Rightarrow> string \<Rightarrow> 'n \<Rightarrow> (go_error + Workflow) \<times> 'n"
    and puts :: "'n \<Rightarrow> string list"
    and gets :: "'n \<Rightarrow> nat"
    and wire :: "Workflow \<Rightarrow> string option"
  assumes upd_puts: "upd w n = (r, n') \<Longrightarrow>
      (puts n' = puts n \<and> isl r) \<or> (\<exists>b. wire w = Some b \<and> puts n' = puts n @ [b])"
    and upd_gets: "upd w n = (r, n') \<Longrightarrow> gets n' = gets n"
    and get_puts: "get ns nm n = (r, n') \<Longrightarrow> puts n' = puts n"
    and get_gets: "get ns nm n = (r, n') \<Longrightarrow> gets n' \<le> Suc (gets n)"
begin

lemma upd_ok: "upd w n = (Inr r, n') \<Longrightarrow> \<exists>b. wire w = Some b \<and> puts n' = puts n @ [b]"
  using upd_puts by fastforce

lemma upd_at_most_once: "upd w n = (r, n') \<Longrightarrow> length (puts n') \<le> Suc (length (puts n))"
  using upd_puts by fastforce

end

definition net_puts :: "'w net \<Rightarrow> string list" where
  "net_puts n = map rqBody (filter (\<lambda>r. rqMethod r = MethodPut) (rqSent n))"

definition net_gets :: "'w net \<Rightarrow> nat" where
  "net_gets n = length (filter (\<lambda>r. rqMethod r = MethodGet) (rqSent n))"

lemma send_sent: "send tp req n = (r, n') \<Longrightarrow> rqSent n' = rqSent n @ [req]"
  by (auto simp: send_def Let_def split: prod.splits)

lemma Update_sends:
  assumes "Update tp cd ws w n = (r, n')"
  shows "(rqSent n' = rqSent n \<and> isl r \<and>
            (Name (wfMeta w) = [] \<or> isl (marshal cd w)
             \<or> \<not> tpParse tp (createURL (wsBaseURL ws) [namespace_path ws, workflowsPathString, Name (wfMeta w)])))
       \<or> (\<exists>b. marshal cd w = Inr b \<and> Name (wfMeta w) \<noteq> [] \<and> rqSent n' = rqSent n @
              [\<lparr>rqMethod = MethodPut, rqURL = createURL (wsBaseURL ws)
                  [namespace_path ws, workflowsPathString, Name (wfMeta w)], rqBody = b\<rparr>])"
  using assms
  by (auto simp: Update_def Let_def send_sent split: if_splits sum.splits prod.splits)

lemma fetch_sends:
  "fetch tp decode url n = (r, n') \<Longrightarrow>
     rqSent n' = rqSent n @ [\<lparr>rqMethod = MethodGet, rqURL = url, rqBody = []\<rparr>]"
  by (auto simp: fetch_def send_sent split: sum.splits prod.splits)

interpretation tp_client: workflow_interface "client_update tp cd c" "client_get tp cd c" net_puts net_gets
  "\<lambda>w. case marshal cd w of Inl _ \<Rightarrow> None | Inr b \<Rightarrow> Some b" for tp cd c
proof (unfold_locales, goal_cases)
  case (1 w n r n')
  then show ?case
    by (auto simp: client_update_def newWorkflows_def net_puts_def dest!: Update_sends)
next
  case (2 w n r n')
  then show ?case
    by (auto simp: client_update_def newWorkflows_def net_gets_def dest!: Update_sends)
next
  case (3 ns nm n r n')
  then show ?case
    by (auto simp: client_get_def newWorkflows_def Workflows_Get_def Let_def net_puts_def dest!: fetch_sends)
next
  case (4 ns nm n r n')
  then show ?case
    by (auto simp: client_get_def newWorkflows_def Workflows_Get_def Let_def net_gets_def dest!: fetch_sends)
qed

section \<open>URLs\<close>

lemma plain_paths: "plain_segment namespacesPathString" "plain_segment workflowsPathString"
  by code_simp+

lemma workflow_path:
  assumes "plain_segment namespace" and "plain_segment name"
  shows "path_Join [path_Join [namespacesPathString, namespace], workflowsPathString, name] =
           join_with ''/'' [namespacesPathString, namespace, workflowsPathString, name]"
proof -
  have "path_Join [namespacesPathString, namespace] = join_with ''/'' [namespacesPathString, namespace]"
    using assms(1) plain_paths by (intro Join_segments) auto
  moreover have "join_with ''/'' [join_with ''/'' [namespacesPathString, namespace], workflowsPathString, name]
      = join_with ''/'' [namespacesPathString, namespace, workflowsPathString, name]"
    by simp
  moreover have "path_Clean (join_with ''/'' [namespacesPathString, namespace, workflowsPathString, name])
      = join_with ''/'' [namespacesPathString, namespace, workflowsPathString, name]"
    using assms plain_paths by (intro path_Clean_segments) auto
  ultimately show ?thesis by (simp add: path_Join_def namespacesPathString_def)
qed

lemma plain_no_slash: "plain_segment s \<Longrightarrow> CHR ''/'' \<notin> set s"
  by (simp add: plain_segment_def)

definition workflow_url :: "'c ThirdPartyClient \<Rightarrow> string \<Rightarrow> string \<Rightarrow> string" where
  "workflow_url c namespace name =
     createURL (tpBaseURL c) [namespace_path (newFakeWorkflows (tpBaseURL c) namespace), workflowsPathString, name]"

lemma workflow_url_plain:
  assumes "plain_segment namespace" and "plain_segment name"
  shows "workflow_url c namespace name =
           tpBaseURL c @ ''/namespaces/'' @ namespace @ ''/workflows/'' @ name"
proof -
  have "namespace \<noteq> []" using assms(1) by (simp add: plain_segment_def)
  then show ?thesis
    using workflow_path [OF assms]
    by (simp add: workflow_url_def createURL_def namespace_path_def newFakeWorkflows_def
        namespacesPathString_def workflowsPathString_def)
qed

lemma workflow_url_inj:
  assumes "plain_segment namespace" "plain_segment name" "plain_segment namespace'" "plain_segment name'"
  shows "workflow_url c namespace name = workflow_url c namespace' name' \<longleftrightarrow> namespace = namespace' \<and> name = name'"
proof -
  have "namespace @ CHR ''/'' # ''workflows/'' @ name = namespace' @ CHR ''/'' # ''workflows/'' @ name'
        \<longleftrightarrow> namespace = namespace' \<and> name = name'"
  proof
    assume eq: "namespace @ CHR ''/'' # ''workflows/'' @ name = namespace' @ CHR ''/'' # ''workflows/'' @ name'"
    have "takeWhile (\<lambda>x. x \<noteq> CHR ''/'') (n @ CHR ''/'' # r) = n" if "plain_segment n" for n r
      using plain_no_slash [OF that] by (simp add: takeWhile_tail) (metis takeWhile_eq_all_conv)
    from this [OF assms(1)] this [OF assms(3)] eq have "namespace = namespace'" by metis
    with eq show "namespace = namespace' \<and> name = name'" by simp
  qed simp
  then show ?thesis
    using workflow_url_plain [OF assms(1,2), of c] workflow_url_plain [OF assms(3,4), of c] by simp
qed

text \<open>
  For the configuration the program starts with (no API path, no agent, no limits yet) and
  plain names, the URL of a workflow is the host followed by
  \<^verbatim>\<open>/apis/nerdalize.com/v1alpha1/namespaces/<namespace>/workflows/<name>\<close>; different
  workflows get different URLs.
\<close>

theorem workflow_url_exact:
  assumes "NewThirdParty agent rest \<lparr>gvGroup = Group, gvVersion = Version\<rparr> cfg = Inr c"
    and "plain_segment namespace" "plain_segment name" "plain_segment namespace'" "plain_segment name'"
  shows "workflow_url c namespace name =
           Host cfg @ ''/apis/nerdalize.com/v1alpha1/namespaces/'' @ namespace @ ''/workflows/'' @ name
       \<and> (workflow_url c namespace name = workflow_url c namespace' name' \<longleftrightarrow> namespace = namespace' \<and> name = name')"
proof -
  have "path_Join [defaultAPIPath, Group, Version] = ''/apis/nerdalize.com/v1alpha1''" by code_simp
  with assms(1) have base: "tpBaseURL c = Host cfg @ ''/apis/nerdalize.com/v1alpha1''"
    by (auto simp: NewThirdParty_def setThirdPartyDefaults_def Let_def split: sum.splits)
  show ?thesis
  proof
    show "workflow_url c namespace name =
        Host cfg @ ''/apis/nerdalize.com/v1alpha1/namespaces/'' @ namespace @ ''/workflows/'' @ name"
      using base by (simp add: workflow_url_plain [OF assms(2,3), of c])
  qed (rule workflow_url_inj [OF assms(2-5)])
qed

section \<open>Against a server that keeps what it is sent\<close>

text \<open>A server that stores the body of a PUT under its URL and serves it; \<open>missing\<close> is its 404 body.\<close>

definition rest_do :: "string \<Rightarrow> request \<Rightarrow> string gomap \<Rightarrow> (go_error + (go_error + string)) \<times> string gomap" where
  "rest_do missing req m =
     (case rqMethod req of
        MethodPut \<Rightarrow> (Inr (Inr (rqBody req)), fmupd (rqURL req) (rqBody req) m)
      | MethodGet \<Rightarrow> (Inr (Inr (case fmlookup m (rqURL req) of None \<Rightarrow> missing | Some b \<Rightarrow> b)), m))"

lemma client_get_rest:
  "tpDo tp = rest_do missing \<Longrightarrow>
     fst (client_get tp cd c namespace name n) =
       unmarshalWorkflow cd (case fmlookup (rqWorld n) (workflow_url c namespace name) of None \<Rightarrow> missing | Some b \<Rightarrow> b)"
  by (simp add: client_get_def newWorkflows_def Workflows_Get_def Let_def fetch_def send_def rest_do_def
      workflow_url_def newFakeWorkflows_def namespace_path_def)


section \<open>Examples\<close>

text \<open>A codec for the workflows that differ only in their name, enough to run the client.\<close>

definition named_workflow :: "string \<Rightarrow> Workflow" where
  "named_workflow n =
     (sample_workflow None \<lparr>ActiveDeadlineSeconds = None, Steps = None, JobsSelector = None\<rparr> None)
       \<lparr>wfMeta := sample_meta n None\<rparr>"

definition name_codec :: codec where
  "name_codec =
     \<lparr>marshal = \<lambda>w. if w = named_workflow (Name (wfMeta w)) then Inr (Name (wfMeta w)) else Inl (Errorf ''unsupported''),
      unmarshalWorkflow = \<lambda>b. Inr (named_workflow b), unmarshalStatus = \<lambda>_. Inl (Errorf ''no status''),
      unmarshalList = \<lambda>_. Inr []\<rparr>"

definition keeping_server :: "string gomap transport" where
  "keeping_server = \<lparr>tpParse = \<lambda>_. True, tpDo = rest_do []\<rparr>"

definition local_client :: "unit ThirdPartyClient" where
  "local_client = \<lparr>RESTClient = (), tpBaseURL = ''http://127.0.0.1:8080/apis/nerdalize.com/v1alpha1''\<rparr>"

definition local_config :: Config where
  "local_config = \<lparr>Host = ''http://127.0.0.1:8080'', APIPath = [], UserAgent = [], cfgGroupVersion = None,
     Codec = NoCodec, NegotiatedSerializer = NoSerializer, QPS = 0, Burst = 0\<rparr>"

definition new_net :: "string gomap net" where
  "new_net = \<lparr>rqSent = [], tickers = 0, rqWorld = fmempty\<rparr>"

lemma plain_samples: "plain_segment ''default''" "plain_segment ''a''" "plain_segment ''b''"
  by code_simp+

lemma workflow_url_exact_witness:
  "workflow_url local_client ''default'' ''a'' =
     ''http://127.0.0.1:8080/apis/nerdalize.com/v1alpha1/namespaces/default/workflows/a''
   \<and> workflow_url local_client ''default'' ''a'' \<noteq> workflow_url local_client ''default'' ''b''"
proof -
  have "path_Join [defaultAPIPath, Group, Version] = ''/apis/nerdalize.com/v1alpha1''" by code_simp
  then have c: "NewThirdParty ''agent'' (\<lambda>_. Inr ()) \<lparr>gvGroup = Group, gvVersion = Version\<rparr> local_config = Inr local_client"
    by (simp add: NewThirdParty_def setThirdPartyDefaults_def Let_def local_config_def local_client_def)
  have h: "Host local_config = ''http://127.0.0.1:8080''" by (simp add: local_config_def)
  note e = workflow_url_exact [OF c plain_samples(1,2) plain_samples(1,3), unfolded h]
  show ?thesis
  proof
    show "workflow_url local_client ''default'' ''a'' =
        ''http://127.0.0.1:8080/apis/nerdalize.com/v1alpha1/namespaces/default/workflows/a''"
      using conjunct1 [OF e] by simp
    show "workflow_url local_client ''default'' ''a'' \<noteq> workflow_url local_client ''default'' ''b''"
      using conjunct2 [OF e] by simp
  qed
qed


end
