(* ===== verification/Transition.thy ===== *)
theory Transition
  imports Pass Client
begin

text \<open>
  Whole transitions: the retry loop against any workflow interface (locale \<open>workflow_interface\<close>,
  then the client), the first pass that sets the defaults, the guard that only validated workflows
  get jobs, when the manager is asked to requeue, and what the maps shared with the cache do.
\<close>

section \<open>Updating the server\<close>

definition with_rv :: "Workflow \<Rightarrow> string \<Rightarrow> Workflow" where
  "with_rv w rv = w\<lparr>wfMeta := (wfMeta w)\<lparr>ResourceVersion := rv\<rparr>\<rparr>"

lemma with_rv_idem [simp]: "with_rv (with_rv w rv) rv' = with_rv w rv'"
  by (simp add: with_rv_def)

lemma with_rv_same: "with_rv w (ResourceVersion (wfMeta w)) = w"
  by (simp add: with_rv_def)

lemma update_loop_unfold:
  "update_loop upd get i rv w n =
     (let v = with_rv w rv; (res, n1) = upd v n
      in case res of
           Inr _ \<Rightarrow> (None, v, n1)
         | Inl e \<Rightarrow>
             if i \<ge> retryOnStatusConflict then
               (Some (Errorf ''tried to update status of wf %v, but amount of retries exceeded''), v, n1)
             else if \<not> is_StatusError e then
               (Some (Errorf ''tried to update status of wf %v, but got error''), v, n1)
             else
               (let (got, n2) = get (Namespace (wfMeta v)) (Name (wfMeta v)) n1
                in case got of
                     Inl _ \<Rightarrow> (Some (Errorf ''tried to update status of wf %v, but got error''), v, n2)
                   | Inr g \<Rightarrow> update_loop upd get (Suc i) (ResourceVersion (wfMeta g)) v n2))"
  by (subst update_loop.simps) (simp add: with_rv_def Let_def)

text \<open>
  From try \<open>i\<close> on: at most \<open>4 - i\<close> more updates and \<open>3 - i\<close> more reads, everything sent is the
  workflow itself but for the resource version, and success means that it was sent.
\<close>

definition sent_ok ::
  "('n \<Rightarrow> string list) \<Rightarrow> ('n \<Rightarrow> nat) \<Rightarrow> (Workflow \<Rightarrow> string option) \<Rightarrow>
   nat \<Rightarrow> Workflow \<Rightarrow> 'n \<Rightarrow> go_error option \<Rightarrow> Workflow \<Rightarrow> 'n \<Rightarrow> bool" where
  "sent_ok puts gets wire k w n err w' n' \<longleftrightarrow>
     (\<exists>rv'. w' = with_rv w rv')
     \<and> (\<exists>bs. puts n' = puts n @ bs \<and> length bs \<le> Suc k
            \<and> (\<forall>b \<in> set bs. \<exists>rv'. wire (with_rv w rv') = Some b)
            \<and> (err = None \<longrightarrow> bs \<noteq> [] \<and> wire w' = Some (last bs)))
     \<and> gets n' \<le> gets n + k"

context workflow_interface
begin

lemma sent_ok_last:
  assumes "upd (with_rv w rv) n = (res, n1)" and "err = None \<longleftrightarrow> \<not> isl res"
    and "puts n2 = puts n1" and "gets n2 \<le> gets n1 + k"
  shows "sent_ok puts gets wire k w n err (with_rv w rv) n2"
  unfolding sent_ok_def
proof (intro conjI)
  from upd_puts [OF assms(1)] obtain bs where "puts n1 = puts n @ bs" "length bs \<le> 1"
    "\<forall>b \<in> set bs. wire (with_rv w rv) = Some b" "\<not> isl res \<longrightarrow> bs \<noteq> []"
  proof (elim disjE exE conjE)
    assume "puts n1 = puts n" "isl res"
    then show thesis using that [of "[]"] by simp
  next
    fix b assume "wire (with_rv w rv) = Some b" "puts n1 = puts n @ [b]"
    then show thesis using that [of "[b]"] by simp
  qed
  then show "\<exists>bs. puts n2 = puts n @ bs \<and> length bs \<le> Suc k \<and> (\<forall>b \<in> set bs. \<exists>rv'. wire (with_rv w rv') = Some b)
      \<and> (err = None \<longrightarrow> bs \<noteq> [] \<and> wire (with_rv w rv) = Some (last bs))"
    using assms(2,3) by (intro exI [of _ bs]) (auto intro: last_in_set)
  show "gets n2 \<le> gets n + k" using upd_gets [OF assms(1)] assms(4) by simp
qed blast

lemma sent_ok_more:
  assumes "upd (with_rv w rv) n = (res, n1)" and "get a b n1 = (got, n2)"
    and "sent_ok puts gets wire k (with_rv w rv) n2 err w' n'"
  shows "sent_ok puts gets wire (Suc k) w n err w' n'"
proof -
  from upd_puts [OF assms(1)] obtain cs where
    cs: "puts n1 = puts n @ cs" "length cs \<le> 1" "\<forall>b \<in> set cs. wire (with_rv w rv) = Some b"
  proof (elim disjE exE conjE)
    assume "puts n1 = puts n" "isl res"
    then show thesis using that [of "[]"] by simp
  next
    fix b assume "wire (with_rv w rv) = Some b" "puts n1 = puts n @ [b]"
    then show thesis using that [of "[b]"] by simp
  qed
  from assms(3) obtain bs where bs: "puts n' = puts n2 @ bs" "length bs \<le> Suc k"
      "\<forall>b \<in> set bs. \<exists>rv'. wire (with_rv w rv') = Some b"
      "err = None \<longrightarrow> bs \<noteq> [] \<and> wire w' = Some (last bs)"
    by (auto simp: sent_ok_def)
  have "puts n' = puts n @ cs @ bs" using get_puts [OF assms(2)] cs(1) bs(1) by simp
  moreover have "gets n' \<le> gets n + Suc k"
    using upd_gets [OF assms(1)] get_gets [OF assms(2)] assms(3) by (simp add: sent_ok_def)
  moreover have "\<forall>b \<in> set (cs @ bs). \<exists>rv'. wire (with_rv w rv') = Some b" using cs(3) bs(3) by auto
  moreover have "\<exists>rv'. w' = with_rv w rv'" using assms(3) by (auto simp: sent_ok_def)
  moreover have "length (cs @ bs) \<le> Suc (Suc k)" using cs(2) bs(2) by simp
  moreover have "err = None \<longrightarrow> cs @ bs \<noteq> [] \<and> wire w' = Some (last (cs @ bs))" using bs(4) by simp
  ultimately show ?thesis unfolding sent_ok_def by blast
qed

lemma update_loop_bounded:
  "update_loop upd get i rv w n = (err, w', n') \<Longrightarrow> k = retryOnStatusConflict - i \<Longrightarrow>
     sent_ok puts gets wire k w n err w' n'"
proof (induction k arbitrary: i rv w n)
  case 0
  obtain res n1 where u: "upd (with_rv w rv) n = (res, n1)" by fastforce
  with 0 have "w' = with_rv w rv \<and> n' = n1 \<and> (err = None \<longleftrightarrow> \<not> isl res)"
    by (subst (asm) update_loop_unfold) (auto simp: Let_def split: sum.splits)
  with u show ?case using sent_ok_last [of w rv n res n1 err n1 0] by simp
next
  case (Suc k)
  obtain res n1 where u: "upd (with_rv w rv) n = (res, n1)" by fastforce
  obtain got n2 where g: "get (Namespace (wfMeta (with_rv w rv))) (Name (wfMeta (with_rv w rv))) n1 = (got, n2)"
    by fastforce
  note eq = Suc.prems(1) [unfolded update_loop_unfold [of upd get i] Let_def u g, simplified]
  have less: "\<not> retryOnStatusConflict \<le> i" using Suc.prems(2) by simp
  consider (ended) "w' = with_rv w rv" "n' = n1" "err = None \<longleftrightarrow> \<not> isl res"
    | (failed) "w' = with_rv w rv" "n' = n2" "err \<noteq> None" "isl res"
    | (again) rv' where "update_loop upd get (Suc i) rv' (with_rv w rv) n2 = (err, w', n')"
    using eq less g by (cases res; cases got) (auto split: if_splits)
  then show ?case
  proof cases
    case ended
    with u show ?thesis using sent_ok_last [of w rv n res n1 err n1 "Suc k"] by simp
  next
    case failed
    with u g show ?thesis
      using sent_ok_last [of w rv n res n1 err n2 "Suc k"] get_puts [OF g] get_gets [OF g] by simp
  next
    case again
    have "k = retryOnStatusConflict - Suc i" using Suc.prems(2) by simp
    from Suc.IH [OF again this] show ?thesis by (rule sent_ok_more [OF u g])
  qed
qed

lemma updateWorkflowStatus_sent:
  "updateWorkflowStatus upd get w n = (err, w', n') \<Longrightarrow> sent_ok puts gets wire 3 w n err w' n'"
  using update_loop_bounded [of 0 _ w n err w' n' 3]
  by (simp add: updateWorkflowStatus_def retryOnStatusConflict_def)

end

text \<open>
  C33. The retry loop ends after at most four updates and three reads; what it sends is the
  workflow it was given but for the resource version (a change made by others in between is
  overwritten, not merged), and it reports success only if the last thing sent is the workflow it
  leaves behind.
\<close>

theorem updateWorkflowStatus_sends:
  assumes "updateWorkflowStatus (client_update tp cd c) (client_get tp cd c) w n = (err, w', n')"
  shows "(\<exists>rv. w' = with_rv w rv) \<and> net_gets n' \<le> net_gets n + 3
     \<and> (\<exists>bs. net_puts n' = net_puts n @ bs \<and> length bs \<le> 4
            \<and> (\<forall>b \<in> set bs. \<exists>rv. marshal cd (with_rv w rv) = Inr b)
            \<and> (err = None \<longrightarrow> bs \<noteq> [] \<and> marshal cd w' = Inr (last bs)))"
proof -
  have wire: "(case marshal cd v of Inl _ \<Rightarrow> None | Inr b \<Rightarrow> Some b) = Some b \<longleftrightarrow> marshal cd v = Inr b" for v b
    by (auto split: sum.splits)
  show ?thesis
    using tp_client.updateWorkflowStatus_sent [OF assms] unfolding sent_ok_def wire by auto
qed

text \<open>
  C34. Changes others made are lost.  The server holds one workflow, \<open>held n\<close>, and refuses an update
  with another resource version than its own.  Whatever it holds - another spec, a pause label - the
  retry loop succeeds, and afterwards the server holds the controller's copy: the refusal that was
  meant to protect the other change is answered by sending the same copy under the new version.
\<close>

theorem concurrent_change_lost:
  fixes held :: "'n \<Rightarrow> Workflow"
  assumes upd: "\<And>v n. ResourceVersion (wfMeta v) = ResourceVersion (wfMeta (held n)) \<Longrightarrow>
        \<exists>x n' rv. upd v n = (Inr x, n') \<and> held n' = with_rv v rv"
    and refused: "\<And>v n. ResourceVersion (wfMeta v) \<noteq> ResourceVersion (wfMeta (held n)) \<Longrightarrow>
        upd v n = (Inl (StatusError ReasonConflict), n)"
    and get: "\<And>ns nm n. get ns nm n = (Inr (held n), n)"
  shows "\<exists>w' n' rv. updateWorkflowStatus upd get w n = (None, w', n') \<and> held n' = with_rv w rv"
proof -
  have same: "\<exists>w' n' rv'. update_loop upd get i rv v n = (None, w', n') \<and> held n' = with_rv v rv'"
    if rv: "rv = ResourceVersion (wfMeta (held n))" for i rv v
  proof -
    have "ResourceVersion (wfMeta (with_rv v rv)) = ResourceVersion (wfMeta (held n))" by (simp add: with_rv_def rv)
    from upd [OF this] obtain x n' rv' where "upd (with_rv v rv) n = (Inr x, n')" "held n' = with_rv v rv'" by auto
    then show ?thesis by (subst update_loop_unfold) (auto simp: Let_def)
  qed
  show ?thesis
  proof (cases "ResourceVersion (wfMeta w) = ResourceVersion (wfMeta (held n))")
    case True
    then show ?thesis unfolding updateWorkflowStatus_def by (rule same)
  next
    case False
    with refused [of w n] have "updateWorkflowStatus upd get w n =
        update_loop upd get 1 (ResourceVersion (wfMeta (held n))) w n"
      unfolding updateWorkflowStatus_def
      by (subst update_loop_unfold) (simp add: Let_def with_rv_same get retryOnStatusConflict_def)
    with same [OF refl, of 1 w] show ?thesis by simp
  qed
qed

section \<open>The first pass\<close>

text \<open>
  The first pass over a workflow only sets its defaults: the UID label is added to its labels
  and to its selector, which is made if there is none, the statuses become an empty map and the
  start time is set; steps, other labels and match expressions stay, and no job is created.
\<close>

theorem process_sets_defaults:
  assumes "map_get (Labels (wfMeta w)) WorkflowUIDLabel = None" and "process env w st = Some (b, w', st')"
  shows "b \<and> st' = st \<and> Labels (wfMeta w') = Some (fmupd WorkflowUIDLabel (UID (wfMeta w)) (wf_labels w))
     \<and> Statuses (Status w') = Some fmempty \<and> StartTime (Status w') = Some (teNow env)
     \<and> Steps (Spec w') = Steps (Spec w)
     \<and> (\<exists>sel. JobsSelector (Spec w') = Some sel \<and>
          sel = (case JobsSelector (Spec w) of
                   None \<Rightarrow> \<lparr>MatchLabels = Some (fmupd WorkflowUIDLabel (UID (wfMeta w)) fmempty), MatchExpressions = []\<rparr>
                 | Some s \<Rightarrow> s\<lparr>MatchLabels := Some (fmupd WorkflowUIDLabel (UID (wfMeta w)) (entries (MatchLabels s)))\<rparr>))"
proof -
  have add: "m ++\<^sub>f fmupd k v fmempty = fmupd k v m" for m :: "string gomap" and k v by simp
  obtain d where d: "SetDefaults (teNow env) w = Some d" "b" "w' = d" "st' = st"
    using assms by (auto simp: process_def)
  show ?thesis
  proof (cases "JobsSelector (Spec w)")
    case None
    with d show ?thesis
      by (auto simp: SetDefaults_def SetUID_def Let_def setLabels_labels add)
  next
    case (Some s)
    with d show ?thesis
      by (cases "MatchLabels s") (auto simp: SetDefaults_def SetUID_def Let_def setLabels_labels add)
  qed
qed

section \<open>Validation before work\<close>

lemma processSteps_frame:
  assumes "processSteps env w st = Some (b, w', st')"
  shows "wfMeta w' = wfMeta w \<and> Spec w' = Spec w"
proof -
  from assms obtain n c v where
    loop: "steps_loop env (wf_steps w) (teRange env) (False, True, w, st) = Some (n, c, v, st')"
    and v: "w' = v \<or> w' = AddCompleteCondition (teNow env) v"
    by (auto simp: processSteps_def split: option.splits if_splits)
  from steps_loop_frame [OF loop] v show ?thesis by auto
qed

text \<open>The three ways a workflow that has its UID label goes.\<close>

lemma process_cases:
  assumes "Labels (wfMeta w) = Some ls" and "fmlookup ls WorkflowUIDLabel \<noteq> None"
  shows "process env w st =
     (if fmlookup ls workflowValidLabel = None \<or> fmlookup ls workflowValidLabel = Some falseString then
        (if isWorkflowValid env w
         then map_option (\<lambda>(b, w', st'). (True, w', st'))
                (processSteps env (set_meta_labels (Some (fmupd workflowValidLabel trueString ls)) w) st)
         else Some (fmlookup ls workflowValidLabel = None,
                    set_meta_labels (Some (fmupd workflowValidLabel falseString ls)) w, st))
      else processSteps env w st)"
proof -
  obtain u where "fmlookup ls WorkflowUIDLabel = Some u" using assms(2) by auto
  with assms(1) show ?thesis
    by (simp add: process_def Let_def FormatBool_def trueString_def falseString_def)
qed

lemma isWorkflowValid_dag:
  assumes "isWorkflowValid env w" and "range_order (wf_steps w) (teStepOrder env)"
  shows "acyclic (deps (wf_steps w)) \<and> no_missing_deps (wf_steps w)"
proof -
  have "ValidateWorkflowSteps (wf_steps w) (teStepOrder env) [Child ''spec'', Child ''steps''] = []"
    using assms(1) by (simp add: isWorkflowValid_def ValidateWorkflow_def ValidateWorkflowSpec_def split: if_splits)
  then show ?thesis using ValidateWorkflowSteps_Nil [OF assms(2)] by blast
qed


section \<open>Transitions\<close>

definition paused :: "Workflow \<Rightarrow> bool" where
  "paused w \<longleftrightarrow> map_get (Labels (wfMeta w)) workflowPauseLabel = Some trueString"

lemma preconditionsMet_iff: "preconditionsMet synced w \<longleftrightarrow> synced \<and> \<not> IsFinished w \<and> \<not> paused w"
  by (simp add: preconditionsMet_def paused_def)

text \<open>
  A transition for a workflow that is gone forgets that workflow's expectations and keeps all
  others; one for a finished or paused workflow, or before the job store is synced, changes
  nothing at all.  Whether the skipped workflow is queued again depends only on the second look at
  the sync state: if the store became synced between the two looks, a live workflow is dropped
  although nothing was done for it.
\<close>

theorem transitionWorkflow_skips:
  assumes "transitionWorkflow env uh synced1 synced2 key (st, n, store) = Some r"
    and "case workflowByKey store key of None \<Rightarrow> True | Some w \<Rightarrow> \<not> synced1 \<or> IsFinished w \<or> paused w"
  shows "if workflowByKey store key = None
         then \<not> requeue r \<and> snd (transState r) = (n, store) \<and> ctl (fst (transState r)) = ctl st
            \<and> (\<forall>now k s. ExpectationsForStepSatisfied now (exps (fst (transState r))) k s \<longleftrightarrow>
                 k = key \<or> ExpectationsForStepSatisfied now (exps st) k s)
         else transState r = (st, n, store) \<and> transErr r = None \<and> (requeue r \<longleftrightarrow> \<not> synced2)"
  using assms
  by (auto simp: transitionWorkflow_def preconditionsMet_iff exps.satisfied_forget
      split: option.splits if_splits)

text \<open>
  When the preconditions hold the transition does the pass's work, asks to be queued again
  exactly if an update was needed and failed, and updates the server only if the pass says so;
  after a successful or unneeded update it relies on the watch for the next round.
\<close>

theorem transitionWorkflow_works:
  assumes "transitionWorkflow env uh True synced2 key (st, n, store) = Some r"
    and "workflowByKey store key = Some w" and "\<not> IsFinished w" and "\<not> paused w"
    and "process env w st = Some (b, w', st')"
  shows "fst (transState r) = st'
     \<and> (requeue r \<longleftrightarrow> b \<and> fst (uh w' n) \<noteq> None) \<and> (requeue r \<longleftrightarrow> transErr r \<noteq> None)
     \<and> (requeue r \<longrightarrow> requeueAfter r = requeueAfterStatusConflictTime)
     \<and> fst (snd (transState r)) = (if b then snd (snd (uh w' n)) else n)
     \<and> (\<forall>k. k \<noteq> key \<longrightarrow> workflowByKey (snd (snd (transState r))) k = workflowByKey store k)"
  using assms
  by (auto simp: transitionWorkflow_def preconditionsMet_iff workflowByKey_def Store_GetByKey_def Let_def
      split: if_splits option.splits prod.splits)

section \<open>What sharing maps with the cache costs\<close>

lemma set_defaults_cached:
  assumes "map_get (Labels (wfMeta w)) WorkflowUIDLabel = None" and "Labels (wfMeta w) = Some ls"
    and "process env w st = Some (b, w', st')"
  shows "Labels (wfMeta (cached_after w w')) = Some (fmupd WorkflowUIDLabel (UID (wfMeta w)) ls)
     \<and> Statuses (Status (cached_after w w')) = Statuses (Status w)
     \<and> (JobsSelector (Spec w) = None \<longrightarrow> JobsSelector (Spec (cached_after w w')) = None)
     \<and> Conditions (Status (cached_after w w')) = Conditions (Status w)"
proof -
  have "Labels (wfMeta w') = Some (fmupd WorkflowUIDLabel (UID (wfMeta w)) ls)"
    using assms by (auto simp: process_def SetDefaults_def SetUID_def Let_def setLabels_def
        split: option.splits)
  with assms(1,2) show ?thesis
    by (auto simp: cached_after_def Let_def set_statuses_def set_selector_def set_meta_labels_def)
qed

lemma no_selector_invalid:
  "JobsSelector (Spec w) = None \<Longrightarrow> \<not> isWorkflowValid env w"
  by (simp add: isWorkflowValid_def ValidateWorkflow_def ValidateWorkflowSpec_def)

text \<open>
  C36. The pass that sets the defaults writes the UID label into the label map it shares with the
  cache, while the selector it makes stays with its copy.  If the update to the server then fails,
  the requeued workflow has the label but no selector: no later pass sets its defaults again, and
  the next one marks the workflow, which nobody changed, invalid.
\<close>

theorem lost_defaults_invalidate:
  fixes env :: "'c tenv"
  assumes "map_get (Labels (wfMeta w)) WorkflowUIDLabel = None" and "Labels (wfMeta w) = Some ls"
    and "fmlookup ls workflowValidLabel = None" and "JobsSelector (Spec w) = None"
    and "workflowByKey store key = Some w" and "\<not> IsFinished w" and "\<not> paused w"
    and "\<And>v m. fst (uh v m) \<noteq> None"
    and "transitionWorkflow env uh True synced2 key (st, n, store) = Some r"
  shows "requeue r
     \<and> (\<exists>w1. workflowByKey (snd (snd (transState r))) key = Some w1
          \<and> map_get (Labels (wfMeta w1)) WorkflowUIDLabel = Some (UID (wfMeta w))
          \<and> (\<forall>(env' :: 'c tenv) st'. \<exists>w2. process env' w1 st' = Some (True, w2, st')
               \<and> map_get (Labels (wfMeta w2)) workflowValidLabel = Some falseString))"
proof -
  from assms(1,4) obtain b w' st' where p: "process env w st = Some (b, w', st')"
    using SetUID_Some_iff [of "w\<lparr>Status := (Status w)\<lparr>Statuses := Some fmempty, StartTime := Some (teNow env)\<rparr>\<rparr>"]
    by (fastforce simp: process_def SetDefaults_def)
  with assms(1) have b: "b" by (auto simp: process_def)
  let ?w1 = "cached_after w w'"
  obtain e w'' n' where "uh w' n = (Some e, w'', n')"
    using assms(8) by (metis not_None_eq prod.collapse)
  with assms(5-7,9) p b have "requeue r \<and> workflowByKey (snd (snd (transState r))) key = Some ?w1"
    by (auto simp: transitionWorkflow_def preconditionsMet_iff workflowByKey_def Store_GetByKey_def)
  moreover note c = set_defaults_cached [OF assms(1,2) p]
  moreover have "\<exists>w2. process env' ?w1 st2 = Some (True, w2, st2)
      \<and> map_get (Labels (wfMeta w2)) workflowValidLabel = Some falseString" for env' :: "'c tenv" and st2
  proof -
    have l: "Labels (wfMeta ?w1) = Some (fmupd WorkflowUIDLabel (UID (wfMeta w)) ls)"
      and "fmlookup (fmupd WorkflowUIDLabel (UID (wfMeta w)) ls) WorkflowUIDLabel \<noteq> None" using c by simp_all
    note pc = process_cases [OF this, of env' st2]
    have "workflowValidLabel \<noteq> WorkflowUIDLabel" by code_simp
    with pc c assms(3,4) no_selector_invalid [of ?w1 env'] show ?thesis by simp
  qed
  ultimately show ?thesis by auto
qed

section \<open>Examples\<close>

definition fresh_workflow :: Workflow where
  "fresh_workflow = sample_workflow (Some (fmap_of_list [(''app'', ''demo'')])) (two_spec\<lparr>JobsSelector := None\<rparr>) None"

definition failing_update :: "Workflow \<Rightarrow> unit \<Rightarrow> go_error option \<times> Workflow \<times> unit" where
  "failing_update w n = (Some (Errorf ''failed''), w, n)"

definition one_cached :: "Workflow \<Rightarrow> Workflow store" where
  "one_cached w = fmupd ''default/mydag'' w fmempty"

lemma updateWorkflowStatus_sends_witness:
  "length (net_puts (snd (snd (updateWorkflowStatus (client_update keeping_server name_codec local_client)
     (client_get keeping_server name_codec local_client) (named_workflow ''a'') new_net)))) \<le> 4"
proof -
  obtain err w' n' where u: "updateWorkflowStatus (client_update keeping_server name_codec local_client)
     (client_get keeping_server name_codec local_client) (named_workflow ''a'') new_net = (err, w', n')"
    by (metis prod_cases3)
  from updateWorkflowStatus_sends [OF u] obtain bs where "net_puts n' = net_puts new_net @ bs" "length bs \<le> 4"
    by blast
  with u show ?thesis by (simp add: new_net_def net_puts_def)
qed

text \<open>A server with resource versions, on which somebody has paused the workflow.\<close>

definition versioned_update :: "Workflow \<Rightarrow> Workflow \<Rightarrow> (go_error + Workflow) \<times> Workflow" where
  "versioned_update v n =
     (if ResourceVersion (wfMeta v) = ResourceVersion (wfMeta n)
      then (let v' = with_rv v (''1'' @ ResourceVersion (wfMeta n)) in (Inr v', v'))
      else (Inl (StatusError ReasonConflict), n))"

definition versioned_get :: "string \<Rightarrow> string \<Rightarrow> Workflow \<Rightarrow> (go_error + Workflow) \<times> Workflow" where
  "versioned_get ns nm n = (Inr n, n)"

definition paused_there :: Workflow where
  "paused_there = with_rv (set_meta_labels (Some (fmap_of_list [(workflowPauseLabel, trueString)])) (two_workflow fmempty)) ''new''"

lemma concurrent_change_lost_witness:
  "\<exists>w' n'. updateWorkflowStatus versioned_update versioned_get (two_workflow fmempty) paused_there = (None, w', n')
     \<and> paused paused_there \<and> \<not> paused n'"
proof -
  obtain w' n' rv where u: "updateWorkflowStatus versioned_update versioned_get (two_workflow fmempty) paused_there = (None, w', n')"
    and n': "n' = with_rv (two_workflow fmempty) rv"
    using concurrent_change_lost [of "\<lambda>n. n" versioned_update versioned_get "two_workflow fmempty" paused_there]
    by (auto simp: versioned_update_def versioned_get_def Let_def)
  have "paused paused_there" "\<not> paused (two_workflow fmempty)" by code_simp+
  then have "\<not> paused n'" by (simp add: n' paused_def with_rv_def)
  with u \<open>paused paused_there\<close> show ?thesis by blast
qed

lemma fresh_workflow_facts:
  "map_get (Labels (wfMeta fresh_workflow)) WorkflowUIDLabel = None"
  "Labels (wfMeta fresh_workflow) = Some (fmap_of_list [(''app'', ''demo'')])"
  "fmlookup (fmap_of_list [(''app'', ''demo'')]) workflowValidLabel = None"
  "JobsSelector (Spec fresh_workflow) = None"
  "workflowByKey (one_cached fresh_workflow) ''default/mydag'' = Some fresh_workflow"
  "\<not> IsFinished fresh_workflow" "\<not> paused fresh_workflow"
  by (code_simp | simp add: fresh_workflow_def one_cached_def workflowByKey_def Store_GetByKey_def sample_workflow_def sample_meta_def)+

lemma fresh_process:
  "\<exists>w'. process (sample_env no_jobs) fresh_workflow sample_tstate = Some (True, w', sample_tstate)"
  using SetUID_Some_iff [of "fresh_workflow\<lparr>Status := (Status fresh_workflow)\<lparr>Statuses := Some fmempty, StartTime := Some 7\<rparr>\<rparr>"]
    fresh_workflow_facts(1,4)
  by (auto simp: process_def SetDefaults_def sample_env_def)

lemma process_sets_defaults_witness:
  "\<exists>w'. process (sample_env no_jobs) fresh_workflow sample_tstate = Some (True, w', sample_tstate)
     \<and> map_get (Labels (wfMeta w')) WorkflowUIDLabel = Some ''123''"
proof -
  obtain w' where p: "process (sample_env no_jobs) fresh_workflow sample_tstate = Some (True, w', sample_tstate)"
    using fresh_process by blast
  have "UID (wfMeta fresh_workflow) = ''123''" by code_simp
  with process_sets_defaults [OF fresh_workflow_facts(1) p] p show ?thesis by simp
qed


lemma transitionWorkflow_skips_witness:
  "\<exists>r. transitionWorkflow (sample_env no_jobs) failing_update False True ''default/mydag''
         (sample_tstate, (), one_cached fresh_workflow) = Some r \<and> \<not> requeue r"
proof -
  obtain r where t: "transitionWorkflow (sample_env no_jobs) failing_update False True ''default/mydag''
         (sample_tstate, (), one_cached fresh_workflow) = Some r"
    by (simp add: transitionWorkflow_def fresh_workflow_facts(5) preconditionsMet_iff)
  have "case workflowByKey (one_cached fresh_workflow) ''default/mydag'' of None \<Rightarrow> True
        | Some w \<Rightarrow> \<not> False \<or> IsFinished w \<or> paused w" by (simp add: fresh_workflow_facts(5))
  from transitionWorkflow_skips [OF t this] t show ?thesis by (simp add: fresh_workflow_facts(5))
qed

lemma fresh_transition:
  "\<exists>r. transitionWorkflow (sample_env no_jobs) failing_update True True ''default/mydag''
         (sample_tstate, (), one_cached fresh_workflow) = Some r \<and> requeue r"
  using fresh_process fresh_workflow_facts(5-7)
  by (auto simp: transitionWorkflow_def preconditionsMet_iff failing_update_def)

lemma transitionWorkflow_works_witness:
  "\<exists>r. transitionWorkflow (sample_env no_jobs) failing_update True True ''default/mydag''
         (sample_tstate, (), one_cached fresh_workflow) = Some r \<and> requeue r"
proof -
  obtain r w' where t: "transitionWorkflow (sample_env no_jobs) failing_update True True ''default/mydag''
         (sample_tstate, (), one_cached fresh_workflow) = Some r"
    and p: "process (sample_env no_jobs) fresh_workflow sample_tstate = Some (True, w', sample_tstate)"
    using fresh_transition fresh_process by blast
  from transitionWorkflow_works [OF t fresh_workflow_facts(5-7) p] t show ?thesis
    by (simp add: failing_update_def)
qed

lemma lost_defaults_invalidate_witness:
  "\<exists>r w1 w2. transitionWorkflow (sample_env no_jobs) failing_update True True ''default/mydag''
         (sample_tstate, (), one_cached fresh_workflow) = Some r
     \<and> workflowByKey (snd (snd (transState r))) ''default/mydag'' = Some w1
     \<and> process (sample_env no_jobs) w1 sample_tstate = Some (True, w2, sample_tstate)
     \<and> map_get (Labels (wfMeta w2)) workflowValidLabel = Some falseString"
proof -
  obtain r where t: "transitionWorkflow (sample_env no_jobs) failing_update True True ''default/mydag''
         (sample_tstate, (), one_cached fresh_workflow) = Some r" using fresh_transition by blast
  have f: "\<And>v m. fst (failing_update v m) \<noteq> None" by (simp add: failing_update_def)
  from lost_defaults_invalidate [OF fresh_workflow_facts f t] t show ?thesis by blast
qed

end
