(* ===== verification/WorkQueue.thy ===== *)
theory WorkQueue
  imports Prelude
begin

text \<open>
  The work queue the workers share, \<^verbatim>\<open>pkg/util/workqueue/queue.go\<close> of the vendored Kubernetes.  Every
  method runs under the queue's lock, so it is one function; \<^verbatim>\<open>Get\<close> waits on a condition variable
  while there is nothing to hand out, which is the answer \<open>Blocked\<close>.  The locale \<open>work_queue\<close> says
  what the workers rely on: a set of keys to be processed and a set of keys being processed.
\<close>

section \<open>The queue\<close>

record wqueue =
  wqQueue :: "string list"
  dirty :: "string set"
  processing :: "string set"
  shuttingDown :: bool

datatype get_result = Item string | Quit | Blocked

definition wq_New :: wqueue where
  "wq_New = \<lparr>wqQueue = [], dirty = {}, processing = {}, shuttingDown = False\<rparr>"

definition wq_Add :: "string \<Rightarrow> wqueue \<Rightarrow> wqueue" where
  "wq_Add item q =
     (if shuttingDown q then q
      else if item \<in> dirty q then q
      else
        (let q1 = q\<lparr>dirty := insert item (dirty q)\<rparr>
         in if item \<in> processing q1 then q1 else q1\<lparr>wqQueue := wqQueue q1 @ [item]\<rparr>))"

definition wq_Len :: "wqueue \<Rightarrow> nat" where
  "wq_Len q = length (wqQueue q)"

definition wq_Get :: "wqueue \<Rightarrow> get_result \<times> wqueue" where
  "wq_Get q =
     (case wqQueue q of
        [] \<Rightarrow> if \<not> shuttingDown q then (Blocked, q) else (Quit, q)
      | item # rest \<Rightarrow>
          (Item item, q\<lparr>wqQueue := rest, processing := insert item (processing q), dirty := dirty q - {item}\<rparr>))"

definition wq_Done :: "string \<Rightarrow> wqueue \<Rightarrow> wqueue" where
  "wq_Done item q =
     (let q1 = q\<lparr>processing := processing q - {item}\<rparr>
      in if item \<in> dirty q1 then q1\<lparr>wqQueue := wqQueue q1 @ [item]\<rparr> else q1)"

definition wq_ShutDown :: "wqueue \<Rightarrow> wqueue" where
  "wq_ShutDown q = q\<lparr>shuttingDown := True\<rparr>"

definition wq_ShuttingDown :: "wqueue \<Rightarrow> bool" where
  "wq_ShuttingDown q = shuttingDown q"

text \<open>The comment on the struct, and that no dirty key is forgotten.\<close>

definition wq_inv :: "wqueue \<Rightarrow> bool" where
  "wq_inv q \<longleftrightarrow> distinct (wqQueue q) \<and> set (wqQueue q) = dirty q - processing q"

section \<open>The interface\<close>

locale work_queue =
  fixes add :: "string \<Rightarrow> 'q \<Rightarrow> 'q"
    and get :: "'q \<Rightarrow> get_result \<times> 'q"
    and finish :: "string \<Rightarrow> 'q \<Rightarrow> 'q"
    and pending :: "'q \<Rightarrow> string set"
    and active :: "'q \<Rightarrow> string set"
    and closed :: "'q \<Rightarrow> bool"
    and invar :: "'q \<Rightarrow> bool"
  assumes add_pending: "pending (add x q) = (if closed q then pending q else insert x (pending q))"
    and add_active: "active (add x q) = active q"
    and get_item: "invar q \<Longrightarrow> get q = (Item x, q') \<Longrightarrow>
          x \<in> pending q - active q \<and> pending q' = pending q - {x} \<and> active q' = insert x (active q)"
    and get_nothing: "invar q \<Longrightarrow> get q = (r, q') \<Longrightarrow> (\<And>x. r \<noteq> Item x) \<Longrightarrow>
          q' = q \<and> pending q \<subseteq> active q \<and> (r = Quit \<longleftrightarrow> closed q)"
    and finish_pending: "pending (finish x q) = pending q"
    and finish_active: "active (finish x q) = active q - {x}"
    and invar_add: "invar q \<Longrightarrow> invar (add x q)"
    and invar_get: "invar q \<Longrightarrow> get q = (r, q') \<Longrightarrow> invar q'"
    and invar_finish: "invar q \<Longrightarrow> x \<in> active q \<Longrightarrow> invar (finish x q)"

text \<open>
  What any number of goroutines do to the queue: the informers add keys, worker \<open>i\<close> takes a key
  when it has none and hands it back when it is done.  \<open>held\<close> says which worker has which key.
\<close>

inductive queue_step ::
  "(string \<Rightarrow> 'q \<Rightarrow> 'q) \<Rightarrow> ('q \<Rightarrow> get_result \<times> 'q) \<Rightarrow> (string \<Rightarrow> 'q \<Rightarrow> 'q) \<Rightarrow>
   'q \<times> (nat \<Rightarrow> string option) \<Rightarrow> 'q \<times> (nat \<Rightarrow> string option) \<Rightarrow> bool"
  for add get finish where
  q_add: "queue_step add get finish (q, held) (add x q, held)"
| q_get: "held i = None \<Longrightarrow> get q = (Item x, q') \<Longrightarrow> queue_step add get finish (q, held) (q', held(i := Some x))"
| q_done: "held i = Some x \<Longrightarrow> queue_step add get finish (q, held) (finish x q, held(i := None))"

definition held_inv :: "string set \<Rightarrow> (nat \<Rightarrow> string option) \<Rightarrow> bool" where
  "held_inv act held \<longleftrightarrow> ran held = act \<and> inj_on held (dom held)"

context work_queue
begin

text \<open>The workers hold exactly the active keys, and no two hold the same.\<close>

lemma held_step:
  assumes "queue_step add get finish (q, held) (q', held')" and "invar q" and "held_inv (active q) held"
  shows "invar q' \<and> held_inv (active q') held'"
  using assms(1)
proof (cases rule: queue_step.cases)
  case (q_add x)
  with assms(2,3) show ?thesis by (simp add: invar_add add_active)
next
  case (q_get i x)
  then have free: "held i = None" and g: "get q = (Item x, q')" and h: "held' = held(i := Some x)" by auto
  from get_item [OF assms(2) g] have new: "x \<notin> ran held" and act: "active q' = insert x (active q)"
    using assms(3) by (auto simp: held_inv_def)
  have "ran held' = insert x (ran held)" using free h by (simp add: ran_map_upd)
  moreover have "inj_on held' (dom held')"
    using assms(3) new unfolding held_inv_def inj_on_def h
    by (auto simp: ran_def split: if_splits)
  ultimately show ?thesis
    using invar_get [OF assms(2) g] act assms(3) by (simp add: held_inv_def)
next
  case (q_done i x)
  then have has: "held i = Some x" and q': "q' = finish x q" and h: "held' = held(i := None)" by auto
  have inj: "inj_on held (dom held)" and ran: "ran held = active q" using assms(3) by (auto simp: held_inv_def)
  have "ran held' = ran held - {x}"
  proof (intro equalityI subsetI)
    fix y assume "y \<in> ran held'"
    then obtain j where "j \<noteq> i" "held j = Some y" by (auto simp: ran_def h split: if_splits)
    moreover from this inj has have "y \<noteq> x" by (metis domI inj_onD)
    ultimately show "y \<in> ran held - {x}" by (auto intro: ranI)
  next
    fix y assume "y \<in> ran held - {x}"
    then obtain j where "held j = Some y" "y \<noteq> x" by (auto simp: ran_def)
    with has show "y \<in> ran held'" by (auto simp: h ran_def intro!: exI [of _ j])
  qed
  moreover have "inj_on held' (dom held')" using inj h by (auto simp: inj_on_def dom_def)
  moreover have "x \<in> active q" using ran has by (auto intro: ranI)
  ultimately show ?thesis
    using q' ran invar_finish [OF assms(2)] by (simp add: held_inv_def finish_active)
qed

lemma held_reachable:
  assumes "(queue_step add get finish)\<^sup>*\<^sup>* (q, held) (q', held')" and "invar q" and "held_inv (active q) held"
  shows "invar q' \<and> held_inv (active q') held'"
  using assms(1)
proof (induction "(q', held')" arbitrary: q' held' rule: rtranclp_induct)
  case base
  with assms(2,3) show ?case by simp
next
  case (step s)
  obtain q1 held1 where "s = (q1, held1)" by fastforce
  with step held_step show ?case by blast
qed

text \<open>
  A key that was added is taken again: after the add it stays pending until a worker gets it, even
  if another worker holds it at the time of the add.
\<close>

lemma pending_step:
  assumes "queue_step add get finish (q, held) (q', held')" and "invar q" and "x \<in> pending q"
  shows "x \<in> pending q' \<or> (\<exists>i. held i = None \<and> held' i = Some x)"
  using assms(1)
proof (cases rule: queue_step.cases)
  case (q_get i y)
  then have "held i = None" "get q = (Item y, q')" "held' = held(i := Some y)" by auto
  with get_item [OF assms(2)] assms(3) show ?thesis by (cases "x = y") auto
qed (use assms(3) in \<open>auto simp: add_pending finish_pending\<close>)

end

section \<open>The queue implements the interface\<close>

lemma wq_inv_New: "wq_inv wq_New"
  by (simp add: wq_inv_def wq_New_def)

lemma wq_inv_Add: "wq_inv q \<Longrightarrow> wq_inv (wq_Add x q)"
  by (auto simp: wq_inv_def wq_Add_def Let_def)

lemma wq_inv_Get: "wq_inv q \<Longrightarrow> wq_Get q = (r, q') \<Longrightarrow> wq_inv q'"
  by (auto simp: wq_inv_def wq_Get_def split: list.splits if_splits)

lemma wq_inv_Done: "wq_inv q \<Longrightarrow> x \<in> processing q \<Longrightarrow> wq_inv (wq_Done x q)"
  by (auto simp: wq_inv_def wq_Done_def Let_def)

interpretation wq: work_queue wq_Add wq_Get wq_Done dirty processing shuttingDown wq_inv
proof (unfold_locales, goal_cases)
  case (1 x q)
  then show ?case by (auto simp: wq_Add_def Let_def)
next
  case (2 x q)
  then show ?case by (auto simp: wq_Add_def Let_def)
next
  case (3 q x q')
  from 3(2) obtain rest where rest: "wqQueue q = x # rest"
    and q': "q' = q\<lparr>wqQueue := rest, processing := insert x (processing q), dirty := dirty q - {x}\<rparr>"
    by (auto simp: wq_Get_def split: list.splits if_splits)
  have "x \<in> set (wqQueue q)" using rest by simp
  with 3(1) have "x \<in> dirty q - processing q" by (simp add: wq_inv_def)
  with q' show ?case by simp
next
  case (4 q r q')
  have "wqQueue q = []" using 4(2) 4(3) by (auto simp: wq_Get_def split: list.splits)
  with 4(1,2) show ?case by (auto simp: wq_Get_def wq_inv_def split: if_splits)
next
  case (5 x q)
  then show ?case by (auto simp: wq_Done_def Let_def)
next
  case (6 x q)
  then show ?case by (auto simp: wq_Done_def Let_def)
next
  case (7 q x)
  then show ?case by (rule wq_inv_Add)
next
  case (8 q r q')
  then show ?case by (rule wq_inv_Get)
next
  case (9 q x)
  then show ?case by (rule wq_inv_Done)
qed

section \<open>The queue under any number of workers\<close>

definition idle :: "nat \<Rightarrow> string option" where
  "idle i = None"

abbreviation wq_step :: "wqueue \<times> (nat \<Rightarrow> string option) \<Rightarrow> wqueue \<times> (nat \<Rightarrow> string option) \<Rightarrow> bool" where
  "wq_step \<equiv> queue_step wq_Add wq_Get wq_Done"

lemma held_inv_idle: "held_inv {} idle"
  by (simp add: held_inv_def idle_def dom_def ran_def)

text \<open>
  C31. Whatever the informers add and however the workers' calls interleave, from a new queue on no
  two workers ever hold the same key, a held key is not in the queue, and the queue never holds a
  key twice.
\<close>

theorem workers_exclusive:
  assumes "wq_step\<^sup>*\<^sup>* (wq_New, idle) (q, held)"
  shows "(\<forall>i j k. held i = Some k \<and> held j = Some k \<longrightarrow> i = j)
     \<and> (\<forall>i k. held i = Some k \<longrightarrow> k \<notin> set (wqQueue q)) \<and> distinct (wqQueue q)"
proof -
  have "wq_inv q \<and> held_inv (processing q) held"
    using wq.held_reachable [OF assms wq_inv_New] held_inv_idle by (simp add: wq_New_def)
  then show ?thesis
    by (auto simp: held_inv_def wq_inv_def inj_on_def dom_def ran_def)
qed

lemma pending_reachable:
  assumes "wq_step\<^sup>*\<^sup>* (q, held) (q', held')" and "wq_inv q" and "held_inv (processing q) held" and "k \<in> dirty q"
  shows "k \<in> dirty q' \<or> (\<exists>i a b. wq_step\<^sup>*\<^sup>* (q, held) a \<and> wq_step a b \<and> wq_step\<^sup>*\<^sup>* b (q', held')
           \<and> snd a i = None \<and> snd b i = Some k)"
  using assms(1)
proof (induction "(q', held')" arbitrary: q' held' rule: rtranclp_induct)
  case base
  with assms(4) show ?case by simp
next
  case (step s)
  obtain q1 held1 where s: "s = (q1, held1)" by fastforce
  have inv: "wq_inv q1" using wq.held_reachable [OF step(1) [unfolded s] assms(2,3)] by simp
  from step(3) [OF s] show ?case
  proof (elim disjE exE conjE)
    assume "k \<in> dirty q1"
    from wq.pending_step [OF step(2) [unfolded s] inv this] show ?thesis
      using step(1,2) s by fastforce
  next
    fix i a b
    assume "wq_step\<^sup>*\<^sup>* (q, held) a" "wq_step a b" "wq_step\<^sup>*\<^sup>* b (q1, held1)" "snd a i = None" "snd b i = Some k"
    with step(2) s show ?thesis by (meson rtranclp.rtrancl_into_rtrancl)
  qed
qed

text \<open>
  No request is lost: a key added to a queue that is not shutting down is, at every later
  moment, still waiting to be processed or has been handed to a worker after the add - also when
  it was being processed at the time of the add.
\<close>

theorem added_key_is_served:
  assumes "wq_step\<^sup>*\<^sup>* (wq_New, idle) (q, held)" and "\<not> shuttingDown q"
    and "wq_step\<^sup>*\<^sup>* (wq_Add k q, held) (q', held')"
  shows "k \<in> dirty q' \<or> (\<exists>i a b. wq_step\<^sup>*\<^sup>* (wq_Add k q, held) a \<and> wq_step a b \<and> wq_step\<^sup>*\<^sup>* b (q', held')
           \<and> snd a i = None \<and> snd b i = Some k)"
proof (rule pending_reachable [OF assms(3)])
  have inv: "wq_inv q \<and> held_inv (processing q) held"
    using wq.held_reachable [OF assms(1) wq_inv_New] held_inv_idle by (simp add: wq_New_def)
  then show "wq_inv (wq_Add k q)" by (simp add: wq_inv_Add)
  show "held_inv (processing (wq_Add k q)) held" using inv wq.add_active by simp
  show "k \<in> dirty (wq_Add k q)" using assms(2) wq.add_pending by simp
qed

fun gets_in_a_row :: "nat \<Rightarrow> wqueue \<Rightarrow> get_result list \<times> wqueue" where
  "gets_in_a_row 0 q = ([], q)"
| "gets_in_a_row (Suc n) q =
     (let (r, q1) = wq_Get q; (rs, q2) = gets_in_a_row n q1 in (r # rs, q2))"

text \<open>
  The queue is first in, first out: the keys handed out by a run of Gets are the front of the
  queue in order, so a key at position \<open>n\<close> is taken by the Get number \<open>n + 1\<close>.
\<close>

theorem queue_fifo:
  "n \<le> length (wqQueue q) \<Longrightarrow>
     fst (gets_in_a_row n q) = map Item (take n (wqQueue q))
     \<and> wqQueue (snd (gets_in_a_row n q)) = drop n (wqQueue q)"
proof (induction n arbitrary: q)
  case (Suc n)
  then obtain x rest where x: "wqQueue q = x # rest" by (cases "wqQueue q") auto
  define q1 where "q1 = q\<lparr>wqQueue := rest, processing := insert x (processing q), dirty := dirty q - {x}\<rparr>"
  have "wq_Get q = (Item x, q1)" using x by (simp add: wq_Get_def q1_def)
  moreover have "wqQueue q1 = rest" by (simp add: q1_def)
  ultimately show ?case
    using Suc.IH [of q1] Suc.prems x by (auto simp: Let_def split: prod.splits)
qed simp

section \<open>Examples\<close>

definition taken :: wqueue where
  "taken = snd (wq_Get (wq_Add ''k'' wq_New))"

lemma taken_reachable: "wq_step\<^sup>*\<^sup>* (wq_New, idle) (taken, idle(0 := Some ''k''))"
proof -
  have "wq_step (wq_New, idle) (wq_Add ''k'' wq_New, idle)" by (rule q_add)
  moreover have "wq_step (wq_Add ''k'' wq_New, idle) (taken, idle(0 := Some ''k''))"
    by (rule q_get) (simp_all add: idle_def taken_def wq_Add_def wq_Get_def wq_New_def Let_def)
  ultimately show ?thesis by (meson converse_rtranclp_into_rtranclp rtranclp.rtrancl_refl)
qed

lemma workers_exclusive_witness:
  "''k'' \<notin> set (wqQueue taken) \<and> distinct (wqQueue taken)"
  using workers_exclusive [OF taken_reachable] by (metis fun_upd_same)

lemma added_key_is_served_witness:
  "''k'' \<in> dirty (wq_Add ''k'' taken) \<and> processing (wq_Add ''k'' taken) = {''k''}"
proof -
  have "\<not> shuttingDown taken" by (simp add: taken_def wq_Add_def wq_Get_def wq_New_def Let_def)
  moreover have "wq_step\<^sup>*\<^sup>* (wq_Add ''k'' taken, idle(0 := Some ''k'')) (wq_Add ''k'' taken, idle(0 := Some ''k''))"
    by simp
  ultimately have "''k'' \<in> dirty (wq_Add ''k'' taken) \<or> (\<exists>i a b. wq_step\<^sup>*\<^sup>* (wq_Add ''k'' taken, idle(0 := Some ''k'')) a
      \<and> wq_step a b \<and> wq_step\<^sup>*\<^sup>* b (wq_Add ''k'' taken, idle(0 := Some ''k'')) \<and> snd a i = None \<and> snd b i = Some ''k'')"
    by (rule added_key_is_served [OF taken_reachable])
  then show ?thesis
    by (simp add: taken_def wq_Add_def wq_Get_def wq_New_def Let_def)
qed

lemma queue_fifo_witness:
  "fst (gets_in_a_row 2 (wq_Add ''b'' (wq_Add ''a'' wq_New))) = [Item ''a'', Item ''b'']"
proof -
  have q: "wqQueue (wq_Add ''b'' (wq_Add ''a'' wq_New)) = [''a'', ''b'']"
    by (simp add: wq_Add_def wq_New_def Let_def)
  then have "2 \<le> length (wqQueue (wq_Add ''b'' (wq_Add ''a'' wq_New)))" by simp
  from queue_fifo [OF this] show ?thesis by (simp add: q)
qed

end
