(* ===== verification/Manager.thy ===== *)
theory Manager
  imports Transition WorkQueue
begin

text \<open>
  \<^verbatim>\<open>pkg/workflow/manager.go\<close>: the event handlers the informers call, the two informers' loop over
  the deltas (\<^verbatim>\<open>NewInformer\<close> of the vendored \<^verbatim>\<open>pkg/controller/framework\<close>), and one round of a worker.
  The state is what the goroutines of the manager share; every call below runs under the lock of
  the part it touches, so a handler or a round is one function here and goroutines interleave
  between them.  None is a panic.  \<open>so\<close> and \<open>ks\<close> are the orders in which selectors and the
  workflow cache are walked; \<open>eq\<close> is \<^verbatim>\<open>api.Semantic.DeepEqual\<close> on jobs.
\<close>

section \<open>State\<close>

text \<open>What an informer hands to a handler: an object, the tombstone of a missed deletion (whose
object may be of another type), or something else.\<close>

datatype 'o event_obj = Object 'o | DeletedFinalStateUnknown string "'o option" | OtherObject

record ('c, 'n) mstate =
  mQueue :: wqueue
  mState :: "'c tstate"
  mNet :: 'n
  mWorkflows :: "Workflow store"
  mJobs :: "Job store"
  mSlept :: "int list"

section \<open>Queueing\<close>

fun KeyFunc :: "('o \<Rightarrow> ObjectMeta) \<Rightarrow> 'o event_obj \<Rightarrow> go_error + string" where
  "KeyFunc meta (DeletedFinalStateUnknown key obj) = Inr key"
| "KeyFunc meta (Object obj) = Inr (MetaNamespaceKeyFunc (meta obj))"
| "KeyFunc meta OtherObject = Inl (Errorf ''object has no meta: %v'')"

definition enqueueWorkflow :: "Workflow event_obj \<Rightarrow> ('c, 'n) mstate \<Rightarrow> ('c, 'n) mstate" where
  "enqueueWorkflow obj m =
     (case KeyFunc wfMeta obj of
        Inl err \<Rightarrow> m
      | Inr key \<Rightarrow> m\<lparr>mQueue := wq_Add key (mQueue m)\<rparr>)"

definition enqueueAfter :: "string \<Rightarrow> int \<Rightarrow> ('c, 'n) mstate \<Rightarrow> ('c, 'n) mstate" where
  "enqueueAfter key d m =
     (let m1 = (if d > 0 then m\<lparr>mSlept := mSlept m @ [d]\<rparr> else m)
      in m1\<lparr>mQueue := wq_Add key (mQueue m1)\<rparr>)"

section \<open>Job events\<close>

definition getJobWorkflow ::
  "(Workflow \<Rightarrow> string list) \<Rightarrow> string list \<Rightarrow> Job \<Rightarrow> ('c, 'n) mstate \<Rightarrow> Workflow option option" where
  "getJobWorkflow so ks job m =
     (case GetJobWorkflows so (mWorkflows m) ks job of
        None \<Rightarrow> None
      | Some (ws, Some err) \<Rightarrow> Some None
      | Some (ws, None) \<Rightarrow> (case ws of [] \<Rightarrow> None | w # _ \<Rightarrow> Some (Some w)))"

definition label_of :: "Job \<Rightarrow> string \<Rightarrow> string" where
  "label_of job k = (case map_get (Labels (jobMeta job)) k of None \<Rightarrow> [] | Some v \<Rightarrow> v)"

definition addJob ::
  "(Workflow \<Rightarrow> string list) \<Rightarrow> string list \<Rightarrow> Job \<Rightarrow> ('c, 'n) mstate \<Rightarrow> ('c, 'n) mstate option" where
  "addJob so ks job m =
     (case getJobWorkflow so ks job m of
        None \<Rightarrow> None
      | Some None \<Rightarrow> Some m
      | Some (Some w) \<Rightarrow>
          (case KeyFunc wfMeta (Object w) of
             Inl err \<Rightarrow> Some m
           | Inr key \<Rightarrow>
               (let (err, e) = CreationObserved (exps (mState m)) key (label_of job WorkflowStepLabelKey);
                    m1 = m\<lparr>mState := (mState m)\<lparr>exps := e\<rparr>\<rparr>
                in Some (enqueueWorkflow (Object w) m1))))"

definition updateJob ::
  "(Job \<Rightarrow> Job \<Rightarrow> bool) \<Rightarrow> (Workflow \<Rightarrow> string list) \<Rightarrow> string list \<Rightarrow> Job \<Rightarrow> Job \<Rightarrow> ('c, 'n) mstate \<Rightarrow>
   ('c, 'n) mstate option" where
  "updateJob eq so ks old cur m =
     (if eq old cur then Some m
      else
        (case getJobWorkflow so ks cur m of
           None \<Rightarrow> None
         | Some None \<Rightarrow> Some m
         | Some (Some w) \<Rightarrow> Some (enqueueWorkflow (Object w) m)))"

definition deleteJob ::
  "(Workflow \<Rightarrow> string list) \<Rightarrow> string list \<Rightarrow> Job event_obj \<Rightarrow> ('c, 'n) mstate \<Rightarrow> ('c, 'n) mstate option" where
  "deleteJob so ks obj m =
     (let found = (case obj of
                     Object job \<Rightarrow> Some job
                   | DeletedFinalStateUnknown key o' \<Rightarrow> o'
                   | OtherObject \<Rightarrow> None)
      in case found of
           None \<Rightarrow> Some m
         | Some job \<Rightarrow>
             (case getJobWorkflow so ks job m of
                None \<Rightarrow> None
              | Some None \<Rightarrow> Some m
              | Some (Some w) \<Rightarrow> Some (enqueueWorkflow (Object w) m)))"

section \<open>Workflow events\<close>

text \<open>The three functions \<^verbatim>\<open>NewManager\<close> gives the workflow informer.\<close>

definition onAddWorkflow :: "Workflow \<Rightarrow> ('c, 'n) mstate \<Rightarrow> ('c, 'n) mstate" where
  "onAddWorkflow w m = enqueueWorkflow (Object w) m"

definition onUpdateWorkflow :: "Workflow \<Rightarrow> Workflow \<Rightarrow> ('c, 'n) mstate \<Rightarrow> ('c, 'n) mstate" where
  "onUpdateWorkflow old cur m =
     (if \<not> IsFinished cur then enqueueWorkflow (Object cur) m else m)"

definition onDeleteWorkflow :: "Workflow event_obj \<Rightarrow> ('c, 'n) mstate \<Rightarrow> ('c, 'n) mstate" where
  "onDeleteWorkflow obj m = enqueueWorkflow obj m"

section \<open>The informers\<close>

datatype DeltaType = Added | Updated | Deleted | Sync

text \<open>
  One delta through \<^verbatim>\<open>Process\<close>: the cache first, then the handler.  Sync, Added and Updated carry an
  object; Deleted may carry a tombstone.
\<close>

definition store_drop :: "('o \<Rightarrow> ObjectMeta) \<Rightarrow> 'o event_obj \<Rightarrow> 'o store \<Rightarrow> 'o store" where
  "store_drop meta obj s = (case KeyFunc meta obj of Inl _ \<Rightarrow> s | Inr key \<Rightarrow> fmdrop key s)"

fun process_workflow_delta :: "DeltaType \<Rightarrow> Workflow event_obj \<Rightarrow> ('c, 'n) mstate \<Rightarrow> ('c, 'n) mstate" where
  "process_workflow_delta Deleted obj m =
     onDeleteWorkflow obj (m\<lparr>mWorkflows := store_drop wfMeta obj (mWorkflows m)\<rparr>)"
| "process_workflow_delta t (Object w) m =
     (case Store_Get wfMeta (mWorkflows m) w of
        Some old \<Rightarrow> onUpdateWorkflow old w (m\<lparr>mWorkflows := Store_Update wfMeta w (mWorkflows m)\<rparr>)
      | None \<Rightarrow> onAddWorkflow w (m\<lparr>mWorkflows := Store_Add wfMeta w (mWorkflows m)\<rparr>))"
| "process_workflow_delta t obj m = m"

fun process_job_delta ::
  "(Job \<Rightarrow> Job \<Rightarrow> bool) \<Rightarrow> (Workflow \<Rightarrow> string list) \<Rightarrow> string list \<Rightarrow> DeltaType \<Rightarrow> Job event_obj \<Rightarrow>
   ('c, 'n) mstate \<Rightarrow> ('c, 'n) mstate option" where
  "process_job_delta eq so ks Deleted obj m =
     deleteJob so ks obj (m\<lparr>mJobs := store_drop jobMeta obj (mJobs m)\<rparr>)"
| "process_job_delta eq so ks t (Object job) m =
     (case Store_Get jobMeta (mJobs m) job of
        Some old \<Rightarrow> updateJob eq so ks old job (m\<lparr>mJobs := Store_Update jobMeta job (mJobs m)\<rparr>)
      | None \<Rightarrow> addJob so ks job (m\<lparr>mJobs := Store_Add jobMeta job (mJobs m)\<rparr>))"
| "process_job_delta eq so ks t obj m = Some m"

section \<open>Workers\<close>

datatype 'a round_result = Waiting | Stopping | Panicked | Round 'a

text \<open>
  One round of the loop in \<^verbatim>\<open>worker\<close>.  The deferred \<^verbatim>\<open>Done\<close> runs after \<^verbatim>\<open>enqueueAfter\<close>, so while the
  worker sleeps the key is still being processed.  \<open>transition\<close> is the transitioner's transition.
\<close>

definition worker_round ::
  "(string \<Rightarrow> 'c tstate \<times> 'n \<times> Workflow store \<Rightarrow> ('c tstate \<times> 'n \<times> Workflow store) transition_result option) \<Rightarrow>
   ('c, 'n) mstate \<Rightarrow> ('c, 'n) mstate round_result" where
  "worker_round transition m =
     (case wq_Get (mQueue m) of
        (Blocked, q1) \<Rightarrow> Waiting
      | (Quit, q1) \<Rightarrow> Stopping
      | (Item key, q1) \<Rightarrow>
          (case transition key (mState m, mNet m, mWorkflows m) of
             None \<Rightarrow> Panicked
           | Some r \<Rightarrow>
               (let (st, n, store) = transState r;
                    m1 = m\<lparr>mQueue := q1, mState := st, mNet := n, mWorkflows := store\<rparr>;
                    m2 = (if requeue r then enqueueAfter key (requeueAfter r) m1 else m1)
                in Round (m2\<lparr>mQueue := wq_Done key (mQueue m2)\<rparr>))))"

text \<open>
  The loop itself: \<open>n\<close> rounds of it.  A round that finds the queue shut down returns from the
  inner function only, so the loop goes on with the same state.
\<close>

fun worker ::
  "(string \<Rightarrow> 'c tstate \<times> 'n \<times> Workflow store \<Rightarrow> ('c tstate \<times> 'n \<times> Workflow store) transition_result option) \<Rightarrow>
   nat \<Rightarrow> ('c, 'n) mstate \<Rightarrow> ('c, 'n) mstate round_result" where
  "worker transition 0 m = Round m"
| "worker transition (Suc n) m =
     (case worker_round transition m of
        Waiting \<Rightarrow> Waiting
      | Panicked \<Rightarrow> Panicked
      | Stopping \<Rightarrow> worker transition n m
      | Round m' \<Rightarrow> worker transition n m')"

section \<open>What the handlers do\<close>

definition selects :: "Workflow \<Rightarrow> Job \<Rightarrow> bool" where
  "selects w job \<longleftrightarrow>
     entries (Labels (jobMeta job)) \<noteq> fmempty \<and> Namespace (wfMeta w) = Namespace (jobMeta job)
     \<and> selector_matches (JobsSelector (Spec w)) (entries (Labels (jobMeta job)))"

text \<open>Some workflow of the job's namespace has a selector that cannot be converted.\<close>

definition poisoned :: "('c, 'n) mstate \<Rightarrow> Job \<Rightarrow> bool" where
  "poisoned m job \<longleftrightarrow>
     entries (Labels (jobMeta job)) \<noteq> fmempty
     \<and> (\<exists>k w. fmlookup (mWorkflows m) k = Some w \<and> selector_broken (Namespace (jobMeta job)) w)"

definition orders_ok :: "(Workflow \<Rightarrow> string list) \<Rightarrow> string list \<Rightarrow> ('c, 'n) mstate \<Rightarrow> bool" where
  "orders_ok so ks m \<longleftrightarrow> range_order (mWorkflows m) ks \<and> selector_orders so (mWorkflows m)"

lemma getJobWorkflow_None:
  "orders_ok so ks m \<Longrightarrow> getJobWorkflow so ks job m = None \<longleftrightarrow> poisoned m job"
  by (auto simp: orders_ok_def getJobWorkflow_def GetJobWorkflows_spec poisoned_def Let_def
      split: list.splits)

lemma getJobWorkflow_Some:
  assumes "orders_ok so ks m" and "getJobWorkflow so ks job m = Some r"
  shows "case r of None \<Rightarrow> \<forall>k w. fmlookup (mWorkflows m) k = Some w \<longrightarrow> \<not> selects w job
         | Some w \<Rightarrow> selects w job \<and> (\<exists>k. fmlookup (mWorkflows m) k = Some w)"
proof (cases "entries (Labels (jobMeta job)) = fmempty")
  case True
  with assms show ?thesis
    by (auto simp: orders_ok_def getJobWorkflow_def GetJobWorkflows_spec selects_def Let_def)
next
  case False
  let ?P = "\<lambda>w. Namespace (wfMeta w) = Namespace (jobMeta job)
                 \<and> selector_matches (JobsSelector (Spec w)) (entries (Labels (jobMeta job)))"
  define ws where "ws = filter ?P (Store_List (mWorkflows m) ks)"
  have "\<not> poisoned m job" using getJobWorkflow_None [OF assms(1), of job] assms(2) by simp
  with False have clean: "\<not> (\<exists>k w. fmlookup (mWorkflows m) k = Some w \<and> selector_broken (Namespace (jobMeta job)) w)"
    by (simp add: poisoned_def)
  have "GetJobWorkflows so (mWorkflows m) ks job =
      Some (ws, if ws = [] then Some (Errorf ''could not find workflows for job %s'') else None)"
    using assms(1) unfolding orders_ok_def
    by (simp only: GetJobWorkflows_spec if_not_P [OF False] if_not_P [OF clean] Let_def ws_def)
  then have r: "r = (case ws of [] \<Rightarrow> None | w # _ \<Rightarrow> Some w)"
    using assms(2) by (cases ws) (auto simp: getJobWorkflow_def)
  have set: "set ws = {w. (\<exists>k. fmlookup (mWorkflows m) k = Some w) \<and> ?P w}"
    using assms(1) by (auto simp: orders_ok_def ws_def Store_List_range)
  show ?thesis
  proof (cases ws)
    case Nil
    with set r show ?thesis by (auto simp: selects_def)
  next
    case (Cons w rest)
    then have "w \<in> set ws" by simp
    with set r Cons False show ?thesis by (auto simp: selects_def)
  qed
qed

lemma enqueueWorkflow_Object:
  "enqueueWorkflow (Object w) m = m\<lparr>mQueue := wq_Add (MetaNamespaceKeyFunc (wfMeta w)) (mQueue m)\<rparr>"
  by (simp add: enqueueWorkflow_def)

lemma handler_panics:
  assumes "orders_ok so ks m"
  shows "addJob so ks job m = None \<longleftrightarrow> poisoned m job"
    and "updateJob eq so ks old job m = None \<longleftrightarrow> \<not> eq old job \<and> poisoned m job"
    and "deleteJob so ks (Object job) m = None \<longleftrightarrow> poisoned m job"
  unfolding getJobWorkflow_None [OF assms, symmetric]
  by (cases "getJobWorkflow so ks job m";
      simp add: addJob_def updateJob_def deleteJob_def Let_def split: option.split prod.split)+

text \<open>
  C32. A job event panics exactly if the job has labels and some workflow of its namespace, not
  necessarily its own, has a selector that cannot be converted; an update that changes nothing
  never looks.
\<close>

theorem job_event_panics:
  assumes "orders_ok so ks m"
  shows "process_job_delta eq so ks t (Object job) m = None \<longleftrightarrow>
           poisoned m job \<and> (t = Deleted \<or> (\<forall>old. Store_Get jobMeta (mJobs m) job = Some old \<longrightarrow> \<not> eq old job))"
proof -
  have any: "orders_ok so ks (m\<lparr>mJobs := s\<rparr>)" "poisoned (m\<lparr>mJobs := s\<rparr>) job = poisoned m job" for s
    using assms by (simp_all add: orders_ok_def poisoned_def)
  show ?thesis
    by (cases t; cases "Store_Get jobMeta (mJobs m) job") (simp_all add: handler_panics [OF any(1)] any(2) conj_commute)
qed

text \<open>
  The creation of a job that some cached workflow selects ends the expectation of the step named
  in the job's label, for one of the workflows that select it, and queues that workflow; all other
  expectations stay.  A job nobody selects changes nothing.
\<close>

theorem addJob_observed:
  assumes "orders_ok so ks m" and "addJob so ks job m = Some m'"
  shows "(m' = m \<and> (\<forall>k w. fmlookup (mWorkflows m) k = Some w \<longrightarrow> \<not> selects w job))
     \<or> (\<exists>w k. fmlookup (mWorkflows m) k = Some w \<and> selects w job
          \<and> mQueue m' = wq_Add (MetaNamespaceKeyFunc (wfMeta w)) (mQueue m)
          \<and> mWorkflows m' = mWorkflows m \<and> mJobs m' = mJobs m \<and> mNet m' = mNet m \<and> ctl (mState m') = ctl (mState m)
          \<and> (\<forall>now key s. ExpectationsForStepSatisfied now (exps (mState m')) key s \<longleftrightarrow>
               key = MetaNamespaceKeyFunc (wfMeta w) \<and> s = label_of job WorkflowStepLabelKey
               \<or> ExpectationsForStepSatisfied now (exps (mState m)) key s))"
proof -
  obtain r where r: "getJobWorkflow so ks job m = Some r" using assms(2) by (auto simp: addJob_def split: option.splits)
  note found = getJobWorkflow_Some [OF assms(1) r]
  show ?thesis
  proof (cases r)
    case None
    with r found assms(2) show ?thesis by (simp add: addJob_def)
  next
    case (Some w)
    let ?key = "MetaNamespaceKeyFunc (wfMeta w)" and ?s = "label_of job WorkflowStepLabelKey"
    let ?e = "snd (CreationObserved (exps (mState m)) ?key ?s)"
    have m': "m' = m\<lparr>mState := (mState m)\<lparr>exps := ?e\<rparr>, mQueue := wq_Add ?key (mQueue m)\<rparr>"
      using assms(2) r Some by (auto simp: addJob_def Let_def enqueueWorkflow_def split: prod.splits)
    show ?thesis
      using found Some by (auto simp: m' exps.satisfied_observed)
  qed
qed

section \<open>What a round of a worker does\<close>

text \<open>
  After a round the worker's key is no longer being processed, and it is in the queue again
  exactly if the transition asked for it and the queue is not shutting down; the round slept
  exactly when a delayed requeue was asked for.
\<close>

theorem worker_round_requeues:
  assumes "worker_round transition m = Round m'" and "wq_inv (mQueue m)"
  shows "\<exists>key r. fst (wq_Get (mQueue m)) = Item key
     \<and> transition key (mState m, mNet m, mWorkflows m) = Some r
     \<and> wq_inv (mQueue m') \<and> processing (mQueue m') = processing (mQueue m) - {key}
     \<and> (key \<in> set (wqQueue (mQueue m')) \<longleftrightarrow> requeue r \<and> \<not> shuttingDown (mQueue m))
     \<and> mSlept m' = mSlept m @ (if requeue r \<and> requeueAfter r > 0 then [requeueAfter r] else [])"
proof -
  obtain res q1 where g: "wq_Get (mQueue m) = (res, q1)" by fastforce
  with assms(1) obtain key r where key: "res = Item key"
    and t: "transition key (mState m, mNet m, mWorkflows m) = Some r"
    by (auto simp: worker_round_def split: get_result.splits option.splits)
  from wq.get_item [OF assms(2) g [unfolded key]] have act: "processing q1 = insert key (processing (mQueue m))"
    and new: "key \<notin> processing (mQueue m)" and dirty: "key \<notin> dirty q1" by auto
  have inv1: "wq_inv q1" using wq.invar_get [OF assms(2) g] .
  have sd: "shuttingDown q1 = shuttingDown (mQueue m)"
    using g by (auto simp: wq_Get_def split: list.splits if_splits)
  let ?q2 = "if requeue r then wq_Add key q1 else q1"
  have q': "mQueue m' = wq_Done key ?q2"
    and sl: "mSlept m' = mSlept m @ (if requeue r \<and> requeueAfter r > 0 then [requeueAfter r] else [])"
    using assms(1) g key t
    by (auto simp: worker_round_def Let_def enqueueAfter_def split: prod.splits)
  have act2: "processing ?q2 = insert key (processing (mQueue m))" using act wq.add_active by simp
  have inv2: "wq_inv ?q2" using inv1 wq_inv_Add by simp
  have inv': "wq_inv (mQueue m')" using wq.invar_finish [OF inv2, of key] act2 q' by simp
  have act': "processing (mQueue m') = processing (mQueue m) - {key}"
    using wq.finish_active [of key ?q2] act2 q' by auto
  have "dirty (mQueue m') = dirty ?q2" using wq.finish_pending q' by simp
  moreover have "key \<in> dirty ?q2 \<longleftrightarrow> requeue r \<and> \<not> shuttingDown (mQueue m)"
    using dirty sd wq.add_pending by simp
  moreover have "set (wqQueue (mQueue m')) = dirty (mQueue m') - processing (mQueue m')"
    using inv' by (simp add: wq_inv_def)
  ultimately have "key \<in> set (wqQueue (mQueue m')) \<longleftrightarrow> requeue r \<and> \<not> shuttingDown (mQueue m)"
    using act' by simp
  with g key t inv' act' sl show ?thesis by auto
qed

text \<open>
  A worker never ends: when the queue is shut down and drained every further round of its loop
  returns at once and changes nothing, so it spins instead of exiting as the queue's documentation
  asks.
\<close>

theorem worker_spins_after_shutdown:
  assumes "shuttingDown (mQueue m)" and "wqQueue (mQueue m) = []"
  shows "worker_round transition m = Stopping \<and> worker transition n m = Round m"
proof -
  have stop: "worker_round transition m = Stopping"
    using assms by (simp add: worker_round_def wq_Get_def)
  have "worker transition n m = Round m" by (induction n) (simp_all add: stop)
  with stop show ?thesis by blast
qed

text \<open>
  A workflow's deletion, seen by the informer (as an object or as a tombstone), leads in the next
  round of a worker on an otherwise idle queue to its expectations being forgotten: a workflow
  created anew under the same name starts without them.
\<close>

theorem deleted_workflow_forgotten:
  assumes "KeyFunc wfMeta obj = Inr key" and "mQueue m = wq_New"
  shows "\<exists>m'. worker_round (transitionWorkflow env uh synced1 synced2) (process_workflow_delta Deleted obj m) = Round m'
     \<and> workflowByKey (mWorkflows m') key = None \<and> mQueue m' = wq_New
     \<and> (\<forall>now k s. ExpectationsForStepSatisfied now (exps (mState m')) k s \<longleftrightarrow>
          k = key \<or> ExpectationsForStepSatisfied now (exps (mState m)) k s)"
proof -
  define m1 where "m1 = process_workflow_delta Deleted obj m"
  have m1: "m1 = m\<lparr>mWorkflows := fmdrop key (mWorkflows m), mQueue := wq_Add key wq_New\<rparr>"
    using assms by (simp add: m1_def onDeleteWorkflow_def enqueueWorkflow_def store_drop_def)
  have get: "wq_Get (wq_Add key wq_New) = (Item key, wq_New\<lparr>processing := {key}\<rparr>)"
    by (simp add: wq_Get_def wq_Add_def wq_New_def Let_def)
  have gone: "workflowByKey (mWorkflows m1) key = None"
    by (simp add: m1 workflowByKey_def Store_GetByKey_def)
  have trans: "transitionWorkflow env uh synced1 synced2 key (mState m1, mNet m1, mWorkflows m1) =
      Some \<lparr>requeue = False, requeueAfter = 0, transErr = None,
        transState = ((mState m)\<lparr>exps := DeleteExpectations (exps (mState m)) key\<rparr>, mNet m, mWorkflows m1)\<rparr>"
    using gone by (simp add: transitionWorkflow_def m1)
  have queue: "mQueue m1 = wq_Add key wq_New" by (simp add: m1)
  have done': "wq_Done key (wq_New\<lparr>processing := {key}\<rparr>) = wq_New"
    by (simp add: wq_Done_def wq_New_def Let_def)
  have "worker_round (transitionWorkflow env uh synced1 synced2) m1 =
      Round (m1\<lparr>mQueue := wq_New, mState := (mState m)\<lparr>exps := DeleteExpectations (exps (mState m)) key\<rparr>\<rparr>)"
    by (simp add: worker_round_def queue get trans Let_def done') (simp add: m1)
  then have "\<exists>m'. worker_round (transitionWorkflow env uh synced1 synced2) m1 = Round m'
     \<and> workflowByKey (mWorkflows m') key = None \<and> mQueue m' = wq_New
     \<and> (\<forall>now k s. ExpectationsForStepSatisfied now (exps (mState m')) k s \<longleftrightarrow>
          k = key \<or> ExpectationsForStepSatisfied now (exps (mState m)) k s)"
    using gone by (simp add: exps.satisfied_forget)
  then show ?thesis by (simp only: m1_def)
qed

section \<open>Examples\<close>

definition sample_mstate :: "Workflow store \<Rightarrow> wqueue \<Rightarrow> (call list, unit) mstate" where
  "sample_mstate ws q =
     \<lparr>mQueue = q, mState = sample_tstate, mNet = (), mWorkflows = ws, mJobs = fmempty, mSlept = []\<rparr>"

lemma job_event_panics_witness:
  "process_job_delta (\<lambda>_ _. False) (\<lambda>_. []) [''default/mydag''] Added (Object app_job)
     (sample_mstate (store_of bad_selector) wq_New) = None"
proof -
  have o: "orders_ok (\<lambda>_. []) [''default/mydag''] (sample_mstate (store_of bad_selector) wq_New)"
    unfolding orders_ok_def by (simp add: sample_mstate_def) code_simp
  have "poisoned (sample_mstate (store_of bad_selector) wq_New) app_job"
  proof -
    have "fmlookup (store_of bad_selector) ''default/mydag'' = Some (sample_workflow None (app_spec bad_selector) None)"
      "selector_broken (Namespace (jobMeta app_job)) (sample_workflow None (app_spec bad_selector) None)"
      "entries (Labels (jobMeta app_job)) \<noteq> fmempty" by code_simp+
    then show ?thesis by (auto simp: poisoned_def sample_mstate_def)
  qed
  then show ?thesis using job_event_panics [OF o, of "\<lambda>_ _. False" Added app_job] by simp
qed

lemma addJob_observed_witness:
  "\<exists>m'. addJob (\<lambda>_. [''app'']) [''default/mydag''] app_job (sample_mstate (store_of good_selector) wq_New) = Some m'
     \<and> (m' = sample_mstate (store_of good_selector) wq_New \<or> mJobs m' = fmempty)"
proof -
  let ?m = "sample_mstate (store_of good_selector) wq_New"
  have o: "orders_ok (\<lambda>_. [''app'']) [''default/mydag''] ?m"
    unfolding orders_ok_def by (simp add: sample_mstate_def) code_simp
  have "\<not> poisoned ?m app_job"
  proof -
    have "fmpred (\<lambda>k w. \<not> selector_broken (Namespace (jobMeta app_job)) w) (store_of good_selector)" by code_simp
    then show ?thesis by (auto simp: poisoned_def sample_mstate_def fmpred_iff)
  qed
  with handler_panics(1) [OF o, of app_job] obtain m' where a: "addJob (\<lambda>_. [''app'']) [''default/mydag''] app_job ?m = Some m'"
    by blast
  from addJob_observed [OF o a] a show ?thesis by (auto simp: sample_mstate_def)
qed

lemma worker_round_requeues_witness:
  "\<exists>m'. worker_round (transitionWorkflow (sample_env no_jobs) failing_update True True)
      (sample_mstate (one_cached fresh_workflow) (wq_Add ''default/mydag'' wq_New)) = Round m'
     \<and> ''default/mydag'' \<in> set (wqQueue (mQueue m'))"
proof -
  let ?t = "transitionWorkflow (sample_env no_jobs) failing_update True True"
    and ?m = "sample_mstate (one_cached fresh_workflow) (wq_Add ''default/mydag'' wq_New)"
  obtain r where r: "?t ''default/mydag'' (sample_tstate, (), one_cached fresh_workflow) = Some r" and rq: "requeue r"
    using fresh_transition by blast
  obtain q1 where q1: "wq_Get (mQueue ?m) = (Item ''default/mydag'', q1)"
    by (simp add: sample_mstate_def wq_Get_def wq_Add_def wq_New_def Let_def)
  then have g: "fst (wq_Get (mQueue ?m)) = Item ''default/mydag''" by simp
  have "?t ''default/mydag'' (mState ?m, mNet ?m, mWorkflows ?m) = Some r"
    using r by (simp add: sample_mstate_def)
  then obtain m' where w: "worker_round ?t ?m = Round m'"
    by (cases "transState r") (simp add: worker_round_def q1 Let_def)
  have i: "wq_inv (mQueue ?m)" by (simp add: sample_mstate_def wq_inv_Add wq_inv_New)
  have "\<not> shuttingDown (mQueue ?m)" by (simp add: sample_mstate_def wq_Add_def wq_New_def Let_def)
  with worker_round_requeues [OF w i] w g r rq show ?thesis by (auto simp: sample_mstate_def)
qed

lemma worker_spins_after_shutdown_witness:
  "worker (transitionWorkflow (sample_env no_jobs) failing_update True True) 1000
      (sample_mstate fmempty (wq_ShutDown wq_New)) = Round (sample_mstate fmempty (wq_ShutDown wq_New))"
proof -
  have "shuttingDown (mQueue (sample_mstate fmempty (wq_ShutDown wq_New)))"
    and "wqQueue (mQueue (sample_mstate fmempty (wq_ShutDown wq_New))) = []"
    by (simp_all add: sample_mstate_def wq_ShutDown_def wq_New_def)
  from worker_spins_after_shutdown [OF this] show ?thesis by blast
qed

lemma deleted_workflow_forgotten_witness:
  "\<exists>m'. worker_round (transitionWorkflow (sample_env no_jobs) failing_update True True)
      (process_workflow_delta Deleted (DeletedFinalStateUnknown ''default/mydag'' None)
        (sample_mstate (one_cached fresh_workflow) wq_New)) = Round m'
     \<and> workflowByKey (mWorkflows m') ''default/mydag'' = None"
proof -
  have "KeyFunc wfMeta (DeletedFinalStateUnknown ''default/mydag'' None) = Inr ''default/mydag''"
    and "mQueue (sample_mstate (one_cached fresh_workflow) wq_New) = wq_New"
    by (simp_all add: sample_mstate_def)
  from deleted_workflow_forgotten [OF this] show ?thesis by blast
qed

end
