(* ===== verification/Watch.thy ===== *)
theory Watch
  imports Client
begin

text \<open>
  \<^verbatim>\<open>Watch\<close> of \<^verbatim>\<open>pkg/client/workflows.go\<close>, which polls the server, and the watcher of
  \<^verbatim>\<open>pkg/watch/thirdparty.go\<close>.  The events carry \<^verbatim>\<open>&wf\<close>, the address of a loop variable; at the
  language version of this repository a loop has one variable for all its rounds.  The variables
  live in \<open>cells\<close>, an explicit store from addresses to workflows; every run of a loop takes a new
  address.  The channel is unbuffered, so events are received in the order they are sent; each is
  logged with what its cell held at that moment, which is what a receiver sees that reads the
  object before the loop goes on.
\<close>

section \<open>The watcher\<close>

datatype EventType = EvAdded | EvModified | EvDeleted

record event =
  evType :: EventType
  evObject :: nat
  evSeen :: Workflow

record ThirdPartyWatcher =
  Result :: "event list"
  Stopped :: bool

definition NewThirdPartyWatcher :: ThirdPartyWatcher where
  "NewThirdPartyWatcher = \<lparr>Result = [], Stopped = False\<rparr>"

definition ResultChan :: "ThirdPartyWatcher \<Rightarrow> event list" where
  "ResultChan w = Result w"

definition Stop :: "ThirdPartyWatcher \<Rightarrow> ThirdPartyWatcher" where
  "Stop w = w\<lparr>Stopped := True\<rparr>"

section \<open>One poll\<close>

record wstate =
  wkSelf :: workflows
  watcher :: ThirdPartyWatcher
  cells :: "(nat, Workflow) fmap"
  nextCell :: nat

definition emit :: "EventType \<Rightarrow> nat \<Rightarrow> wstate \<Rightarrow> wstate" where
  "emit t a s =
     (case fmlookup (cells s) a of
        None \<Rightarrow> s
      | Some item \<Rightarrow>
          s\<lparr>watcher := (watcher s)\<lparr>Result := Result (watcher s) @ [\<lparr>evType = t, evObject = a, evSeen = item\<rparr>]\<rparr>\<rparr>)"

definition set_names :: "Workflow gomap \<Rightarrow> wstate \<Rightarrow> wstate" where
  "set_names m s = s\<lparr>wkSelf := (wkSelf s)\<lparr>nameMap := m\<rparr>\<rparr>"

abbreviation names :: "wstate \<Rightarrow> Workflow gomap" where
  "names s \<equiv> nameMap (wkSelf s)"

fun items_loop :: "nat \<Rightarrow> Workflow list \<Rightarrow> Workflow gomap \<times> wstate \<Rightarrow> Workflow gomap \<times> wstate" where
  "items_loop a [] (listMap, s) = (listMap, s)"
| "items_loop a (item # rest) (listMap, s) =
     (let s1 = s\<lparr>cells := fmupd a item (cells s)\<rparr>;
          listMap1 = fmupd (Name (wfMeta item)) item listMap;
          s2 = (case fmlookup (names s1) (Name (wfMeta item)) of
                  None \<Rightarrow> emit EvAdded a s1
                | Some old \<Rightarrow> if old \<noteq> item then emit EvModified a s1 else s1);
          s3 = set_names (fmupd (Name (wfMeta item)) item (names s2)) s2
      in items_loop a rest (listMap1, s3))"

fun gone_loop :: "nat \<Rightarrow> Workflow gomap \<Rightarrow> string list \<Rightarrow> wstate \<Rightarrow> wstate" where
  "gone_loop b listMap [] s = s"
| "gone_loop b listMap (k # ks) s =
     (case fmlookup (names s) k of
        None \<Rightarrow> gone_loop b listMap ks s
      | Some item \<Rightarrow>
          (let s1 = s\<lparr>cells := fmupd b item (cells s)\<rparr>
           in gone_loop b listMap ks
                (if fmlookup listMap k = None
                 then (let s2 = emit EvDeleted b s1 in set_names (fmdrop k (names s2)) s2)
                 else s1)))"

definition poll :: "Workflow list \<Rightarrow> string list \<Rightarrow> wstate \<Rightarrow> wstate" where
  "poll items ks s =
     (let a = nextCell s;
          (listMap, s1) = items_loop a items (fmempty, s\<lparr>nextCell := Suc (Suc a)\<rparr>)
      in gone_loop (Suc a) listMap ks s1)"

section \<open>The goroutine\<close>

text \<open>
  One order of the second loop per tick.  A failed list ends the goroutine for good; nothing else
  does, the watcher's \<^verbatim>\<open>Stopped\<close> is never read and the channel is never closed.
\<close>

fun watch_ticks :: "'w transport \<Rightarrow> codec \<Rightarrow> string list list \<Rightarrow> 'w net \<times> wstate \<Rightarrow> bool \<times> 'w net \<times> wstate" where
  "watch_ticks tp cd [] (n, s) = (True, n, s)"
| "watch_ticks tp cd (ks # kss) (n, s) =
     (case Workflows_List tp cd (wkSelf s) n of
        (Inl err, n') \<Rightarrow> (False, n', s)
      | (Inr items, n') \<Rightarrow> watch_ticks tp cd kss (n', poll items ks s))"

definition Watch :: "'w transport \<Rightarrow> codec \<Rightarrow> string list list \<Rightarrow> workflows \<Rightarrow> 'w net \<Rightarrow> bool \<times> 'w net \<times> wstate" where
  "Watch tp cd kss ws n =
     watch_ticks tp cd kss
       (n, \<lparr>wkSelf = ws, watcher = NewThirdPartyWatcher, cells = fmempty, nextCell = 0\<rparr>)"

section \<open>What a receiver makes of the events\<close>

text \<open>
  The receiver keeps a copy of what it was told, keyed by name.  \<open>sees\<close> is the object it finds
  behind an event: at once it is what the event was sent with, later what the cell holds then.
\<close>

fun receive :: "(event \<Rightarrow> Workflow) \<Rightarrow> event list \<Rightarrow> Workflow gomap \<Rightarrow> Workflow gomap" where
  "receive sees [] m = m"
| "receive sees (e # es) m =
     receive sees es
       (case evType e of
          EvDeleted \<Rightarrow> fmdrop (Name (wfMeta (sees e))) m
        | _ \<Rightarrow> fmupd (Name (wfMeta (sees e))) (sees e) m)"

lemma receive_append: "receive sees (es @ es') m = receive sees es' (receive sees es m)"
  by (induction sees es m rule: receive.induct) auto

text \<open>Every known workflow is filed under its own name.\<close>

definition names_ok :: "Workflow gomap \<Rightarrow> bool" where
  "names_ok m \<longleftrightarrow> fmpred (\<lambda>k w. Name (wfMeta w) = k) m"

definition by_name :: "Workflow list \<Rightarrow> Workflow gomap" where
  "by_name items = foldl (\<lambda>m w. fmupd (Name (wfMeta w)) w m) fmempty items"

section \<open>The loops\<close>

abbreviation sent_events :: "wstate \<Rightarrow> event list" where
  "sent_events s \<equiv> Result (watcher s)"

definition view :: "event \<Rightarrow> EventType \<times> Workflow" where
  "view e = (evType e, evSeen e)"

lemma emit_simps [simp]:
  "wkSelf (emit t a s) = wkSelf s" "cells (emit t a s) = cells s" "nextCell (emit t a s) = nextCell s"
  by (simp_all add: emit_def split: option.split)

lemma emit_sent:
  "fmlookup (cells s) a = Some w \<Longrightarrow>
     sent_events (emit t a s) = sent_events s @ [\<lparr>evType = t, evObject = a, evSeen = w\<rparr>]"
  by (simp add: emit_def)

lemma set_names_simps [simp]:
  "names (set_names m s) = m" "cells (set_names m s) = cells s" "sent_events (set_names m s) = sent_events s"
  "nextCell (set_names m s) = nextCell s"
  by (simp_all add: set_names_def)

text \<open>What one item adds to the channel, as a function of the name map alone.\<close>

definition item_events :: "nat \<Rightarrow> Workflow gomap \<Rightarrow> Workflow \<Rightarrow> event list" where
  "item_events a m w =
     (case fmlookup m (Name (wfMeta w)) of
        None \<Rightarrow> [\<lparr>evType = EvAdded, evObject = a, evSeen = w\<rparr>]
      | Some old \<Rightarrow> if old \<noteq> w then [\<lparr>evType = EvModified, evObject = a, evSeen = w\<rparr>] else [])"

abbreviation filed :: "Workflow gomap \<Rightarrow> Workflow \<Rightarrow> Workflow gomap" where
  "filed m w \<equiv> fmupd (Name (wfMeta w)) w m"

fun items_events :: "nat \<Rightarrow> Workflow gomap \<Rightarrow> Workflow list \<Rightarrow> event list" where
  "items_events a m [] = []"
| "items_events a m (w # ws) = item_events a m w @ items_events a (filed m w) ws"

text \<open>The state after one round of either loop.\<close>

definition take_item :: "nat \<Rightarrow> Workflow \<Rightarrow> wstate \<Rightarrow> wstate" where
  "take_item a w s =
     (let s1 = s\<lparr>cells := fmupd a w (cells s)\<rparr>;
          s2 = (case fmlookup (names s1) (Name (wfMeta w)) of
                  None \<Rightarrow> emit EvAdded a s1
                | Some old \<Rightarrow> if old \<noteq> w then emit EvModified a s1 else s1)
      in set_names (filed (names s2) w) s2)"

definition take_gone :: "nat \<Rightarrow> Workflow gomap \<Rightarrow> string \<Rightarrow> wstate \<Rightarrow> wstate" where
  "take_gone b l k s =
     (case fmlookup (names s) k of
        None \<Rightarrow> s
      | Some w \<Rightarrow>
          (let s1 = s\<lparr>cells := fmupd b w (cells s)\<rparr>
           in if fmlookup l k = None
              then (let s2 = emit EvDeleted b s1 in set_names (fmdrop k (names s2)) s2)
              else s1))"

lemma items_loop_Cons:
  "items_loop a (w # ws) (l, s) = items_loop a ws (filed l w, take_item a w s)"
  by (simp add: take_item_def Let_def)

lemma gone_loop_Cons: "gone_loop b l (k # ks) s = gone_loop b l ks (take_gone b l k s)"
  by (simp add: take_gone_def Let_def split: option.split)

lemma take_item_simps [simp]:
  "names (take_item a w s) = filed (names s) w" "cells (take_item a w s) = fmupd a w (cells s)"
  "sent_events (take_item a w s) = sent_events s @ item_events a (names s) w"
  by (auto simp: take_item_def item_events_def emit_sent Let_def split: option.split)

lemma take_gone_simps [simp]:
  "names (take_gone b l k s) = (if fmlookup l k = None then fmdrop k (names s) else names s)"
  "c \<noteq> b \<Longrightarrow> fmlookup (cells (take_gone b l k s)) c = fmlookup (cells s) c"
  "sent_events (take_gone b l k s) = sent_events s @
     (case fmlookup (names s) k of
        None \<Rightarrow> []
      | Some w \<Rightarrow> if fmlookup l k = None then [\<lparr>evType = EvDeleted, evObject = b, evSeen = w\<rparr>] else [])"
  by (auto simp: take_gone_def emit_sent Let_def split: option.split intro: fmap_ext)

lemma items_loop_spec:
  "items_loop a items (listMap, s) = (l, s') \<Longrightarrow>
     l = foldl filed listMap items \<and> names s' = foldl filed (names s) items
     \<and> sent_events s' = sent_events s @ items_events a (names s) items
     \<and> fmlookup (cells s') a = (if items = [] then fmlookup (cells s) a else Some (last items))"
  by (induction items arbitrary: listMap s) (auto simp del: items_loop.simps(2) simp: items_loop_Cons)

fun gone_events :: "nat \<Rightarrow> Workflow gomap \<Rightarrow> Workflow gomap \<Rightarrow> string list \<Rightarrow> event list" where
  "gone_events b m l [] = []"
| "gone_events b m l (k # ks) =
     (case fmlookup m k of
        None \<Rightarrow> []
      | Some w \<Rightarrow> if fmlookup l k = None then [\<lparr>evType = EvDeleted, evObject = b, evSeen = w\<rparr>] else [])
     @ gone_events b m l ks"

definition keep :: "Workflow gomap \<Rightarrow> string list \<Rightarrow> string \<Rightarrow> bool" where
  "keep l ks k \<longleftrightarrow> k \<notin> set ks \<or> fmlookup l k \<noteq> None"

lemma gone_events_drop: "k \<notin> set ks \<Longrightarrow> gone_events b (fmdrop k m) l ks = gone_events b m l ks"
  by (induction ks) auto

lemma gone_loop_spec:
  "distinct ks \<Longrightarrow>
     names (gone_loop b l ks s) = fmfilter (keep l ks) (names s)
     \<and> sent_events (gone_loop b l ks s) = sent_events s @ gone_events b (names s) l ks
     \<and> (\<forall>c. c \<noteq> b \<longrightarrow> fmlookup (cells (gone_loop b l ks s)) c = fmlookup (cells s) c)"
proof (induction ks arbitrary: s)
  case Nil
  then show ?case by (auto simp: keep_def intro: fmap_ext)
next
  case (Cons k ks)
  have "fmfilter (keep l (k # ks)) (names s) =
          fmfilter (keep l ks) (if fmlookup l k = None then fmdrop k (names s) else names s)"
    using Cons.prems by (intro fmap_ext) (auto simp: keep_def)
  moreover have "gone_events b (if fmlookup l k = None then fmdrop k (names s) else names s) l ks =
      gone_events b (names s) l ks"
    using Cons.prems by (simp add: gone_events_drop)
  ultimately show ?case
    using Cons.IH [of "take_gone b l k s", unfolded take_gone_simps(1)] Cons.prems
    by (simp add: gone_loop_Cons del: gone_loop.simps(2))
qed

section \<open>One poll as a whole\<close>

lemma foldl_filed_lookup:
  "fmlookup (foldl filed m ws) k =
     (if \<exists>w \<in> set ws. Name (wfMeta w) = k then fmlookup (by_name ws) k else fmlookup m k)"
  unfolding by_name_def
  by (induction ws rule: rev_induct) auto

lemma by_name_None: "fmlookup (by_name ws) k = None \<longleftrightarrow> (\<forall>w \<in> set ws. Name (wfMeta w) \<noteq> k)"
  unfolding by_name_def by (induction ws rule: rev_induct) auto

definition poll_ok :: "Workflow list \<Rightarrow> string list \<Rightarrow> wstate \<Rightarrow> bool" where
  "poll_ok items ks s \<longleftrightarrow> range_order (foldl filed (names s) items) ks"

lemma keep_by_name:
  assumes "range_order (foldl filed m items) ks"
  shows "fmfilter (keep (by_name items) ks) (foldl filed m items) = by_name items"
proof (rule fmap_ext)
  fix k
  have in_ks: "fmlookup (foldl filed m items) k \<noteq> None \<Longrightarrow> k \<in> set ks"
    using assms by (auto simp: range_order_mem)
  show "fmlookup (fmfilter (keep (by_name items) ks) (foldl filed m items)) k = fmlookup (by_name items) k"
  proof (cases "fmlookup (by_name items) k")
    case None
    then have "fmlookup (foldl filed m items) k = fmlookup m k"
      using foldl_filed_lookup [of m items k] by_name_None [of items k] by auto
    with None in_ks show ?thesis by (cases "fmlookup m k") (auto simp: keep_def)
  next
    case (Some w)
    then have "fmlookup (foldl filed m items) k = Some w"
      using foldl_filed_lookup [of m items k] by_name_None [of items k] by auto
    with Some show ?thesis by (simp add: keep_def)
  qed
qed

lemma poll_spec:
  assumes "poll_ok items ks s"
  shows "names (poll items ks s) = by_name items"
    and "sent_events (poll items ks s) = sent_events s @ items_events (nextCell s) (names s) items
           @ gone_events (Suc (nextCell s)) (foldl filed (names s) items) (by_name items) ks"
    and "items \<noteq> [] \<Longrightarrow> fmlookup (cells (poll items ks s)) (nextCell s) = Some (last items)"
proof -
  let ?s = "s\<lparr>nextCell := Suc (Suc (nextCell s))\<rparr>"
  obtain l s1 where loop: "items_loop (nextCell s) items (fmempty, ?s) = (l, s1)" by fastforce
  note i = items_loop_spec [OF loop]
  have l: "l = by_name items" using i by (simp add: by_name_def)
  have p: "poll items ks s = gone_loop (Suc (nextCell s)) l ks s1" by (simp add: poll_def loop)
  have d: "distinct ks" using assms by (simp add: poll_ok_def range_order_distinct)
  note g = gone_loop_spec [OF d, of "Suc (nextCell s)" l s1]
  have "fmfilter (keep l ks) (foldl filed (names s) items) = by_name items"
    unfolding l using assms unfolding poll_ok_def by (rule keep_by_name)
  moreover have "names s1 = foldl filed (names s) items" using i by simp
  moreover have "names (poll items ks s) = fmfilter (keep l ks) (names s1)" using g p by simp
  ultimately show "names (poll items ks s) = by_name items" by (simp only:)
  show "sent_events (poll items ks s) = sent_events s @ items_events (nextCell s) (names s) items
           @ gone_events (Suc (nextCell s)) (foldl filed (names s) items) (by_name items) ks"
    using g i l by (simp add: p)
  show "fmlookup (cells (poll items ks s)) (nextCell s) = Some (last items)" if "items \<noteq> []"
    using g i that by (simp add: p)
qed

lemma receive_items:
  "receive evSeen (items_events a m ws) m = foldl filed m ws"
proof (induction ws arbitrary: m)
  case (Cons w ws)
  have "filed m w = m" if "fmlookup m (Name (wfMeta w)) = Some w"
    using that by (intro fmap_ext) auto
  then have "receive evSeen (item_events a m w) m = filed m w"
    by (auto simp: item_events_def split: option.split)
  with Cons show ?case by (simp add: receive_append)
qed simp

lemma fmsubset_lookup: "m \<subseteq>\<^sub>f m' \<Longrightarrow> fmlookup m k = Some v \<Longrightarrow> fmlookup m' k = Some v"
  unfolding fmsubset.rep_eq map_le_def by (simp add: dom_def fmdom'I)

lemma receive_gone:
  assumes "names_ok m"
  shows "receive evSeen (gone_events b m l ks) m = fmfilter (keep l ks) m"
proof -
  have "receive evSeen (gone_events b m l ks) m' = fmfilter (keep l ks) m'" if "m' \<subseteq>\<^sub>f m" for m'
    using that
  proof (induction ks arbitrary: m')
    case Nil
    then show ?case by (auto simp: keep_def intro: fmap_ext)
  next
    case (Cons k ks)
    show ?case
    proof (cases "fmlookup m k \<noteq> None \<and> fmlookup l k = None")
      case True
      then obtain w where w: "fmlookup m k = Some w" and nl: "fmlookup l k = None" by auto
      have name: "Name (wfMeta w) = k" using assms w by (auto simp: names_ok_def fmpred_iff)
      have "fmdrop k m' \<subseteq>\<^sub>f m" using Cons.prems by (auto simp: fmsubset.rep_eq map_le_def)
      moreover have "fmfilter (keep l (k # ks)) m' = fmfilter (keep l ks) (fmdrop k m')"
        using nl by (intro fmap_ext) (auto simp: keep_def)
      ultimately show ?thesis using Cons.IH w nl name by simp
    next
      case False
      have "fmfilter (keep l (k # ks)) m' = fmfilter (keep l ks) m'"
      proof (rule fmap_ext)
        fix x
        have "fmlookup m' k = None \<or> fmlookup l k \<noteq> None"
        proof (cases "fmlookup m' k")
          case (Some v)
          with Cons.prems have "fmlookup m k = Some v" by (rule fmsubset_lookup)
          with False show ?thesis by simp
        qed simp
        then show "fmlookup (fmfilter (keep l (k # ks)) m') x = fmlookup (fmfilter (keep l ks) m') x"
          by (auto simp: keep_def)
      qed
      moreover have "gone_events b m l (k # ks) = gone_events b m l ks"
        using False by (auto split: option.split)
      ultimately show ?thesis using Cons.IH [OF Cons.prems] by simp
    qed
  qed
  from this [of m] show ?thesis by (simp add: fmsubset.rep_eq)
qed

lemma names_ok_filed1: "names_ok m \<Longrightarrow> names_ok (filed m w)"
  unfolding names_ok_def by (rule fmpred_upd) simp_all

lemma names_ok_filed: "names_ok m \<Longrightarrow> names_ok (foldl filed m ws)"
  by (induction ws arbitrary: m) (simp_all add: names_ok_filed1)

lemma poll_mirrors:
  assumes "poll_ok items ks s" and "names_ok (names s)"
  shows "\<exists>es. sent_events (poll items ks s) = sent_events s @ es
     \<and> receive evSeen es (names s) = by_name items
     \<and> names (poll items ks s) = by_name items \<and> names_ok (names (poll items ks s))"
proof -
  let ?m = "foldl filed (names s) items"
  let ?es = "items_events (nextCell s) (names s) items @ gone_events (Suc (nextCell s)) ?m (by_name items) ks"
  note p = poll_spec [OF assms(1)]
  have "receive evSeen ?es (names s) = fmfilter (keep (by_name items) ks) ?m"
    using receive_gone [OF names_ok_filed [OF assms(2)]] by (simp add: receive_append receive_items)
  also have "\<dots> = by_name items"
    using assms(1) unfolding poll_ok_def by (rule keep_by_name)
  finally have "receive evSeen ?es (names s) = by_name items" .
  moreover have "names_ok (by_name items)"
    using names_ok_filed [of fmempty items] by (simp add: by_name_def names_ok_def)
  ultimately show ?thesis using p by (intro exI [of _ ?es]) simp
qed

text \<open>The orders of the second loops are orders of the maps they run over.\<close>

fun orders_ok :: "'w transport \<Rightarrow> codec \<Rightarrow> string list list \<Rightarrow> 'w net \<times> wstate \<Rightarrow> bool" where
  "orders_ok tp cd [] (n, s) = True"
| "orders_ok tp cd (ks # kss) (n, s) =
     (case Workflows_List tp cd (wkSelf s) n of
        (Inl err, n') \<Rightarrow> True
      | (Inr items, n') \<Rightarrow> poll_ok items ks s \<and> orders_ok tp cd kss (n', poll items ks s))"

definition watch_start :: "workflows \<Rightarrow> wstate" where
  "watch_start ws = \<lparr>wkSelf = ws, watcher = NewThirdPartyWatcher, cells = fmempty, nextCell = 0\<rparr>"

text \<open>The receiver has an exact copy of the name map, which is empty or some list of the server.\<close>

definition mirrored :: "'w transport \<Rightarrow> codec \<Rightarrow> wstate \<Rightarrow> bool" where
  "mirrored tp cd s \<longleftrightarrow> names_ok (names s) \<and> receive evSeen (sent_events s) fmempty = names s
     \<and> (names s = fmempty
        \<or> (\<exists>ws n items. fst (Workflows_List tp cd ws n) = Inr items \<and> names s = by_name items))"

lemma poll_mirrored:
  assumes "poll_ok items ks s" and "mirrored tp cd s" and "Workflows_List tp cd ws n = (Inr items, n')"
  shows "mirrored tp cd (poll items ks s)"
proof -
  from assms(2) have ok: "names_ok (names s)" and r: "receive evSeen (sent_events s) fmempty = names s"
    by (simp_all add: mirrored_def)
  from poll_mirrors [OF assms(1) ok] obtain es
    where "sent_events (poll items ks s) = sent_events s @ es" "receive evSeen es (names s) = by_name items"
      "names (poll items ks s) = by_name items" "names_ok (names (poll items ks s))" by blast
  with r assms(3) show ?thesis unfolding mirrored_def receive_append
    by (metis fst_conv receive_append)
qed

lemma watch_ticks_mirrored:
  "watch_ticks tp cd kss (n, s) = (alive, n', s') \<Longrightarrow> orders_ok tp cd kss (n, s) \<Longrightarrow> mirrored tp cd s \<Longrightarrow>
     mirrored tp cd s'"
  by (induction tp cd kss "(n, s)" arbitrary: n s rule: watch_ticks.induct)
    (auto split: prod.splits sum.splits intro: poll_mirrored)


text \<open>
  All additions and changes one poll reports are the same object: a receiver that keeps the
  pointers and reads them after the poll finds the last workflow of the list behind every one of
  them.
\<close>

theorem watch_events_alias:
  assumes "poll_ok items ks s" and "items \<noteq> []"
  shows "\<exists>es. sent_events (poll items ks s) = sent_events s @ es
     \<and> (\<forall>e \<in> set es. evType e \<noteq> EvDeleted \<longrightarrow>
          fmlookup (cells (poll items ks s)) (evObject e) = Some (last items))"
proof -
  have items: "e \<in> set (items_events a m ws) \<Longrightarrow> evObject e = a" for e a m ws
    by (induction ws arbitrary: m) (auto simp: item_events_def split: option.splits if_splits)
  have gone: "e \<in> set (gone_events b m l xs) \<Longrightarrow> evType e = EvDeleted" for e b m l xs
    by (induction xs) (auto split: option.splits if_splits)
  show ?thesis
    using poll_spec [OF assms(1)] assms(2) items gone by fastforce
qed

text \<open>
  The watch knows workflows by name only, while the manager watches all namespaces: as long as
  some workflow of that name is on the server's list, the removal of another of the same name is
  never reported.
\<close>

theorem watch_misses_deletion:
  assumes "poll_ok items ks s" and "names_ok (names s)" and "w \<in> set items"
  shows "\<exists>es. sent_events (poll items ks s) = sent_events s @ es
     \<and> (EvDeleted, Name (wfMeta w)) \<notin> (\<lambda>e. (evType e, Name (wfMeta (evSeen e)))) ` set es"
proof -
  let ?m = "foldl filed (names s) items"
  have items: "e \<in> set (items_events a m ws) \<Longrightarrow> evType e \<noteq> EvDeleted" for e a m ws
    by (induction ws arbitrary: m) (auto simp: item_events_def split: option.splits if_splits)
  have gone: "e \<in> set (gone_events b m l xs) \<Longrightarrow> \<exists>k. fmlookup m k = Some (evSeen e) \<and> fmlookup l k = None" for e b m l xs
    by (induction xs) (auto split: option.splits if_splits)
  have some: "fmlookup (by_name items) (Name (wfMeta w)) \<noteq> None"
    using by_name_None [of items "Name (wfMeta w)"] assms(3) by auto
  have "Name (wfMeta (evSeen e)) \<noteq> Name (wfMeta w)"
    if "e \<in> set (gone_events b ?m (by_name items) ks)" for e b
  proof -
    from gone [OF that] obtain k where k: "fmlookup ?m k = Some (evSeen e)" "fmlookup (by_name items) k = None" by blast
    then have "Name (wfMeta (evSeen e)) = k"
      using names_ok_filed [OF assms(2), of items] by (auto simp: names_ok_def fmpred_iff)
    with k(2) some show ?thesis by auto
  qed
  with poll_spec(2) [OF assms(1)] items show ?thesis by fastforce
qed

text \<open>
  The first list that fails ends the watch: the events sent up to then are all that will ever
  be sent, however many ticks follow and whatever the server has by then.
\<close>

theorem watch_dies_on_error:
  assumes "watch_ticks tp cd kss (n, s) = (True, n1, s1)"
    and "Workflows_List tp cd (wkSelf s1) n1 = (Inl err, n2)"
  shows "watch_ticks tp cd (kss @ ks # later) (n, s) = (False, n2, s1)"
  using assms
  by (induction tp cd kss "(n, s)" arbitrary: n s rule: watch_ticks.induct)
    (auto split: prod.splits sum.splits)

section \<open>Examples\<close>

text \<open>
  A server whose lists are given in advance: every request takes the next one, and fails when there
  is none.  A list is the string of the one-letter names of its workflows.
\<close>

definition scripted_server :: "string list transport" where
  "scripted_server =
     \<lparr>tpParse = \<lambda>_. True,
      tpDo = \<lambda>r w. (case w of [] \<Rightarrow> (Inl (Errorf ''connection refused''), []) | x # xs \<Rightarrow> (Inr (Inr x), xs))\<rparr>"

definition letter_codec :: codec where
  "letter_codec = name_codec\<lparr>unmarshalList := \<lambda>b. Inr (map (\<lambda>c. named_workflow [c]) b)\<rparr>"

definition script :: "string list \<Rightarrow> string list net" where
  "script xs = \<lparr>rqSent = [], tickers = 0, rqWorld = xs\<rparr>"

definition all_workflows :: workflows where
  "all_workflows = \<lparr>wsBaseURL = ''http://127.0.0.1:8080'', wsNs = [], nameMap = fmempty\<rparr>"

definition two_ticks :: "bool \<times> string list net \<times> wstate" where
  "two_ticks =
     Watch scripted_server letter_codec [[''a'', ''b''], [''b'', ''a'']] all_workflows (script [''ab'', ''b''])"

definition tick_events :: "EventType list" where
  "tick_events = map evType (ResultChan (watcher (snd (snd two_ticks))))"


definition watch_state :: "string \<Rightarrow> wstate" where
  "watch_state xs = watch_start (all_workflows\<lparr>nameMap := by_name (map (\<lambda>c. named_workflow [c]) xs)\<rparr>)"

lemma watch_events_alias_witness:
  "\<exists>es. sent_events (poll [named_workflow ''a'', named_workflow ''b''] [''a'', ''b''] (watch_state [])) =
      sent_events (watch_state []) @ es
     \<and> map evSeen es = [named_workflow ''a'', named_workflow ''b'']
     \<and> map (\<lambda>e. fmlookup (cells (poll [named_workflow ''a'', named_workflow ''b''] [''a'', ''b''] (watch_state [])))
           (evObject e)) es = [Some (named_workflow ''b''), Some (named_workflow ''b'')]"
proof -
  let ?p = "poll [named_workflow ''a'', named_workflow ''b''] [''a'', ''b''] (watch_state [])"
  have "poll_ok [named_workflow ''a'', named_workflow ''b''] [''a'', ''b''] (watch_state [])" by code_simp
  from watch_events_alias [OF this] obtain es where es: "sent_events ?p = sent_events (watch_state []) @ es"
    and last: "\<And>e. e \<in> set es \<Longrightarrow> evType e \<noteq> EvDeleted \<Longrightarrow> fmlookup (cells ?p) (evObject e) = Some (named_workflow ''b'')"
    by auto
  have "sent_events (watch_state []) = []" by code_simp
  with es have es': "es = sent_events ?p" by simp
  have "map evSeen (sent_events ?p) = [named_workflow ''a'', named_workflow ''b'']"
    "list_all (\<lambda>e. evType e \<noteq> EvDeleted) (sent_events ?p)" by code_simp+
  with es es' last have "map evSeen es = [named_workflow ''a'', named_workflow ''b'']"
    "map (\<lambda>e. fmlookup (cells ?p) (evObject e)) es = map (\<lambda>e. Some (named_workflow ''b'')) es" "length es = 2"
    by (auto simp: list_all_iff dest: arg_cong [of _ _ length])
  with es show ?thesis by (auto simp: length_Suc_conv numeral_2_eq_2)
qed

lemma watch_misses_deletion_witness:
  "\<exists>es. sent_events (poll [named_workflow ''a''] [''b'', ''a''] (watch_state ''ab'')) = sent_events (watch_state ''ab'') @ es
     \<and> (EvDeleted, ''a'') \<notin> (\<lambda>e. (evType e, Name (wfMeta (evSeen e)))) ` set es"
proof -
  have o: "poll_ok [named_workflow ''a''] [''b'', ''a''] (watch_state ''ab'')" "names_ok (names (watch_state ''ab''))"
    by code_simp+
  have "Name (wfMeta (named_workflow ''a'')) = ''a''" by code_simp
  with watch_misses_deletion [OF o, of "named_workflow ''a''"] show ?thesis by simp
qed

lemma watch_dies_on_error_witness:
  "watch_ticks scripted_server letter_codec ([[''a'']] @ [''a''] # [[''a''], [''a'']]) (script [''a''], watch_start all_workflows) =
     (False, fst (snd (watch_ticks scripted_server letter_codec [[''a''], []] (script [''a''], watch_start all_workflows))),
      snd (snd (watch_ticks scripted_server letter_codec [[''a'']] (script [''a''], watch_start all_workflows))))"
proof -
  let ?r = "watch_ticks scripted_server letter_codec [[''a'']] (script [''a''], watch_start all_workflows)"
  have w: "?r = (True, fst (snd ?r), snd (snd ?r))" by code_simp
  have "Workflows_List scripted_server letter_codec (wkSelf (snd (snd ?r))) (fst (snd ?r)) =
      (Inl (Errorf ''could not reach %s: %v''),
       fst (snd (watch_ticks scripted_server letter_codec [[''a''], []] (script [''a''], watch_start all_workflows))))"
    by code_simp
  from watch_dies_on_error [OF w this, of "[''a'']" "[[''a''], [''a'']]"] show ?thesis .
qed

end
