(* ===== verification/Program.thy ===== *)
theory Program
  imports Manager
begin

text \<open>
  \<^verbatim>\<open>main.go\<close>, \<^verbatim>\<open>NewManager\<close> and \<^verbatim>\<open>Run\<close> of \<^verbatim>\<open>manager.go\<close>: how the controller starts.  The API
  server is a parameter: \<open>tprGet\<close> and \<open>tprCreate\<close> are the two calls of the clientset on third
  party resources, \<open>tprSleep\<close> is what the world does while the program sleeps.  The loop that
  waits for the server has no bound in the code, so it is a partial function and None is waiting
  for ever; the loop that creates the resource is a total one.
\<close>

section \<open>Third party resources\<close>

record ThirdPartyResource =
  tprName :: string
  tprDescription :: string
  tprVersions :: "string list"

definition thirdPartyResourceRetryOnFail :: nat where "thirdPartyResourceRetryOnFail = 5"
definition thirdPartyResourceRetryPeriod :: int where "thirdPartyResourceRetryPeriod = 5 * 1000000000"
definition Description :: string where "Description = ''An API endpoint for workflows''"
definition Versions :: "string list" where "Versions = [''v1alpha1'']"

record 'w tpr_api =
  tprGet :: "string \<Rightarrow> 'w \<Rightarrow> go_error option \<times> 'w"
  tprCreate :: "ThirdPartyResource \<Rightarrow> 'w \<Rightarrow> go_error option \<times> 'w"
  tprSleep :: "int \<Rightarrow> 'w \<Rightarrow> 'w"

text \<open>What the program has done to the server so far, and how long it has slept.\<close>

record 'w rstate =
  tprGets :: "string list"
  tprCreates :: "ThirdPartyResource list"
  tprSlept :: int
  tprWorld :: 'w

definition get_tpr :: "'w tpr_api \<Rightarrow> string \<Rightarrow> 'w rstate \<Rightarrow> go_error option \<times> 'w rstate" where
  "get_tpr api name s =
     (let (err, w) = tprGet api name (tprWorld s) in (err, s\<lparr>tprGets := tprGets s @ [name], tprWorld := w\<rparr>))"

definition create_tpr :: "'w tpr_api \<Rightarrow> ThirdPartyResource \<Rightarrow> 'w rstate \<Rightarrow> go_error option \<times> 'w rstate" where
  "create_tpr api config s =
     (let (err, w) = tprCreate api config (tprWorld s)
      in (err, s\<lparr>tprCreates := tprCreates s @ [config], tprWorld := w\<rparr>))"

definition sleep :: "'w tpr_api \<Rightarrow> 'w rstate \<Rightarrow> 'w rstate" where
  "sleep api s =
     s\<lparr>tprSlept := tprSlept s + thirdPartyResourceRetryPeriod,
       tprWorld := tprSleep api thirdPartyResourceRetryPeriod (tprWorld s)\<rparr>"

fun is_not_found :: "go_error \<Rightarrow> bool" where
  "is_not_found (StatusError r) = (r = ReasonNotFound)"
| "is_not_found (Errorf _) = False"

text \<open>The first loop: its result is the error it was left with, None when the resource is there.\<close>

partial_function (option) await_server ::
  "'w tpr_api \<Rightarrow> string \<Rightarrow> 'w rstate \<Rightarrow> (go_error option \<times> 'w rstate) option" where
  "await_server api name s =
     (let (err, s1) = get_tpr api name s
      in case err of
           None \<Rightarrow> Some (None, s1)
         | Some e \<Rightarrow> if is_not_found e then Some (Some e, s1) else await_server api name (sleep api s1))"

declare await_server.simps [code]

text \<open>The second loop, from round \<open>i\<close> on: None when a create succeeded, else the last error.\<close>

function create_loop ::
  "'w tpr_api \<Rightarrow> ThirdPartyResource \<Rightarrow> nat \<Rightarrow> go_error option \<Rightarrow> 'w rstate \<Rightarrow> go_error option \<times> 'w rstate" where
  "create_loop api config i createErr s =
     (if i < thirdPartyResourceRetryOnFail then
        (case create_tpr api config s of
           (None, s1) \<Rightarrow> (None, s1)
         | (Some e, s1) \<Rightarrow> create_loop api config (Suc i) (Some e) (sleep api s1))
      else (Some (Errorf ''couldn't create third party resource: %v''), s))"
  by pat_completeness auto
termination
  by (relation "measure (\<lambda>(_, _, i, _). thirdPartyResourceRetryOnFail - i)") auto

declare create_loop.simps [simp del]

definition tpr_name :: string where "tpr_name = Resource @ ''.'' @ Group"

definition workflow_resource :: ThirdPartyResource where
  "workflow_resource =
     \<lparr>tprName = tpr_name, tprDescription = Description, tprVersions = Versions\<rparr>"

definition registerThirdPartyResource :: "'w tpr_api \<Rightarrow> 'w rstate \<Rightarrow> (go_error option \<times> 'w rstate) option" where
  "registerThirdPartyResource api s =
     (case await_server api tpr_name s of
        None \<Rightarrow> None
      | Some (None, s1) \<Rightarrow> Some (None, s1)
      | Some (Some e, s1) \<Rightarrow>
          if is_not_found e then Some (create_loop api workflow_resource 0 None s1)
          else Some (Some (Errorf ''couldn't do initial list of third party resources: %v''), s1))"

section \<open>Starting the controller\<close>

text \<open>\<^verbatim>\<open>net.JoinHostPort\<close> of the standard library: hosts with a colon or a percent sign get brackets.\<close>

definition JoinHostPort :: "string \<Rightarrow> string \<Rightarrow> string" where
  "JoinHostPort host port =
     (if CHR '':'' \<in> set host \<or> CHR 0x25 \<in> set host then ''['' @ host @ '']:'' @ port
      else host @ '':'' @ port)"

definition clientConfig :: "string \<Rightarrow> string \<Rightarrow> Config" where
  "clientConfig host port =
     \<lparr>Host = ''http://'' @ JoinHostPort host port, APIPath = [], UserAgent = [], cfgGroupVersion = None,
      Codec = NoCodec, NegotiatedSerializer = NoSerializer, QPS = 0, Burst = 0\<rparr>"

definition NewManager :: "'c \<Rightarrow> 'n \<Rightarrow> ('c, 'n) mstate" where
  "NewManager control net =
     \<lparr>mQueue = wq_New, mState = \<lparr>ctl = control, exps = NewWorkflowStepExpectations\<rparr>, mNet = net,
      mWorkflows = fmempty, mJobs = fmempty, mSlept = []\<rparr>"

text \<open>
  \<^verbatim>\<open>NewTransitionerFor\<close> of \<^verbatim>\<open>transitioner.go\<close> hands the transitioner the manager's stores, cache of
  expectations and client, which are the state its transition works on, and wires the transition
  to \<^verbatim>\<open>transitionWorkflow\<close> with \<^verbatim>\<open>updateWorkflowStatus\<close> on the third party client as update handler.
\<close>

definition NewTransitionerFor ::
  "'w transport \<Rightarrow> codec \<Rightarrow> 'k ThirdPartyClient \<Rightarrow> 'c tenv \<Rightarrow> bool \<Rightarrow> bool \<Rightarrow> string \<Rightarrow>
   'c tstate \<times> 'w net \<times> Workflow store \<Rightarrow> ('c tstate \<times> 'w net \<times> Workflow store) transition_result option" where
  "NewTransitionerFor tp cd tpClient env synced1 synced2 =
     transitionWorkflow env (updateWorkflowStatus (client_update tp cd tpClient) (client_get tp cd tpClient)) synced1 synced2"

text \<open>\<^verbatim>\<open>Run\<close>: the goroutines it starts, and what it does once the stop channel is closed.\<close>

datatype goroutine = WorkflowController | JobController | Worker

definition Run_started :: "nat \<Rightarrow> goroutine list" where
  "Run_started workers = [WorkflowController, JobController] @ replicate workers Worker"

definition Run_stopped :: "('c, 'n) mstate \<Rightarrow> ('c, 'n) mstate" where
  "Run_stopped m = m\<lparr>mQueue := wq_ShutDown (mQueue m)\<rparr>"

datatype ('c, 'n) outcome =
    Fatal string
  | ShutDownEarly
  | Serving "'c ThirdPartyClient" "goroutine list" "('c, 'n) mstate"

text \<open>
  \<^verbatim>\<open>main\<close>: \<open>rest\<close>, \<open>forConfig\<close> and \<open>old\<close> build the three clients.  The configuration is passed to
  \<^verbatim>\<open>NewThirdParty\<close> by value, so the other two get it without the third party defaults.  Nothing
  closes the stop channel, so a controller that serves never returns.
\<close>

definition run_main ::
  "string \<Rightarrow> (Config \<Rightarrow> go_error + 'c) \<Rightarrow> (Config \<Rightarrow> go_error + 'c) \<Rightarrow> (Config \<Rightarrow> go_error + 'c) \<Rightarrow>
   ('c \<Rightarrow> 'w tpr_api) \<Rightarrow> 'n \<Rightarrow> string \<Rightarrow> string \<Rightarrow> 'w rstate \<Rightarrow> (('c, 'n) outcome \<times> 'w rstate) option" where
  "run_main agent rest forConfig old api net host port s =
     (let cfg = clientConfig host port
      in case NewThirdParty agent rest \<lparr>gvGroup = Group, gvVersion = Version\<rparr> cfg of
           Inl err \<Rightarrow> Some (Fatal ''Could not create 3rd party client: %v'', s)
         | Inr thirdPartyClient \<Rightarrow>
             (case forConfig cfg of
                Inl err \<Rightarrow> Some (Fatal ''Could not create set client: %v'', s)
              | Inr client \<Rightarrow>
                  (case old cfg of
                     Inl err \<Rightarrow> Some (Fatal ''Couldn not create batch client: %v'', s)
                   | Inr oldClient \<Rightarrow>
                       (case registerThirdPartyResource (api client) s of
                          None \<Rightarrow> None
                        | Some (Some err, s1) \<Rightarrow> Some (ShutDownEarly, s1)
                        | Some (None, s1) \<Rightarrow>
                            Some (Serving thirdPartyClient (Run_started 5) (NewManager client net), s1)))))"

section \<open>Waiting for the server\<close>

text \<open>The state before the \<open>n\<close>-th probe if all probes before it came back unanswered.\<close>

fun waited :: "'w tpr_api \<Rightarrow> string \<Rightarrow> nat \<Rightarrow> 'w rstate \<Rightarrow> 'w rstate" where
  "waited api name 0 s = s"
| "waited api name (Suc n) s = waited api name n (sleep api (snd (get_tpr api name s)))"

definition answered :: "go_error option \<Rightarrow> bool" where
  "answered err \<longleftrightarrow> (case err of None \<Rightarrow> True | Some e \<Rightarrow> is_not_found e)"

definition probe :: "'w tpr_api \<Rightarrow> string \<Rightarrow> nat \<Rightarrow> 'w rstate \<Rightarrow> go_error option" where
  "probe api name n s = fst (get_tpr api name (waited api name n s))"

lemma await_server_unfold:
  "await_server api name s =
     (if answered (fst (get_tpr api name s)) then Some (get_tpr api name s)
      else await_server api name (sleep api (snd (get_tpr api name s))))"
  by (subst await_server.simps) (auto simp: answered_def split: prod.splits option.splits)

lemma probe_Suc: "probe api name (Suc n) s = probe api name n (sleep api (snd (get_tpr api name s)))"
  by (simp add: probe_def)

lemma await_server_Some:
  "answered (probe api name n s) \<Longrightarrow> \<exists>r. await_server api name s = Some r"
proof (induction n arbitrary: s)
  case 0
  then show ?case by (subst await_server_unfold) (simp add: probe_def)
next
  case (Suc n)
  show ?case
  proof (cases "answered (fst (get_tpr api name s))")
    case False
    with Suc.IH [of "sleep api (snd (get_tpr api name s))"] Suc.prems show ?thesis
      by (subst await_server_unfold) (simp add: probe_Suc)
  qed (subst await_server_unfold, simp)
qed

text \<open>The first answered probe is the result, and everything before it was waiting.\<close>

definition first_answer :: "'w tpr_api \<Rightarrow> string \<Rightarrow> 'w rstate \<Rightarrow> go_error option \<times> 'w rstate \<Rightarrow> bool" where
  "first_answer api name s r \<longleftrightarrow>
     (\<exists>n. r = get_tpr api name (waited api name n s) \<and> answered (fst r)
        \<and> (\<forall>m < n. \<not> answered (probe api name m s)))"

lemma first_answer_later:
  assumes "first_answer api name (sleep api (snd (get_tpr api name s))) r"
    and "\<not> answered (fst (get_tpr api name s))"
  shows "first_answer api name s r"
proof -
  from assms(1) obtain n where r: "r = get_tpr api name (waited api name (Suc n) s)" "answered (fst r)"
    and before: "\<And>m. m < n \<Longrightarrow> \<not> answered (probe api name (Suc m) s)"
    by (auto simp: first_answer_def probe_Suc)
  have "\<not> answered (probe api name m s)" if "m < Suc n" for m
    using that before assms(2) by (cases m) (auto simp: probe_def)
  with r show ?thesis unfolding first_answer_def by blast
qed

lemma await_server_result: "await_server api name s = Some r \<Longrightarrow> first_answer api name s r"
proof (erule await_server.raw_induct [rotated])
  fix f :: "'a tpr_api \<Rightarrow> string \<Rightarrow> 'a rstate \<Rightarrow> (go_error option \<times> 'a rstate) option" and api name s r
  assume IH: "\<And>api name s r. f api name s = Some r \<Longrightarrow> first_answer api name s r"
    and step: "(let (err, s1) = get_tpr api name s
      in case err of
           None \<Rightarrow> Some (None, s1)
         | Some e \<Rightarrow> if is_not_found e then Some (Some e, s1) else f api name (sleep api s1)) = Some r"
  obtain err s1 where g: "get_tpr api name s = (err, s1)" by fastforce
  show "first_answer api name s r"
  proof (cases "answered err")
    case True
    with step g have "r = get_tpr api name (waited api name 0 s) \<and> answered (fst r)"
      by (cases err) (auto simp: answered_def split: if_splits)
    then show ?thesis unfolding first_answer_def by blast
  next
    case False
    with step g have "f api name (sleep api (snd (get_tpr api name s))) = Some r"
      by (cases err) (auto simp: answered_def split: if_splits)
    from first_answer_later [OF IH [OF this]] False g show ?thesis by simp
  qed
qed

section \<open>Creating the resource\<close>

lemma get_tpr_fields:
  "get_tpr api name s = (err, s') \<Longrightarrow>
     tprGets s' = tprGets s @ [name] \<and> tprCreates s' = tprCreates s \<and> tprSlept s' = tprSlept s"
  by (auto simp: get_tpr_def split: prod.splits)

lemma create_tpr_fields:
  "create_tpr api config s = (err, s') \<Longrightarrow>
     tprGets s' = tprGets s \<and> tprCreates s' = tprCreates s @ [config] \<and> tprSlept s' = tprSlept s"
  by (auto simp: create_tpr_def split: prod.splits)

lemma sleep_fields [simp]:
  "tprGets (sleep api s) = tprGets s" "tprCreates (sleep api s) = tprCreates s"
  "tprSlept (sleep api s) = tprSlept s + thirdPartyResourceRetryPeriod"
  by (simp_all add: sleep_def)

lemma waited_fields:
  "tprGets (waited api name n s) = tprGets s @ replicate n name
   \<and> tprCreates (waited api name n s) = tprCreates s
   \<and> tprSlept (waited api name n s) = tprSlept s + int n * thirdPartyResourceRetryPeriod"
proof (induction n arbitrary: s)
  case (Suc n)
  obtain err s1 where g: "get_tpr api name s = (err, s1)" by fastforce
  from Suc [of "sleep api s1"] get_tpr_fields [OF g] g show ?case
    by (simp add: algebra_simps replicate_append_same)
qed simp

text \<open>\<open>k\<close> creates in rounds up to the last: how many failed and how a failure is reported.\<close>

definition failed_creates :: "go_error option \<Rightarrow> nat \<Rightarrow> nat" where
  "failed_creates err k = (if err = None then k - 1 else k)"

definition create_error :: go_error where
  "create_error = Errorf ''couldn't create third party resource: %v''"

lemma create_loop_unfold:
  "create_loop api config i ce s =
     (if i < thirdPartyResourceRetryOnFail then
        (let (r, s1) = create_tpr api config s
         in if r = None then (None, s1) else create_loop api config (Suc i) r (sleep api s1))
      else (Some create_error, s))"
  by (subst create_loop.simps) (auto simp: create_error_def split: prod.splits option.splits)

lemma failed_creates_Suc: "k \<ge> 1 \<Longrightarrow> failed_creates err (Suc k) = Suc (failed_creates err k)"
  by (simp add: failed_creates_def)

lemma create_loop_result:
  assumes "i < thirdPartyResourceRetryOnFail" and "create_loop api config i ce s = (err, s')"
  shows "\<exists>k \<ge> 1. i + k \<le> thirdPartyResourceRetryOnFail
     \<and> tprCreates s' = tprCreates s @ replicate k config \<and> tprGets s' = tprGets s
     \<and> tprSlept s' = tprSlept s + int (failed_creates err k) * thirdPartyResourceRetryPeriod
     \<and> (err = None \<or> err = Some create_error \<and> i + k = thirdPartyResourceRetryOnFail)"
  using assms
proof (induction "thirdPartyResourceRetryOnFail - i" arbitrary: i ce s)
  case (Suc d)
  obtain r s1 where c: "create_tpr api config s = (r, s1)" by fastforce
  note f = create_tpr_fields [OF c]
  show ?case
  proof (cases "r = None")
    case True
    with c Suc.prems have "err = None" "s' = s1" by (simp_all add: create_loop_unfold)
    with f Suc.prems(1) show ?thesis by (intro exI [of _ 1]) (simp add: failed_creates_def)
  next
    case False
    with c Suc.prems have rest: "create_loop api config (Suc i) r (sleep api s1) = (err, s')"
      by (simp add: create_loop_unfold [of _ _ i])
    show ?thesis
    proof (cases "Suc i < thirdPartyResourceRetryOnFail")
      case True
      have "d = thirdPartyResourceRetryOnFail - Suc i" using Suc.hyps(2) by simp
      from Suc.hyps(1) [OF this True rest] obtain k where k: "k \<ge> 1" "Suc i + k \<le> thirdPartyResourceRetryOnFail"
        "tprCreates s' = tprCreates s1 @ replicate k config" "tprGets s' = tprGets s1"
        "tprSlept s' = tprSlept s1 + thirdPartyResourceRetryPeriod + int (failed_creates err k) * thirdPartyResourceRetryPeriod"
        "err = None \<or> err = Some create_error \<and> Suc i + k = thirdPartyResourceRetryOnFail"
        by auto
      with f show ?thesis
        by (intro exI [of _ "Suc k"]) (auto simp: failed_creates_Suc algebra_simps)
    next
      case False
      with rest have "err = Some create_error" "s' = sleep api s1" by (simp_all add: create_loop_unfold)
      with f False Suc.prems(1) show ?thesis
        by (intro exI [of _ 1]) (simp add: failed_creates_def)
    qed
  qed
qed simp

section \<open>Properties\<close>

text \<open>
  C39. The registration returns exactly if some probe of the server is answered, by the resource or
  by the news that there is none; a server that only ever fails otherwise keeps the program
  waiting.
\<close>

theorem registration_returns_iff:
  "(\<exists>r. registerThirdPartyResource api s = Some r) \<longleftrightarrow> (\<exists>n. answered (probe api tpr_name n s))"
proof
  assume "\<exists>n. answered (probe api tpr_name n s)"
  then obtain err s1 where "await_server api tpr_name s = Some (err, s1)"
    using await_server_Some by (metis surj_pair)
  then show "\<exists>r. registerThirdPartyResource api s = Some r"
    by (auto simp: registerThirdPartyResource_def split: option.splits)
next
  assume "\<exists>r. registerThirdPartyResource api s = Some r"
  then obtain r where "await_server api tpr_name s = Some r"
    by (auto simp: registerThirdPartyResource_def split: option.splits)
  from await_server_result [OF this] show "\<exists>n. answered (probe api tpr_name n s)"
    by (auto simp: first_answer_def probe_def)
qed

text \<open>
  What a registration that returns has done: probes five seconds apart up to the first answer;
  nothing more if the resource was there; else at most five identical creates, five seconds after
  every failed one, success exactly when one of them succeeded.  The error after the initial list
  cannot be returned.
\<close>

theorem registration_result:
  assumes "registerThirdPartyResource api s = Some (err, s')"
  shows "\<exists>n k. tprGets s' = tprGets s @ replicate (Suc n) tpr_name
     \<and> tprCreates s' = tprCreates s @ replicate k workflow_resource \<and> k \<le> thirdPartyResourceRetryOnFail
     \<and> (k = 0 \<longleftrightarrow> probe api tpr_name n s = None)
     \<and> tprSlept s' = tprSlept s + int (n + failed_creates err k) * thirdPartyResourceRetryPeriod
     \<and> (err = None \<or> err = Some create_error \<and> k = thirdPartyResourceRetryOnFail)"
proof -
  obtain e0 s1 where w: "await_server api tpr_name s = Some (e0, s1)"
    using assms by (auto simp: registerThirdPartyResource_def split: option.splits)
  from await_server_result [OF w] obtain n where g: "get_tpr api tpr_name (waited api tpr_name n s) = (e0, s1)"
    and a: "answered e0" by (auto simp: first_answer_def)
  note f = get_tpr_fields [OF g] waited_fields [of api tpr_name n s]
  have p: "probe api tpr_name n s = e0" by (simp add: probe_def g)
  show ?thesis
  proof (cases e0)
    case None
    with assms w have "err = None" "s' = s1" by (simp_all add: registerThirdPartyResource_def)
    with f p None show ?thesis
      by (intro exI [of _ n] exI [of _ 0]) (simp add: replicate_append_same failed_creates_def)
  next
    case (Some e)
    with a have "is_not_found e" by (simp add: answered_def)
    with assms w Some have "create_loop api workflow_resource 0 None s1 = (err, s')"
      by (simp add: registerThirdPartyResource_def)
    from create_loop_result [OF _ this] obtain k where k: "k \<ge> 1" "k \<le> thirdPartyResourceRetryOnFail"
      "tprCreates s' = tprCreates s1 @ replicate k workflow_resource" "tprGets s' = tprGets s1"
      "tprSlept s' = tprSlept s1 + int (failed_creates err k) * thirdPartyResourceRetryPeriod"
      "err = None \<or> err = Some create_error \<and> k = thirdPartyResourceRetryOnFail"
      by (auto simp: thirdPartyResourceRetryOnFail_def)
    with f p Some show ?thesis
      by (intro exI [of _ n] exI [of _ k]) (auto simp: replicate_append_same algebra_simps)
  qed
qed

text \<open>A controller that serves talks to the workflows under the default path and starts empty.\<close>

lemma main_serves:
  assumes "run_main agent rest forConfig old api net host port s = Some (Serving tp gs m, s')"
  shows "tpBaseURL tp = ''http://'' @ JoinHostPort host port @ ''/apis/nerdalize.com/v1alpha1''"
    and "\<exists>c. forConfig (clientConfig host port) = Inr c \<and> m = NewManager c net
           \<and> registerThirdPartyResource (api c) s = Some (None, s')"
proof -
  have "path_Join [defaultAPIPath, Group, Version] = ''/apis/nerdalize.com/v1alpha1''" by code_simp
  with assms show "tpBaseURL tp = ''http://'' @ JoinHostPort host port @ ''/apis/nerdalize.com/v1alpha1''"
    by (auto simp: run_main_def NewThirdParty_def setThirdPartyDefaults_def clientConfig_def Let_def
        split: sum.splits option.splits)
  show "\<exists>c. forConfig (clientConfig host port) = Inr c \<and> m = NewManager c net
           \<and> registerThirdPartyResource (api c) s = Some (None, s')"
    using assms by (auto simp: run_main_def Let_def split: sum.splits option.splits)
qed

section \<open>Examples\<close>

text \<open>A server that answers from a list, whatever it is asked.\<close>

definition scripted_tpr :: "go_error option list tpr_api" where
  "scripted_tpr =
     \<lparr>tprGet = \<lambda>_ w. (hd w, tl w), tprCreate = \<lambda>_ w. (hd w, tl w), tprSleep = \<lambda>_ w. w\<rparr>"

definition tpr_script :: "go_error option list \<Rightarrow> go_error option list rstate" where
  "tpr_script w = \<lparr>tprGets = [], tprCreates = [], tprSlept = 0, tprWorld = w\<rparr>"

definition slow_start :: "go_error option list" where
  "slow_start =
     [Some (Errorf ''connection refused''), Some (StatusError ReasonNotFound), Some (StatusError ReasonConflict), None]"

lemma registration_result_witness:
  "\<exists>s' n k. registerThirdPartyResource scripted_tpr (tpr_script slow_start) = Some (None, s')
     \<and> tprGets s' = replicate (Suc n) tpr_name \<and> tprCreates s' = replicate k workflow_resource
     \<and> k \<le> thirdPartyResourceRetryOnFail \<and> (k = 0 \<longleftrightarrow> probe scripted_tpr tpr_name n (tpr_script slow_start) = None)"
proof -
  have "map_option fst (registerThirdPartyResource scripted_tpr (tpr_script slow_start)) = Some None"
    by code_simp
  then obtain s' where r: "registerThirdPartyResource scripted_tpr (tpr_script slow_start) = Some (None, s')"
    by auto
  from registration_result [OF r] r show ?thesis by (auto simp: tpr_script_def)
qed

end
