(* ===== verification/Dax.thy ===== *)
theory Dax
  imports Validation
begin

text \<open>
  \<^verbatim>\<open>dax-to-json\<close>: the program that turns a DAX graph (Pegasus' XML format) into a workflow.  The XML
  and JSON libraries, \<^verbatim>\<open>resource.MustParse\<close> (None is its panic, the result is the canonical form of
  the quantity) and the random generator are parameters.  Strings are bytes, so lower casing is
  that of ASCII, the letters DAX identifiers consist of.
\<close>

section \<open>Standard library\<close>

definition lower_char :: "char \<Rightarrow> char" where
  "lower_char c =
     (if 65 \<le> (of_char c :: nat) \<and> (of_char c :: nat) \<le> 90 then char_of ((of_char c :: nat) + 32) else c)"

definition ToLower :: "string \<Rightarrow> string" where
  "ToLower = map lower_char"

fun digits :: "nat \<Rightarrow> string" where
  "digits n = (if n < 10 then [char_of (48 + n)] else digits (n div 10) @ [char_of (48 + n mod 10)])"

declare digits.simps [simp del]

definition Itoa :: "int \<Rightarrow> string" where
  "Itoa i = (if i < 0 then ''-'' @ digits (nat (- i)) else digits (nat i))"

section \<open>Types\<close>

record DaxJob =
  jobID :: string

record Parent =
  parentRef :: string

record Child =
  childRef :: string
  Parents :: "Parent list"

record Adag =
  daxJobs :: "DaxJob list"
  Childs :: "Child list"
  ChildMap :: "string list nilmap"

section \<open>Constants\<close>

definition millicoresRange :: int where "millicoresRange = 50"
definition millicoreFactor :: int where "millicoreFactor = 10"
definition noOfCores :: string where "noOfCores = ''1''"
definition timeout :: string where "timeout = ''30''"
definition schedulingAnnotation :: string where "schedulingAnnotation = ''scheduler.alpha.kubernetes.io/name''"
definition heatSchedulerName :: string where "heatSchedulerName = ''heat-scheduler''"
definition parallelism :: int where "parallelism = 1"
definition defaultWorkflowName :: string where "defaultWorkflowName = ''test-workflow''"

definition name_only :: "string \<Rightarrow> ObjectMeta" where
  "name_only n =
     \<lparr>Name = n, GenerateName = [], Namespace = [], UID = [], ResourceVersion = [], Labels = None, Annotations = None\<rparr>"

section \<open>Conversion\<close>

definition getWorkflowName :: "string list \<Rightarrow> string" where
  "getWorkflowName args = (if length args = 2 then args ! 1 else defaultWorkflowName)"

fun child_map :: "Child list \<Rightarrow> string list gomap \<Rightarrow> string list gomap" where
  "child_map [] m = m"
| "child_map (c # cs) m =
     child_map cs (fmupd (childRef c) (map (\<lambda>p. ToLower (parentRef p)) (Parents c)) m)"

definition mapJobsToDependencies :: "Adag \<Rightarrow> Adag" where
  "mapJobsToDependencies adag = adag\<lparr>ChildMap := Some (child_map (Childs adag) fmempty)\<rparr>"

definition newWorkflow :: "string \<Rightarrow> Workflow" where
  "newWorkflow name =
     \<lparr>wfType = \<lparr>tmKind = Kind, tmAPIVersion = path_Join [Group, Version]\<rparr>,
      wfMeta = name_only name,
      Spec = \<lparr>ActiveDeadlineSeconds = Some 3600, Steps = Some fmempty, JobsSelector = None\<rparr>,
      Status = \<lparr>Conditions = [], StartTime = None, CompletionTime = None, Statuses = None\<rparr>\<rparr>"

text \<open>\<open>intn n r\<close> is \<^verbatim>\<open>rand.Intn(n)\<close> on the generator \<open>r\<close>.  The quantity is parsed twice, to the same effect.\<close>

definition newStep ::
  "(int \<Rightarrow> 'r \<Rightarrow> int \<times> 'r) \<Rightarrow> (string \<Rightarrow> string option) \<Rightarrow> string \<Rightarrow> string list \<Rightarrow> bool \<Rightarrow> 'r \<Rightarrow>
   (WorkflowStep \<times> 'r) option" where
  "newStep intn mustParse name0 dependencies scheduling r =
     (let name = ToLower name0; (load, r') = intn millicoresRange r
      in case mustParse (Itoa (load * millicoreFactor) @ ''m'') of
           None \<Rightarrow> None
         | Some cpu \<Rightarrow>
             (let container =
                    \<lparr>cName = name @ ''-container'', cImage = ''lorel/docker-stress-ng'',
                     cArgs = [''--cpu'', noOfCores, ''--cpu-load'', Itoa load, ''-t'', timeout],
                     cLimits = fmupd ''cpu'' cpu fmempty, cRequests = fmupd ''cpu'' cpu fmempty\<rparr>;
                  pod = \<lparr>podMeta = name_only (name @ ''-pod''), RestartPolicy = ''OnFailure'', Containers = [container]\<rparr>;
                  pod' = (if scheduling
                          then pod\<lparr>podMeta := (podMeta pod)\<lparr>Annotations :=
                                     Some (fmupd schedulingAnnotation heatSchedulerName fmempty)\<rparr>\<rparr>
                          else pod)
              in Some
                   (\<lparr>JobTemplate = Some \<lparr>tmplMeta = name_only name,
                       tmplSpec = \<lparr>Parallelism = Some parallelism, Selector = None, Template = pod'\<rparr>\<rparr>,
                     ExternalRef = None, Dependencies = dependencies\<rparr>, r')))"

text \<open>A child that is not in the map has no dependencies: reading it gives the nil slice.\<close>

definition dependencies_of :: "Adag \<Rightarrow> string \<Rightarrow> string list" where
  "dependencies_of adag i = (case map_get (ChildMap adag) i of None \<Rightarrow> [] | Some ds \<Rightarrow> ds)"

fun add_steps ::
  "(int \<Rightarrow> 'r \<Rightarrow> int \<times> 'r) \<Rightarrow> (string \<Rightarrow> string option) \<Rightarrow> bool \<Rightarrow> Adag \<Rightarrow> DaxJob list \<Rightarrow>
   WorkflowStep gomap \<times> 'r \<Rightarrow> (WorkflowStep gomap \<times> 'r) option" where
  "add_steps intn mustParse scheduling adag [] (steps, r) = Some (steps, r)"
| "add_steps intn mustParse scheduling adag (job # jobs) (steps, r) =
     (case newStep intn mustParse (jobID job) (dependencies_of adag (jobID job)) scheduling r of
        None \<Rightarrow> None
      | Some (step, r') \<Rightarrow>
          add_steps intn mustParse scheduling adag jobs (fmupd (ToLower (jobID job)) step steps, r'))"

definition convert ::
  "(int \<Rightarrow> 'r \<Rightarrow> int \<times> 'r) \<Rightarrow> (string \<Rightarrow> string option) \<Rightarrow> bool \<Rightarrow> string list \<Rightarrow> Adag \<Rightarrow> 'r \<Rightarrow> Workflow option" where
  "convert intn mustParse scheduling args adag0 r =
     (let adag = mapJobsToDependencies adag0; w = newWorkflow (getWorkflowName args)
      in case add_steps intn mustParse scheduling adag (daxJobs adag) (entries (Steps (Spec w)), r) of
           None \<Rightarrow> None
         | Some (steps, r') \<Rightarrow> Some (w\<lparr>Spec := (Spec w)\<lparr>Steps := Some steps\<rparr>\<rparr>))"

datatype printed = Usage | ParseError go_error | MarshalError go_error | Json string

definition printWorkflow :: "(Workflow \<Rightarrow> go_error + string) \<Rightarrow> Workflow \<Rightarrow> printed" where
  "printWorkflow to_json w = (case to_json w of Inl err \<Rightarrow> MarshalError err | Inr b \<Rightarrow> Json b)"

text \<open>\<open>readFile\<close> opens and reads the file, \<open>unmarshalXML\<close> is the XML decoder.\<close>

definition parseDax ::
  "(string \<Rightarrow> go_error + string) \<Rightarrow> (string \<Rightarrow> go_error + Adag) \<Rightarrow> string \<Rightarrow> go_error + Adag" where
  "parseDax readFile unmarshalXML filename =
     (case readFile filename of Inl err \<Rightarrow> Inl err | Inr data \<Rightarrow> unmarshalXML data)"

definition dax_main ::
  "(string \<Rightarrow> go_error + string) \<Rightarrow> (string \<Rightarrow> go_error + Adag) \<Rightarrow> (Workflow \<Rightarrow> go_error + string) \<Rightarrow>
   (int \<Rightarrow> 'r \<Rightarrow> int \<times> 'r) \<Rightarrow> (string \<Rightarrow> string option) \<Rightarrow> bool \<Rightarrow> string list \<Rightarrow> 'r \<Rightarrow> printed option" where
  "dax_main readFile unmarshalXML to_json intn mustParse scheduling args r =
     (case args of
        [] \<Rightarrow> Some Usage
      | filename # _ \<Rightarrow>
          (case parseDax readFile unmarshalXML filename of
             Inl err \<Rightarrow> Some (ParseError err)
           | Inr adag \<Rightarrow> map_option (printWorkflow to_json) (convert intn mustParse scheduling args adag r)))"

section \<open>What the conversion makes of a graph\<close>

text \<open>The job that gives a step its contents, and the child element that gives it its dependencies: the last of each.\<close>

definition job_of :: "Adag \<Rightarrow> string \<Rightarrow> DaxJob option" where
  "job_of adag k = find (\<lambda>j. ToLower (jobID j) = k) (rev (daxJobs adag))"

definition parents_of :: "Adag \<Rightarrow> string \<Rightarrow> string list" where
  "parents_of adag i =
     (case find (\<lambda>c. childRef c = i) (rev (Childs adag)) of
        None \<Rightarrow> []
      | Some c \<Rightarrow> map (\<lambda>p. ToLower (parentRef p)) (Parents c))"

lemma child_map_lookup:
  "fmlookup (child_map cs m) i =
     (case find (\<lambda>c. childRef c = i) (rev cs) of
        None \<Rightarrow> fmlookup m i
      | Some c \<Rightarrow> Some (map (\<lambda>p. ToLower (parentRef p)) (Parents c)))"
proof (induction cs arbitrary: m)
  case (Cons c cs)
  have "find P (xs @ [x]) = (case find P xs of None \<Rightarrow> if P x then Some x else None | Some y \<Rightarrow> Some y)"
    for P and x :: Child and xs by (induction xs) auto
  with Cons show ?case by (auto split: option.split)
qed simp

lemma dependencies_of_parents: "dependencies_of (mapJobsToDependencies adag) i = parents_of adag i"
  by (auto simp: dependencies_of_def mapJobsToDependencies_def child_map_lookup parents_of_def split: option.split)

lemma find_snoc:
  "find P (xs @ [x]) = (case find P xs of None \<Rightarrow> if P x then Some x else None | Some y \<Rightarrow> Some y)"
  by (induction xs) auto

text \<open>\<open>step\<close> is what \<^verbatim>\<open>newStep\<close> makes of some draw of the generator.\<close>

definition step_from :: "(int \<Rightarrow> 'r \<Rightarrow> int \<times> 'r) \<Rightarrow> (string \<Rightarrow> string option) \<Rightarrow> bool \<Rightarrow> Adag \<Rightarrow> DaxJob \<Rightarrow> WorkflowStep \<Rightarrow> bool" where
  "step_from intn mustParse scheduling adag j step \<longleftrightarrow>
     (\<exists>r r'. newStep intn mustParse (jobID j) (dependencies_of adag (jobID j)) scheduling r = Some (step, r'))"

lemma add_steps_lookup:
  "add_steps intn mustParse scheduling adag jobs (steps, r) = Some (steps', r') \<Longrightarrow>
     (case find (\<lambda>j. ToLower (jobID j) = k) (rev jobs) of
        None \<Rightarrow> fmlookup steps' k = fmlookup steps k
      | Some j \<Rightarrow> \<exists>step. fmlookup steps' k = Some step \<and> step_from intn mustParse scheduling adag j step)"
proof (induction jobs arbitrary: steps r)
  case (Cons job jobs)
  from Cons.prems obtain step r1
    where n: "newStep intn mustParse (jobID job) (dependencies_of adag (jobID job)) scheduling r = Some (step, r1)"
      and rest: "add_steps intn mustParse scheduling adag jobs (fmupd (ToLower (jobID job)) step steps, r1) = Some (steps', r')"
    by (auto split: option.splits)
  from n have "step_from intn mustParse scheduling adag job step" unfolding step_from_def by blast
  with Cons.IH [OF rest] show ?case by (auto simp: find_snoc split: option.splits)
qed simp

lemma convert_steps:
  assumes "convert intn mustParse scheduling args adag r = Some w"
  shows "case job_of adag k of
           None \<Rightarrow> fmlookup (wf_steps w) k = None
         | Some j \<Rightarrow> \<exists>step. fmlookup (wf_steps w) k = Some step
             \<and> step_from intn mustParse scheduling (mapJobsToDependencies adag) j step"
proof -
  let ?a = "mapJobsToDependencies adag"
  from assms obtain steps r' where a: "add_steps intn mustParse scheduling ?a (daxJobs ?a) (fmempty, r) = Some (steps, r')"
    and w: "w = (newWorkflow (getWorkflowName args))\<lparr>Spec := (Spec (newWorkflow (getWorkflowName args)))\<lparr>Steps := Some steps\<rparr>\<rparr>"
    by (auto simp: convert_def Let_def newWorkflow_def split: option.splits)
  from add_steps_lookup [OF a, of k] w show ?thesis
    by (auto simp: job_of_def mapJobsToDependencies_def split: option.splits)
qed

text \<open>What a step made with the draw \<open>load\<close> looks like.\<close>

definition stress_step :: "(string \<Rightarrow> string option) \<Rightarrow> bool \<Rightarrow> string \<Rightarrow> string list \<Rightarrow> int \<Rightarrow> WorkflowStep \<Rightarrow> bool" where
  "stress_step mustParse scheduling k ds load step \<longleftrightarrow>
     Dependencies step = ds \<and> ExternalRef step = None
     \<and> (\<exists>t c cpu. JobTemplate step = Some t \<and> Name (tmplMeta t) = k
          \<and> mustParse (Itoa (10 * load) @ ''m'') = Some cpu
          \<and> Containers (Template (tmplSpec t)) = [c] \<and> cLimits c = fmap_of_list [(''cpu'', cpu)] \<and> cRequests c = cLimits c
          \<and> cArgs c = [''--cpu'', ''1'', ''--cpu-load'', Itoa load, ''-t'', ''30'']
          \<and> (Annotations (podMeta (Template (tmplSpec t))) \<noteq> None \<longleftrightarrow> scheduling))"

lemma newStep_stress:
  assumes "newStep intn mustParse n ds scheduling r = Some (step, r')"
  shows "stress_step mustParse scheduling (ToLower n) ds (fst (intn millicoresRange r)) step"
  using assms
  by (auto simp: newStep_def stress_step_def name_only_def noOfCores_def timeout_def millicoreFactor_def
      Let_def mult.commute fmap_of_list_simps split: prod.splits option.splits)

text \<open>
  C40. A converted graph has exactly one step per lower-cased job identifier, that of the last job
  with it; its dependencies are the lower-cased parents of the last child element whose reference
  is that identifier to the letter; its pod is limited to a multiple of ten millicores from 0 to
  490, which it also requests.
\<close>

theorem dax_steps_exact:
  assumes "convert intn mustParse scheduling args adag r = Some w"
    and "\<And>q. 0 \<le> fst (intn millicoresRange q) \<and> fst (intn millicoresRange q) < millicoresRange"
  shows "case job_of adag k of
           None \<Rightarrow> fmlookup (wf_steps w) k = None
         | Some j \<Rightarrow> \<exists>step load. fmlookup (wf_steps w) k = Some step
             \<and> stress_step mustParse scheduling k (parents_of adag (jobID j)) load step \<and> 0 \<le> load \<and> 10 * load \<le> 490"
proof (cases "job_of adag k")
  case None
  with convert_steps [OF assms(1), of k] show ?thesis by simp
next
  case (Some j)
  then have k: "ToLower (jobID j) = k" by (auto simp: job_of_def find_Some_iff)
  from convert_steps [OF assms(1), of k] Some obtain step q q' where l: "fmlookup (wf_steps w) k = Some step"
    and n: "newStep intn mustParse (jobID j) (parents_of adag (jobID j)) scheduling q = Some (step, q')"
    by (auto simp: step_from_def dependencies_of_parents)
  from newStep_stress [OF n] k l assms(2) [of q] Some show ?thesis
    by (auto simp: millicoresRange_def intro!: exI [of _ "fst (intn millicoresRange q)"])
qed

text \<open>The graph of the document, as far as the conversion looks at it.\<close>

definition dax_deps :: "Adag \<Rightarrow> (string \<times> string) set" where
  "dax_deps adag = {(k, d). \<exists>j. job_of adag k = Some j \<and> d \<in> set (parents_of adag (jobID j))}"

lemma step_from_Dependencies:
  "step_from intn mustParse scheduling (mapJobsToDependencies adag) j step \<Longrightarrow>
     Dependencies step = parents_of adag (jobID j) \<and> ExternalRef step = None"
  by (auto simp: step_from_def dependencies_of_parents stress_step_def dest: newStep_stress)

lemma convert_lookup:
  assumes "convert intn mustParse scheduling args adag r = Some w"
  shows "fmlookup (wf_steps w) k = None \<longleftrightarrow> job_of adag k = None"
    and "fmlookup (wf_steps w) k = Some step \<Longrightarrow>
           \<exists>j. job_of adag k = Some j \<and> Dependencies step = parents_of adag (jobID j) \<and> ExternalRef step = None"
    and "job_of adag k = Some j \<Longrightarrow>
           \<exists>step. fmlookup (wf_steps w) k = Some step \<and> Dependencies step = parents_of adag (jobID j)"
  using convert_steps [OF assms, of k]
  by (auto dest: step_from_Dependencies split: option.splits)

lemma convert_deps:
  assumes "convert intn mustParse scheduling args adag r = Some w"
  shows "deps (wf_steps w) = dax_deps adag"
proof -
  have "(k, d) \<in> deps (wf_steps w) \<longleftrightarrow> (k, d) \<in> dax_deps adag" for k d
    using convert_lookup(2,3) [OF assms, of k] unfolding deps_def dax_deps_def by fastforce
  then show ?thesis by auto
qed

lemma convert_closed:
  assumes "convert intn mustParse scheduling args adag r = Some w"
  shows "no_missing_deps (wf_steps w) \<longleftrightarrow> Range (dax_deps adag) \<subseteq> {d. job_of adag d \<noteq> None}"
proof -
  have "d \<in> fmdom' (wf_steps w) \<longleftrightarrow> job_of adag d \<noteq> None" for d
    using convert_lookup(1) [OF assms, of d] by (auto simp: fmlookup_dom'_iff)
  then have "fmdom' (wf_steps w) = {d. job_of adag d \<noteq> None}" by blast
  then show ?thesis by (simp add: no_missing_deps_Range convert_deps [OF assms])
qed

lemma convert_exclusive:
  assumes "convert intn mustParse scheduling args adag r = Some w"
  shows "exclusive_steps (wf_steps w)"
  unfolding exclusive_steps_def fmpred_iff by (auto dest: convert_lookup(2) [OF assms])

lemma convert_spec:
  "convert intn mustParse scheduling args adag r = Some w \<Longrightarrow>
     ActiveDeadlineSeconds (Spec w) = Some 3600 \<and> JobsSelector (Spec w) = None"
  by (auto simp: convert_def newWorkflow_def Let_def split: option.splits)

text \<open>The first pass over a workflow without a selector: it gets the one of its identifier.\<close>

lemma SetDefaults_no_selector:
  assumes "JobsSelector (Spec w) = None"
  shows "\<exists>w'. SetDefaults now w = Some w' \<and> Steps (Spec w') = Steps (Spec w)
     \<and> ActiveDeadlineSeconds (Spec w') = ActiveDeadlineSeconds (Spec w)
     \<and> JobsSelector (Spec w') =
         Some \<lparr>MatchLabels = Some (fmupd WorkflowUIDLabel (UID (wfMeta w)) fmempty), MatchExpressions = []\<rparr>"
  using assms by (simp add: SetDefaults_def SetUID_def Let_def)

lemma uid_selector_shape:
  "selector_shape \<lparr>MatchLabels = Some (fmupd k v fmempty), MatchExpressions = []\<rparr> \<longleftrightarrow> valid_label k v"
  by (auto simp: selector_shape_def valid_labels_def fmpred_iff)

text \<open>
  A converted workflow, posted to the server under any metadata, passes the validation of its
  first pass exactly if its identifier is a label value, every parent in the document is a job of
  it and the jobs depend on each other without a cycle.
\<close>

theorem dax_workflow_accepted:
  assumes "convert intn mustParse scheduling args adag r = Some w" and "range_order (wf_steps w) sks"
  shows "\<exists>w'. SetDefaults now (w\<lparr>wfMeta := m\<rparr>) = Some w'
     \<and> (ValidateWorkflowSpec (Spec w') [WorkflowUIDLabel] sks p = [] \<longleftrightarrow>
          valid_label WorkflowUIDLabel (UID m) \<and> acyclic (dax_deps adag)
          \<and> Range (dax_deps adag) \<subseteq> {d. job_of adag d \<noteq> None})"
proof -
  from convert_spec [OF assms(1)] have "JobsSelector (Spec (w\<lparr>wfMeta := m\<rparr>)) = None" by simp
  from SetDefaults_no_selector [OF this, of now] obtain w' where w': "SetDefaults now (w\<lparr>wfMeta := m\<rparr>) = Some w'"
    and f: "Steps (Spec w') = Steps (Spec w)" "ActiveDeadlineSeconds (Spec w') = ActiveDeadlineSeconds (Spec w)"
      "JobsSelector (Spec w') = Some \<lparr>MatchLabels = Some (fmupd WorkflowUIDLabel (UID m) fmempty), MatchExpressions = []\<rparr>"
    by auto
  have o: "selector_order (JobsSelector (Spec w')) [WorkflowUIDLabel]" by (simp add: f(3) selector_order_def)
  have "ValidateWorkflowSpec (Spec w') [WorkflowUIDLabel] sks p = [] \<longleftrightarrow>
          valid_label WorkflowUIDLabel (UID m) \<and> acyclic (deps (wf_steps w)) \<and> no_missing_deps (wf_steps w)
          \<and> exclusive_steps (wf_steps w)"
    using o assms(2) convert_spec [OF assms(1)]
    by (auto simp: ValidateWorkflowSpec_def f ValidateWorkflowSteps_Nil ValidateNonnegativeField_def
        ValidateLabelSelector_Nil uid_selector_shape)
  with w' show ?thesis
    by (auto simp: convert_deps [OF assms(1)] convert_closed [OF assms(1)] convert_exclusive [OF assms(1)])
qed

section \<open>Examples\<close>

definition dax_job :: "string \<Rightarrow> DaxJob" where
  "dax_job i = \<lparr>jobID = i\<rparr>"

definition dax_child :: "string \<Rightarrow> string list \<Rightarrow> Child" where
  "dax_child i ps = \<lparr>childRef = i, Parents = map (\<lambda>p. \<lparr>parentRef = p\<rparr>) ps\<rparr>"

text \<open>Three jobs, the last one behind the other two; and one whose parent does not exist.\<close>

definition small_dax :: Adag where
  "small_dax = \<lparr>daxJobs = [dax_job ''ID00'', dax_job ''ID01'', dax_job ''ID02''],
     Childs = [dax_child ''ID02'' [''ID00''], dax_child ''ID02'' [''ID00'', ''ID01'']], ChildMap = None\<rparr>"

definition orphan_dax :: Adag where
  "orphan_dax = \<lparr>daxJobs = [dax_job ''ID00''], Childs = [dax_child ''ID00'' [''ID07'']], ChildMap = None\<rparr>"

definition counting_intn :: "int \<Rightarrow> int \<Rightarrow> int \<times> int" where
  "counting_intn n r = (r mod n, r + 48)"

definition converted :: "Adag \<Rightarrow> Workflow option" where
  "converted adag = convert counting_intn Some True [''montage.xml''] adag 1"

lemma converted_some: "converted small_dax = Some (the (converted small_dax))"
  "converted orphan_dax = Some (the (converted orphan_dax))"
  by code_simp+

lemma dax_steps_exact_witness:
  "\<exists>step load. fmlookup (wf_steps (the (converted small_dax))) ''id02'' = Some step
     \<and> stress_step Some True ''id02'' [''id00'', ''id01''] load step \<and> 0 \<le> load \<and> 10 * load \<le> 490"
proof -
  note c = converted_some(1) [unfolded converted_def [of small_dax]]
  have r: "\<And>q. 0 \<le> fst (counting_intn millicoresRange q) \<and> fst (counting_intn millicoresRange q) < millicoresRange"
    by (simp add: counting_intn_def millicoresRange_def)
  have "job_of small_dax ''id02'' = Some (dax_job ''ID02'')"
    "parents_of small_dax (jobID (dax_job ''ID02'')) = [''id00'', ''id01'']" by code_simp+
  with dax_steps_exact [OF c r, of "''id02''"] show ?thesis by (simp add: converted_def)
qed

lemma dax_workflow_accepted_witness:
  "\<exists>w'. SetDefaults 7 ((the (converted orphan_dax))\<lparr>wfMeta := sample_meta ''orphan'' None\<rparr>) = Some w'
     \<and> ValidateWorkflowSpec (Spec w') [WorkflowUIDLabel] [''id00''] [] \<noteq> []"
proof -
  note c = converted_some(2) [unfolded converted_def [of orphan_dax]]
  have "range_order (wf_steps (the (converted orphan_dax))) [''id00'']" by code_simp
  then have o: "range_order (wf_steps (the (convert counting_intn Some True [''montage.xml''] orphan_dax 1))) [''id00'']"
    by (simp add: converted_def)
  have "job_of orphan_dax ''id00'' = Some (dax_job ''ID00'')" "''id07'' \<in> set (parents_of orphan_dax (jobID (dax_job ''ID00'')))"
    "job_of orphan_dax ''id07'' = None" by code_simp+
  then have "(''id00'', ''id07'') \<in> dax_deps orphan_dax" "job_of orphan_dax ''id07'' = None"
    unfolding dax_deps_def by blast+
  then have "\<not> Range (dax_deps orphan_dax) \<subseteq> {d. job_of orphan_dax d \<noteq> None}" by blast
  with dax_workflow_accepted [OF c o, of 7 "sample_meta ''orphan'' None" "[]"] show ?thesis
    by (auto simp: converted_def)
qed

end
