(* ===== verification/Liveness.thy ===== *)
theory Liveness
  imports Pass
begin

text \<open>
  Workflows complete: over any sequence of passes of \<^verbatim>\<open>processSteps\<close>, each with its own view of the
  cache and the clock and its own order of the steps.  A pass is served if the job of every open
  step whose dependencies are done is there, alone, and finished; what a pass that is not served
  does is left open.  The measure is the number of steps that are not complete.
\<close>

section \<open>Passes\<close>

definition served_step :: "'c tenv \<Rightarrow> Workflow \<Rightarrow> string \<Rightarrow> WorkflowStep \<Rightarrow> bool" where
  "served_step env w s step \<longleftrightarrow>
     (case JobTemplate step of
        None \<Rightarrow> False
      | Some t \<Rightarrow>
          (case step_jobs env w s t of
             [job] \<Rightarrow> IsJobFinished job \<and> \<not> isl (teGetReference env job)
           | _ \<Rightarrow> False))"

definition open_step :: "Workflow \<Rightarrow> string \<Rightarrow> bool" where
  "open_step w s \<longleftrightarrow> step_phase w s \<noteq> Completed"

definition served :: "'c tenv \<Rightarrow> Workflow \<Rightarrow> bool" where
  "served env w \<longleftrightarrow>
     fmpred (\<lambda>s step. open_step w s \<and> DependenciesResolved step w \<longrightarrow> served_step env w s step) (wf_steps w)"

text \<open>\<open>passes n x y\<close>: passes lead from \<open>x\<close> to \<open>y\<close>, and \<open>n\<close> of them were served.\<close>

inductive passes :: "nat \<Rightarrow> Workflow \<times> 'c tstate \<Rightarrow> Workflow \<times> 'c tstate \<Rightarrow> bool" where
  no_pass: "passes 0 x x"
| one_more: "passes n x (w, st) \<Longrightarrow> range_order (wf_steps w) (teRange env) \<Longrightarrow>
     processSteps env w st = Some (b, w', st') \<Longrightarrow>
     passes (if served env w then Suc n else n) x (w', st')"

definition open_steps :: "Workflow \<Rightarrow> nat" where
  "open_steps w = card {s \<in> fmdom' (wf_steps w). open_step w s}"

section \<open>Well-formed workflows\<close>

text \<open>Only steps of the spec have a status, and only once everything they depend on is complete.\<close>

definition statuses_ok :: "Workflow \<Rightarrow> bool" where
  "statuses_ok w \<longleftrightarrow>
     fmpred (\<lambda>s x. case fmlookup (wf_steps w) s of None \<Rightarrow> False | Some step \<Rightarrow> DependenciesResolved step w) (wf_statuses w)"

lemma statuses_ok_started:
  "statuses_ok w \<longleftrightarrow>
     (\<forall>s. Running \<le> step_phase w s \<longrightarrow> (\<exists>step. fmlookup (wf_steps w) s = Some step \<and> DependenciesResolved step w))"
proof -
  have "Running \<le> step_phase w s \<longleftrightarrow> fmlookup (wf_statuses w) s \<noteq> None" for s
    by (auto simp: step_phase_def status_phase_def map_get_entries split: option.split)
  then show ?thesis by (fastforce simp: statuses_ok_def fmpred_iff split: option.splits)
qed

lemma process_step_changes:
  assumes "process_step env w s step st = Some (b, w', st')" and "fmlookup (wf_steps w) s = Some step"
  shows "w' = w \<or> DependenciesResolved step w"
proof (cases "JobTemplate step = None")
  case True
  with assms(1) show ?thesis
    by (auto simp: process_step_def processExternalReferenceStep_def split: if_splits)
next
  case False
  with assms(1) have "processJobStep env w s step st = Some (b, w', st')" by (simp add: process_step_def)
  from this assms(2) show ?thesis by (cases rule: processJobStep_cases) simp_all
qed

lemma process_step_statuses_ok:
  assumes p: "process_step env w s step st = Some (b, w', st')" and lk: "fmlookup (wf_steps w) s = Some step"
    and "open_step w s" and ok: "statuses_ok w"
  shows "statuses_ok w'"
proof (cases "w' = w")
  case False
  with process_step_changes [OF p lk] have d: "DependenciesResolved step w" by blast
  from process_step_frame [OF p lk] have fr: "status_frame w s w'" by simp
  have mono: "step_phase w k \<le> step_phase w' k" for k
    using process_step_phase_mono [OF p lk] assms(3) by (simp add: open_step_def)
  show ?thesis unfolding statuses_ok_started
  proof (intro allI impI)
    fix k assume k: "Running \<le> step_phase w' k"
    show "\<exists>step. fmlookup (wf_steps w') k = Some step \<and> DependenciesResolved step w'"
    proof (cases "k = s")
      case True
      with lk d mono status_frame_simps(2) [OF fr] show ?thesis
        by (auto intro: DependenciesResolved_mono)
    next
      case False
      with k ok status_frame_simps(5) [OF fr False] obtain step'
        where "fmlookup (wf_steps w) k = Some step'" "DependenciesResolved step' w"
        unfolding statuses_ok_started by auto
      with mono status_frame_simps(2) [OF fr] show ?thesis by (auto intro: DependenciesResolved_mono)
    qed
  qed
qed (use ok in simp)

lemma processSteps_statuses_ok:
  assumes "processSteps env w st = Some (b, w', st')" and "statuses_ok w"
  shows "statuses_ok w'"
proof -
  from assms(1) obtain n c v where
    loop: "steps_loop env (wf_steps w) (teRange env) (False, True, w, st) = Some (n, c, v, st')"
    and v: "w' = v \<or> w' = AddCompleteCondition (teNow env) v"
    by (auto simp: processSteps_def split: option.splits if_splits)
  have "Spec v = Spec w \<and> statuses_ok v" using loop
  proof (induction rule: steps_loop_induct [where P = "\<lambda>_ _ _ v _. Spec v = Spec w \<and> statuses_ok v"])
    case init
    with assms(2) show ?case by simp
  next
    case (process k rest n c v st1 step b v1 st2)
    then have lk: "fmlookup (wf_steps v) k = Some step" by simp
    from process_step_frame [OF process(4) lk] have "status_frame v k v1" by simp
    from status_frame_simps(2) [OF this] process(1,3) process_step_statuses_ok [OF process(4) lk] show ?case
      by (simp add: open_step_def)
  qed simp
  moreover have "statuses_ok (AddCompleteCondition t v) = statuses_ok v" for t
    by (simp add: statuses_ok_def DependenciesResolved_def cong: option.case_cong)
  ultimately show ?thesis using v by auto
qed

lemma passes_statuses_ok:
  assumes "passes n (w, st) (w', st')" and "statuses_ok w"
  shows "statuses_ok w'"
  using assms(1)
proof (induction n "(w, st)" "(w', st')" arbitrary: w' st' rule: passes.induct)
  case no_pass
  with assms(2) show ?case by simp
next
  case (one_more n v st1 env b v' st2)
  from one_more(2) have "statuses_ok v" by simp
  with processSteps_statuses_ok [OF one_more(4)] show ?case by simp
qed

text \<open>
  C12. No step starts early, whatever the passes see and in whatever order they visit the steps: a
  workflow that starts out well-formed - as one fresh from \<^verbatim>\<open>SetDefaults\<close>, without any status, is -
  stays so, that is, only steps of its spec have a status, and only when all their dependencies are
  complete.
\<close>

theorem passes_well_formed:
  assumes "passes n (w, st) (w', st')" and "statuses_ok w"
  shows "statuses_ok w'"
  using assms by (rule passes_statuses_ok)

lemma SetDefaults_no_status: "SetDefaults now w = Some w' \<Longrightarrow> Statuses (Status w') = Some fmempty"
  by (auto simp: SetDefaults_def SetUID_def Let_def split: option.splits)

lemma SetDefaults_statuses_ok: "SetDefaults now w = Some w' \<Longrightarrow> statuses_ok w'"
  by (auto simp: statuses_ok_def dest: SetDefaults_no_status)

section \<open>Some step is always ready\<close>

lemma finite_deps: "no_missing_deps steps \<Longrightarrow> finite (deps steps)"
  by (rule finite_subset [of _ "fmdom' steps \<times> fmdom' steps"])
    (auto simp: no_missing_deps_Range deps_def fmlookup_dom'_iff)

lemma ready_step:
  assumes "acyclic (deps (wf_steps w))" and "no_missing_deps (wf_steps w)"
    and "s \<in> fmdom' (wf_steps w)" "open_step w s"
  obtains s' step where "fmlookup (wf_steps w) s' = Some step" "open_step w s'" "DependenciesResolved step w"
proof -
  let ?O = "{s \<in> fmdom' (wf_steps w). open_step w s}"
  have "wf ((deps (wf_steps w))\<inverse>)"
    using assms(1,2) by (intro finite_acyclic_wf_converse finite_deps)
  moreover have "s \<in> ?O" using assms(3,4) by simp
  ultimately obtain s' where s': "s' \<in> ?O" and min: "\<And>y. (y, s') \<in> (deps (wf_steps w))\<inverse> \<Longrightarrow> y \<notin> ?O"
    by (elim wfE_min) blast+
  then obtain step where step: "fmlookup (wf_steps w) s' = Some step" by (auto simp: fmlookup_dom'_iff)
  have "step_phase w d = Completed" if "d \<in> set (Dependencies step)" for d
  proof -
    have e: "(s', d) \<in> deps (wf_steps w)" using step that by (rule depsI)
    then have "d \<in> fmdom' (wf_steps w)" using assms(2) by (auto simp: no_missing_deps_Range)
    with min [of d] e show ?thesis by (auto simp: open_step_def)
  qed
  then have "DependenciesResolved step w" by (simp add: DependenciesResolved_iff)
  with step s' that show ?thesis by simp
qed

section \<open>What a pass does to the measure\<close>

lemma pass_keeps_open:
  assumes "processSteps env w st = Some (b, w', st')"
  shows "{s \<in> fmdom' (wf_steps w'). open_step w' s} \<subseteq> {s \<in> fmdom' (wf_steps w). open_step w s}"
  using processSteps_keeps [OF assms] unfolding open_step_def by (auto, metis phase_le_simps(3))

lemma open_steps_mono:
  "processSteps env w st = Some (b, w', st') \<Longrightarrow> open_steps w' \<le> open_steps w"
  unfolding open_steps_def by (intro card_mono pass_keeps_open) auto

lemma served_pass_decreases:
  assumes p: "processSteps env w st = Some (b, w', st')" and r: "range_order (wf_steps w) (teRange env)"
    and "acyclic (deps (wf_steps w))" and "no_missing_deps (wf_steps w)"
    and "served env w" and "open_steps w \<noteq> 0"
  shows "open_steps w' < open_steps w"
proof -
  from assms(6) obtain s0 where "s0 \<in> fmdom' (wf_steps w)" "open_step w s0"
    by (auto simp: open_steps_def)
  with assms(3,4) obtain s step where s: "fmlookup (wf_steps w) s = Some step" "open_step w s"
    "DependenciesResolved step w" by (rule ready_step)
  with assms(5) have "served_step env w s step" by (simp add: served_def fmpred_iff)
  then obtain t job ref where t: "JobTemplate step = Some t" "step_jobs env w s t = [job]"
    "teGetReference env job = Inr ref" and fin: "IsJobFinished job"
    by (auto simp: served_step_def isl_def split: option.splits list.splits) (metis sum.collapse(2) isl_def)
  have "s \<in> set (teRange env)" using r s(1) by (simp add: range_order_mem)
  from processSteps_tracks [OF p range_order_distinct [OF r] this s(1) t(1) s(3) _ t(2,3)] s(2) fin
  have "\<not> open_step w' s" by (simp add: open_step_def)
  with s(1,2) have "s \<in> {s \<in> fmdom' (wf_steps w). open_step w s}" "s \<notin> {s \<in> fmdom' (wf_steps w'). open_step w' s}"
    by (auto simp: fmlookup_dom'_iff)
  with pass_keeps_open [OF p]
  have "{s \<in> fmdom' (wf_steps w'). open_step w' s} \<subset> {s \<in> fmdom' (wf_steps w). open_step w s}" by blast
  then show ?thesis unfolding open_steps_def by (rule psubset_card_mono [rotated]) simp
qed

lemma pass_finishes:
  assumes "processSteps env w st = Some (b, w', st')" and "range_order (wf_steps w) (teRange env)"
  shows "IsFinished w \<or> open_steps w = 0 \<Longrightarrow> IsFinished w'"
  using processSteps_finishes [OF assms(1) range_order_set [OF assms(2)]]
  by (auto simp: open_steps_def open_step_def split: if_splits)

section \<open>Completion\<close>

lemma passes_measure:
  assumes "passes n (w, st) (w', st')" and "acyclic (deps (wf_steps w))" and "no_missing_deps (wf_steps w)"
  shows "Spec w' = Spec w \<and> (IsFinished w' \<or> n + open_steps w' \<le> open_steps w)"
  using assms(1)
proof (induction n "(w, st)" "(w', st')" arbitrary: w' st' rule: passes.induct)
  case no_pass
  then show ?case by simp
next
  case (one_more n v st1 env b v' st2)
  note p = one_more(4) and r = one_more(3)
  from one_more(2) have v: "Spec v = Spec w" "IsFinished v \<or> n + open_steps v \<le> open_steps w" by auto
  have d: "acyclic (deps (wf_steps v))" "no_missing_deps (wf_steps v)" using assms(2,3) v(1) by simp_all
  have s: "Spec v' = Spec w" using processSteps_keeps [OF p] v(1) by simp
  show ?case
  proof (cases "IsFinished v \<or> open_steps v = 0")
    case True
    with pass_finishes [OF p r] s show ?thesis by simp
  next
    case False
    with v(2) served_pass_decreases [OF p r d] open_steps_mono [OF p] s show ?thesis by auto
  qed
qed

text \<open>
  C7. A workflow whose dependencies form a graph without cycles completes: after more served passes
  than it has open steps - and any number of other passes between them, in any order of the steps -
  it carries its completion condition.  No state of a valid workflow is a dead end.
\<close>

theorem workflow_completes:
  assumes "passes n (w, st) (w', st')" and "acyclic (deps (wf_steps w))" and "no_missing_deps (wf_steps w)"
    and "open_steps w < n"
  shows "IsFinished w'"
  using passes_measure [OF assms(1-3)] assms(4) by auto

section \<open>Examples\<close>

text \<open>The jobs of both steps have finished; the second step's dependency completes in the first pass.\<close>

definition finished_job :: "string \<Rightarrow> Job" where
  "finished_job s =
     \<lparr>jobMeta = sample_meta (''mydag-'' @ s) (Some (getWorkflowJobLabelSet (two_workflow fmempty) sample_template s)),
      jobSpec = tmplSpec sample_template,
      jobConditions = [\<lparr>jcType = JobComplete, jcStatus = ConditionTrue\<rparr>]\<rparr>"

definition both_jobs :: obs where
  "both_jobs = \<lparr>obClock = 0,
     obStore = fmap_of_list [(''default/mydag-one'', finished_job ''one''), (''default/mydag-two'', finished_job ''two'')],
     obOrder = [''default/mydag-two'', ''default/mydag-one'']\<rparr>"

definition one_done :: Workflow where
  "one_done = two_workflow (fmap_of_list [(''one'', \<lparr>Complete = True, Reference = sample_reference\<rparr>)])"

lemma first_pass:
  "processSteps (sample_env both_jobs) one_done sample_tstate = Some (True, two_workflow all_done, sample_tstate)"
  by code_simp

lemma first_served: "served (sample_env both_jobs) one_done"
  by code_simp

lemma passes_well_formed_witness: "statuses_ok (two_workflow all_done)"
proof -
  have r: "range_order (wf_steps one_done) (teRange (sample_env both_jobs))"
    by (simp add: range_orderI sample_env_range one_done_def)
  have "statuses_ok one_done" by code_simp
  from passes_well_formed [OF one_more [OF no_pass r first_pass] this] show ?thesis .
qed

lemma workflow_completes_witness:
  "\<exists>b w' st'. processSteps (sample_env no_jobs) (two_workflow all_done) sample_tstate = Some (b, w', st')
     \<and> IsFinished w'"
proof -
  obtain b w' st' where p: "processSteps (sample_env no_jobs) (two_workflow all_done) sample_tstate = Some (b, w', st')"
    using processSteps_total [OF sample_env_total, of "two_workflow all_done" no_jobs sample_tstate]
    by (auto simp: two_workflow_def sample_workflow_def)
  have r: "range_order (wf_steps one_done) (teRange (sample_env both_jobs))"
    "range_order (wf_steps (two_workflow all_done)) (teRange (sample_env no_jobs))"
    by (simp_all add: range_orderI sample_env_range one_done_def)
  have "served (sample_env no_jobs) (two_workflow all_done)" by code_simp
  with one_more [OF one_more [OF no_pass r(1) first_pass] r(2) p] first_served
  have n: "passes 2 (one_done, sample_tstate) (w', st')" by (simp add: numeral_2_eq_2)
  have "\<exists>l. topologicalSort (wf_steps one_done) [] = Some (Inr l)"
    by (rule exI [of _ "[[], [], ''one'', ''two'']"]) code_simp
  then have d: "acyclic (deps (wf_steps one_done))" "no_missing_deps (wf_steps one_done)"
    by (simp_all add: sort_accepts)
  have "fmdom' (wf_steps one_done) = {''one'', ''two''}" "\<not> open_step one_done ''one''" by code_simp+
  then have "{s \<in> fmdom' (wf_steps one_done). open_step one_done s} \<subseteq> {''two''}" by auto
  then have "open_steps one_done \<le> card {''two''}" unfolding open_steps_def by (rule card_mono [rotated]) simp
  then have "open_steps one_done < 2" by simp
  from workflow_completes [OF n d this] p show ?thesis by blast
qed

end
