(* ===== verification/Interleaving.thy ===== *)
theory Interleaving
  imports Manager
begin

text \<open>
  What \<^verbatim>\<open>createJobForStep\<close>'s expectations are for: at most one job per step while a worker, the job
  informer, the API server and the clock interleave.  The machine has the manager's own state and
  moves with the code's own operations; a worker's handling of a step is cut where other
  goroutines can run: after the cache was listed, after the expectation was checked, after the
  server created the job.  The queue hands a workflow to one worker at a time
  (\<open>workers_exclusive\<close>), so one program counter is enough for one workflow.

  The code lists the cache first and checks the expectation second.  The informer can deliver the
  job between the two, ending the expectation the worker then finds satisfied: the step gets a
  second job (\<open>duplicate_job_race\<close>), and with two jobs it never completes.  With the two reads made
  together (\<open>atomic\<close>) there is at most one job per step for ever (\<open>at_most_one_job\<close>).
\<close>

section \<open>The machine\<close>

datatype pc = Idle | Looked string JobTemplateSpec | Checked string JobTemplateSpec | CreatedJob string

record 'n sys =
  mgr :: "(Control, 'n) mstate"
  clock :: int
  pc :: pc

abbreviation made :: "'n sys \<Rightarrow> (string \<times> Job) list" where
  "made \<sigma> \<equiv> created (ctl (mState (mgr \<sigma>)))"

definition wkey :: "Workflow \<Rightarrow> string" where
  "wkey w = MetaNamespaceKeyFunc (wfMeta w)"

definition waiting :: "Workflow \<Rightarrow> 'n sys \<Rightarrow> int \<Rightarrow> string \<Rightarrow> bool" where
  "waiting w \<sigma> t s \<longleftrightarrow> \<not> ExpectationsForStepSatisfied t (exps (mState (mgr \<sigma>))) (wkey w) s"

definition step_template :: "Workflow \<Rightarrow> string \<Rightarrow> JobTemplateSpec option" where
  "step_template w s = (case fmlookup (wf_steps w) s of None \<Rightarrow> None | Some step \<Rightarrow> JobTemplate step)"

text \<open>The server names the \<open>i\<close>-th job with a suffix of its own; \<open>names\<close> are the suffixes it chooses.\<close>

fun server_meta :: "(nat \<Rightarrow> string) \<Rightarrow> nat \<Rightarrow> string \<times> Job \<Rightarrow> ObjectMeta" where
  "server_meta names i (ns, job) =
     (jobMeta job)\<lparr>Name := GenerateName (jobMeta job) @ names i, Namespace := ns\<rparr>"

definition cached :: "(nat \<Rightarrow> string) \<Rightarrow> 'n sys \<Rightarrow> nat \<Rightarrow> bool" where
  "cached names \<sigma> i \<longleftrightarrow>
     map_option jobMeta (fmlookup (mJobs (mgr \<sigma>)) (MetaNamespaceKeyFunc (server_meta names i (made \<sigma> ! i))))
       = Some (server_meta names i (made \<sigma> ! i))"

fun made_step :: "string \<times> Job \<Rightarrow> string" where
  "made_step (ns, job) = label_of job WorkflowStepLabelKey"

definition is_Looked :: "pc \<Rightarrow> bool" where
  "is_Looked p \<longleftrightarrow> (case p of Looked _ _ \<Rightarrow> True | _ \<Rightarrow> False)"

definition set_mState :: "Control tstate \<Rightarrow> 'n sys \<Rightarrow> 'n sys" where
  "set_mState st \<sigma> = \<sigma>\<lparr>mgr := (mgr \<sigma>)\<lparr>mState := st\<rparr>\<rparr>"

text \<open>
  The informer is timely: time passes only so far that no expectation of a job it has not delivered
  yet expires.  It delivers jobs in any order and any state, again and again.
\<close>

inductive micro :: "bool \<Rightarrow> (nat \<Rightarrow> string) \<Rightarrow> Workflow \<Rightarrow> 'n sys \<Rightarrow> 'n sys \<Rightarrow> bool"
  for atomic :: bool and names :: "nat \<Rightarrow> string" and w :: Workflow where
  look: "micro atomic names w \<sigma> (\<sigma>\<lparr>pc := Looked s t\<rparr>)"
    if "pc \<sigma> = Idle" "step_template w s = Some t" "range_order (mJobs (mgr \<sigma>)) ord"
      "storeJobs_List (JobLister_Jobs (mJobs (mgr \<sigma>)) (Namespace (wfMeta w))) ord
         (CreateWorkflowJobLabelSelector w t s) = []"
| check_satisfied: "micro atomic names w \<sigma> (\<sigma>\<lparr>pc := Checked s t\<rparr>)"
    if "pc \<sigma> = Looked s t" "\<not> waiting w \<sigma> (clock \<sigma>) s"
| check_waiting: "micro atomic names w \<sigma> (\<sigma>\<lparr>pc := Idle\<rparr>)"
    if "pc \<sigma> = Looked s t" "waiting w \<sigma> (clock \<sigma>) s"
| create: "micro atomic names w \<sigma>
      (set_mState ((mState (mgr \<sigma>))\<lparr>ctl := c\<rparr>) (\<sigma>\<lparr>pc := if err = None then CreatedJob s else Idle\<rparr>))"
    if "pc \<sigma> = Checked s t"
      "Control_CreateJob kc enc conv (Namespace (wfMeta w)) t w s (ctl (mState (mgr \<sigma>))) = Some (err, c)"
| expect: "micro atomic names w \<sigma>
      (set_mState ((mState (mgr \<sigma>))\<lparr>exps := ExpectCreation (clock \<sigma>) (exps (mState (mgr \<sigma>))) (wkey w) s\<rparr>)
         (\<sigma>\<lparr>pc := Idle\<rparr>))"
    if "pc \<sigma> = CreatedJob s"
| deliver: "micro atomic names w \<sigma> (\<sigma>\<lparr>mgr := m'\<rparr>)"
    if "i < length (made \<sigma>)" "jobMeta job = server_meta names i (made \<sigma> ! i)" "d \<noteq> Deleted"
      "\<not> (atomic \<and> is_Looked (pc \<sigma>))" "process_job_delta eq so ks d (Object job) (mgr \<sigma>) = Some m'"
| tick: "micro atomic names w \<sigma> (\<sigma>\<lparr>clock := now\<rparr>)"
    if "clock \<sigma> \<le> now"
      "\<And>i. i < length (made \<sigma>) \<Longrightarrow> \<not> cached names \<sigma> i \<Longrightarrow> waiting w \<sigma> (clock \<sigma>) (made_step (made \<sigma> ! i)) \<Longrightarrow>
         waiting w \<sigma> now (made_step (made \<sigma> ! i))"

text \<open>A worker at rest, no job made, nothing expected; the workflow cache and the queue are arbitrary.\<close>

definition quiet :: "'n sys \<Rightarrow> bool" where
  "quiet \<sigma> \<longleftrightarrow> pc \<sigma> = Idle \<and> made \<sigma> = []"

section \<open>The code's step is a run of the machine\<close>

lemma set_mState_simps [simp]:
  "pc (set_mState st \<sigma>) = pc \<sigma>" "clock (set_mState st \<sigma>) = clock \<sigma>" "mState (mgr (set_mState st \<sigma>)) = st"
  "mJobs (mgr (set_mState st \<sigma>)) = mJobs (mgr \<sigma>)"
  by (simp_all add: set_mState_def)

lemma set_mState_same: "mState (mgr \<sigma>) = st \<Longrightarrow> set_mState st \<sigma> = \<sigma>"
  by (auto simp: set_mState_def)

lemma createJobForStep_run:
  assumes "createJobForStep env w s step st = Some st'" and "JobTemplate step = Some t"
    and "teCreateJob env = Control_CreateJob kc enc conv" and "obClock (teObs env s) = clock \<sigma>"
    and "mState (mgr \<sigma>) = st" and "pc \<sigma> = Looked s t"
  shows "(micro atomic names w)\<^sup>*\<^sup>* \<sigma> (set_mState st' (\<sigma>\<lparr>pc := Idle\<rparr>))"
proof (cases "waiting w \<sigma> (clock \<sigma>) s")
  case True
  then have "st' = st" using assms(1,4,5) by (simp add: createJobForStep_def waiting_def wkey_def Let_def)
  moreover have "micro atomic names w \<sigma> (\<sigma>\<lparr>pc := Idle\<rparr>)" by (rule check_waiting [OF assms(6) True])
  ultimately show ?thesis using assms(5) by (auto simp: set_mState_def)
next
  case False
  let ?\<sigma>1 = "\<sigma>\<lparr>pc := Checked s t\<rparr>"
  have check: "micro atomic names w \<sigma> ?\<sigma>1" by (rule check_satisfied [OF assms(6) False])
  from False assms(1-5) obtain err c
    where cr: "Control_CreateJob kc enc conv (Namespace (wfMeta w)) t w s (ctl (mState (mgr ?\<sigma>1))) = Some (err, c)"
      and st': "st' = (case err of Some _ \<Rightarrow> st\<lparr>ctl := c\<rparr>
          | None \<Rightarrow> st\<lparr>ctl := c, exps := ExpectCreation (clock \<sigma>) (exps st) (wkey w) s\<rparr>)"
    by (auto simp: createJobForStep_def waiting_def wkey_def Let_def split: option.splits)
  let ?\<sigma>2 = "set_mState ((mState (mgr ?\<sigma>1))\<lparr>ctl := c\<rparr>) (?\<sigma>1\<lparr>pc := if err = None then CreatedJob s else Idle\<rparr>)"
  have create: "micro atomic names w ?\<sigma>1 ?\<sigma>2" by (rule micro.create [OF _ cr]) simp
  show ?thesis
  proof (cases err)
    case None
    have "micro atomic names w ?\<sigma>2
        (set_mState ((mState (mgr ?\<sigma>2))\<lparr>exps := ExpectCreation (clock ?\<sigma>2) (exps (mState (mgr ?\<sigma>2))) (wkey w) s\<rparr>)
           (?\<sigma>2\<lparr>pc := Idle\<rparr>))"
      by (rule micro.expect) (simp add: None)
    also have "(set_mState ((mState (mgr ?\<sigma>2))\<lparr>exps := ExpectCreation (clock ?\<sigma>2) (exps (mState (mgr ?\<sigma>2))) (wkey w) s\<rparr>)
           (?\<sigma>2\<lparr>pc := Idle\<rparr>)) = set_mState st' (\<sigma>\<lparr>pc := Idle\<rparr>)"
      using None st' assms(5) by (simp add: set_mState_def)
    finally show ?thesis using check create by (meson converse_rtranclp_into_rtranclp r_into_rtranclp)
  next
    case (Some e)
    then have "?\<sigma>2 = set_mState st' (\<sigma>\<lparr>pc := Idle\<rparr>)" using st' assms(5) by (simp add: set_mState_def)
    with check create show ?thesis by (metis converse_rtranclp_into_rtranclp r_into_rtranclp)
  qed
qed

text \<open>
  C13. The machine is the code cut into pieces: whatever \<^verbatim>\<open>processJobStep\<close> does to the job control
  and the expectations when it runs undisturbed, is a run of the machine - listing, checking,
  creating and expecting in the code's order, or nothing.
\<close>

theorem step_refines_machine:
  assumes "processJobStep env w s step st = Some (b, w', st')" and "fmlookup (wf_steps w) s = Some step"
    and "teCreateJob env = Control_CreateJob kc enc conv" and "obClock (teObs env s) = clock \<sigma>"
    and "obStore (teObs env s) = mJobs (mgr \<sigma>)" and "range_order (mJobs (mgr \<sigma>)) (obOrder (teObs env s))"
    and "mState (mgr \<sigma>) = st" and "pc \<sigma> = Idle"
  shows "(micro atomic names w)\<^sup>*\<^sup>* \<sigma> (set_mState st' \<sigma>)"
  using assms(1,2)
proof (cases rule: processJobStep_cases)
  case (create t)
  have "step_template w s = Some t" using assms(2) create(2) by (simp add: step_template_def)
  from look [OF assms(8) this assms(6)] create(3) assms(5)
  have "micro atomic names w \<sigma> (\<sigma>\<lparr>pc := Looked s t\<rparr>)" by (simp add: step_jobs_def)
  moreover have "(micro atomic names w)\<^sup>*\<^sup>* (\<sigma>\<lparr>pc := Looked s t\<rparr>) (set_mState st' (\<sigma>\<lparr>pc := Looked s t, pc := Idle\<rparr>))"
    using createJobForStep_run [OF create(6,2) assms(3), of "\<sigma>\<lparr>pc := Looked s t\<rparr>"] assms(4,7) by simp
  moreover have "set_mState st' (\<sigma>\<lparr>pc := Looked s t, pc := Idle\<rparr>) = set_mState st' \<sigma>"
    using assms(8) by (simp add: set_mState_def)
  ultimately show ?thesis by (metis converse_rtranclp_into_rtranclp)
qed (use assms(7) in \<open>simp_all add: set_mState_same\<close>)

section \<open>The invariant\<close>

text \<open>A job on the server carries the labels and the name prefix of a step of the workflow.\<close>

fun made_ok :: "Workflow \<Rightarrow> string \<times> Job \<Rightarrow> bool" where
  "made_ok w (ns, job) \<longleftrightarrow>
     ns = Namespace (wfMeta w) \<and> getJobsPrefix (Name (wfMeta w)) = Some (GenerateName (jobMeta job))
     \<and> (\<exists>s t. step_template w s = Some t \<and> Labels (jobMeta job) = Some (getWorkflowJobLabelSet w t s))"

definition all_made_ok :: "Workflow \<Rightarrow> 'n sys \<Rightarrow> bool" where
  "all_made_ok w \<sigma> \<longleftrightarrow> list_all (made_ok w) (made \<sigma>)"

text \<open>Every job is in the cache, expected, or about to be expected.\<close>

definition accounted :: "(nat \<Rightarrow> string) \<Rightarrow> Workflow \<Rightarrow> 'n sys \<Rightarrow> bool" where
  "accounted names w \<sigma> \<longleftrightarrow>
     (\<forall>i < length (made \<sigma>). cached names \<sigma> i \<or> waiting w \<sigma> (clock \<sigma>) (made_step (made \<sigma> ! i))
        \<or> pc \<sigma> = CreatedJob (made_step (made \<sigma> ! i)))"

text \<open>What the worker has found out so far is still true.\<close>

definition pc_ok :: "(nat \<Rightarrow> string) \<Rightarrow> Workflow \<Rightarrow> 'n sys \<Rightarrow> bool" where
  "pc_ok names w \<sigma> \<longleftrightarrow>
     (case pc \<sigma> of
        Looked s t \<Rightarrow> step_template w s = Some t
          \<and> (\<forall>i < length (made \<sigma>). made_step (made \<sigma> ! i) = s \<longrightarrow> \<not> cached names \<sigma> i)
      | Checked s t \<Rightarrow> step_template w s = Some t \<and> s \<notin> made_step ` set (made \<sigma>)
      | _ \<Rightarrow> True)"

definition one_job_each :: "'n sys \<Rightarrow> bool" where
  "one_job_each \<sigma> \<longleftrightarrow> distinct (map made_step (made \<sigma>))"

definition sys_inv :: "(nat \<Rightarrow> string) \<Rightarrow> Workflow \<Rightarrow> 'n sys \<Rightarrow> bool" where
  "sys_inv names w \<sigma> \<longleftrightarrow> all_made_ok w \<sigma> \<and> accounted names w \<sigma> \<and> pc_ok names w \<sigma> \<and> one_job_each \<sigma>"

definition templates_valid :: "Workflow \<Rightarrow> bool" where
  "templates_valid w \<longleftrightarrow> (\<forall>s t. step_template w s = Some t \<longrightarrow> valid_labels (getWorkflowJobLabelSet w t s))"

lemma sys_inv_quiet: "quiet \<sigma> \<Longrightarrow> sys_inv names w \<sigma>"
  by (simp add: sys_inv_def quiet_def all_made_ok_def accounted_def pc_ok_def one_job_each_def)

subsection \<open>Keys\<close>

lemma made_ok_step:
  "made_ok w (ns, job) \<Longrightarrow> \<exists>t. step_template w (made_step (ns, job)) = Some t
     \<and> Labels (jobMeta job) = Some (getWorkflowJobLabelSet w t (made_step (ns, job)))"
  by (auto simp: label_of_def label_set_step)

lemma server_meta_key:
  assumes "inj names" and "made_ok w x" "made_ok w y"
    and "MetaNamespaceKeyFunc (server_meta names i x) = MetaNamespaceKeyFunc (server_meta names j y)"
  shows "i = j"
proof -
  obtain nx jx ny jy where xy: "x = (nx, jx)" "y = (ny, jy)" by (cases x; cases y)
  with assms(2-4) have "names i = names j" by (auto simp: MetaNamespaceKeyFunc_def split: if_splits)
  with assms(1) show ?thesis by (auto dest: injD)
qed

lemma label_of_meta: "jobMeta a = jobMeta b \<Longrightarrow> label_of a k = label_of b k"
  by (simp add: label_of_def)

lemma label_server_meta:
  "jobMeta a = server_meta names i x \<Longrightarrow> label_of a WorkflowStepLabelKey = made_step x"
  by (cases x) (simp add: label_of_def)

subsection \<open>What a delivery does\<close>

lemma deliver_effect:
  assumes "process_job_delta eq so ks d (Object job) m = Some m'" and "d \<noteq> Deleted"
  shows "mJobs m' = fmupd (MetaNamespaceKeyFunc (jobMeta job)) job (mJobs m) \<and> ctl (mState m') = ctl (mState m)
     \<and> (exps (mState m') = exps (mState m)
        \<or> (\<exists>k. exps (mState m') = snd (CreationObserved (exps (mState m)) k (label_of job WorkflowStepLabelKey))))"
proof -
  have "process_job_delta eq so ks d (Object job) m =
     (case Store_Get jobMeta (mJobs m) job of
        Some old \<Rightarrow> updateJob eq so ks old job (m\<lparr>mJobs := Store_Update jobMeta job (mJobs m)\<rparr>)
      | None \<Rightarrow> addJob so ks job (m\<lparr>mJobs := Store_Add jobMeta job (mJobs m)\<rparr>))"
    using assms(2) by (cases d) auto
  with assms(1) show ?thesis
    by (auto simp: updateJob_def addJob_def enqueueWorkflow_def Store_Update_def Store_Add_def Let_def
        split: option.splits if_splits prod.splits dest!: arg_cong [of _ _ snd])
qed

subsection \<open>Each move keeps the invariant\<close>

lemma sys_invD:
  assumes "sys_inv names w \<sigma>"
  shows "i < length (made \<sigma>) \<Longrightarrow> made_ok w (made \<sigma> ! i)"
    and "i < length (made \<sigma>) \<Longrightarrow> cached names \<sigma> i \<or> waiting w \<sigma> (clock \<sigma>) (made_step (made \<sigma> ! i))
        \<or> pc \<sigma> = CreatedJob (made_step (made \<sigma> ! i))"
    and "i < length (made \<sigma>) \<Longrightarrow> j < length (made \<sigma>) \<Longrightarrow> made_step (made \<sigma> ! i) = made_step (made \<sigma> ! j) \<Longrightarrow> i = j"
  using assms
  by (auto simp: sys_inv_def all_made_ok_def accounted_def one_job_each_def list_all_length
      distinct_conv_nth)

text \<open>A cached job of a step is on the list the step's handling looks at.\<close>

abbreviation listed :: "Workflow \<Rightarrow> string \<Rightarrow> JobTemplateSpec \<Rightarrow> Job store \<Rightarrow> string list \<Rightarrow> Job list" where
  "listed w s t store ord \<equiv>
     storeJobs_List (JobLister_Jobs store (Namespace (wfMeta w))) ord (CreateWorkflowJobLabelSelector w t s)"

lemma cached_listed:
  assumes "valid_labels (getWorkflowJobLabelSet w t s)" and "step_template w s = Some t"
    and "range_order (mJobs (mgr \<sigma>)) ord" and "made_ok w (made \<sigma> ! i)" "made_step (made \<sigma> ! i) = s"
    and "cached names \<sigma> i"
  shows "\<exists>j \<in> set (listed w s t (mJobs (mgr \<sigma>)) ord). jobMeta j = server_meta names i (made \<sigma> ! i)"
proof -
  obtain ns job where m: "made \<sigma> ! i = (ns, job)" by (cases "made \<sigma> ! i")
  from assms(6) m obtain j where j: "fmlookup (mJobs (mgr \<sigma>)) (MetaNamespaceKeyFunc (server_meta names i (ns, job))) = Some j"
    "jobMeta j = server_meta names i (ns, job)" by (auto simp: cached_def)
  from assms(4) m have ok: "made_ok w (ns, job)" by simp
  from made_ok_step [OF ok] assms(2,5) m
  have l: "Labels (jobMeta job) = Some (getWorkflowJobLabelSet w t s)" by simp
  have "job_in_scope (Namespace (wfMeta w)) (CreateWorkflowJobLabelSelector w t s) j"
    using ok j(2) l assms(1) by (simp add: job_in_scope_def CreateWorkflowJobLabelSelector_matches fmsubset_iff)
  with j(1) have "j \<in> set (listed w s t (mJobs (mgr \<sigma>)) ord)"
    unfolding storeJobs_List_set [OF assms(3)] by blast
  with j(2) m show ?thesis by auto
qed

lemma not_listed_not_cached:
  assumes inv: "sys_inv names w \<sigma>" and "templates_valid w" and "step_template w s = Some t"
    and "range_order (mJobs (mgr \<sigma>)) ord" and "listed w s t (mJobs (mgr \<sigma>)) ord = []"
    and i: "i < length (made \<sigma>)" "made_step (made \<sigma> ! i) = s"
  shows "\<not> cached names \<sigma> i"
  using cached_listed [OF _ assms(3,4) sys_invD(1) [OF inv i(1)] i(2), of names] assms(2,3,5)
  by (auto simp: templates_valid_def)

lemma made_upd [simp]:
  "made (\<sigma>\<lparr>pc := p\<rparr>) = made \<sigma>" "cached names (\<sigma>\<lparr>pc := p\<rparr>) i = cached names \<sigma> i"
  "waiting w (\<sigma>\<lparr>pc := p\<rparr>) t s = waiting w \<sigma> t s"
  "made (\<sigma>\<lparr>clock := t'\<rparr>) = made \<sigma>" "cached names (\<sigma>\<lparr>clock := t'\<rparr>) i = cached names \<sigma> i"
  "waiting w (\<sigma>\<lparr>clock := t'\<rparr>) t s = waiting w \<sigma> t s"
  by (simp_all add: cached_def waiting_def)

lemma inv_look:
  assumes "sys_inv names w \<sigma>" and "templates_valid w" and "pc \<sigma> = Idle" "step_template w s = Some t"
    and "range_order (mJobs (mgr \<sigma>)) ord"
    and "storeJobs_List (JobLister_Jobs (mJobs (mgr \<sigma>)) (Namespace (wfMeta w))) ord
           (CreateWorkflowJobLabelSelector w t s) = []"
  shows "sys_inv names w (\<sigma>\<lparr>pc := Looked s t\<rparr>)"
proof -
  note n = not_listed_not_cached [OF assms(1,2,4,5,6)]
  have "accounted names w (\<sigma>\<lparr>pc := Looked s t\<rparr>)"
    using sys_invD(2) [OF assms(1)] assms(3) by (simp add: accounted_def)
  moreover have "pc_ok names w (\<sigma>\<lparr>pc := Looked s t\<rparr>)" using n assms(4) by (simp add: pc_ok_def)
  ultimately show ?thesis using assms(1) by (simp add: sys_inv_def all_made_ok_def one_job_each_def)
qed

lemma inv_check:
  assumes "sys_inv names w \<sigma>" and "pc \<sigma> = Looked s t"
  shows "\<not> waiting w \<sigma> (clock \<sigma>) s \<Longrightarrow> sys_inv names w (\<sigma>\<lparr>pc := Checked s t\<rparr>)"
    and "sys_inv names w (\<sigma>\<lparr>pc := Idle\<rparr>)"
proof -
  from assms have p: "step_template w s = Some t"
    "\<And>i. i < length (made \<sigma>) \<Longrightarrow> made_step (made \<sigma> ! i) = s \<Longrightarrow> \<not> cached names \<sigma> i"
    by (simp_all add: sys_inv_def pc_ok_def)
  have a: "cached names \<sigma> i \<or> waiting w \<sigma> (clock \<sigma>) (made_step (made \<sigma> ! i))" if "i < length (made \<sigma>)" for i
    using sys_invD(2) [OF assms(1) that] assms(2) by simp
  have acc: "accounted names w (\<sigma>\<lparr>pc := q\<rparr>)" for q using a by (simp add: accounted_def) blast
  from acc show "sys_inv names w (\<sigma>\<lparr>pc := Idle\<rparr>)"
    using assms(1) by (simp add: sys_inv_def all_made_ok_def one_job_each_def pc_ok_def)
  assume s: "\<not> waiting w \<sigma> (clock \<sigma>) s"
  have "s \<notin> made_step ` set (made \<sigma>)"
  proof
    assume "s \<in> made_step ` set (made \<sigma>)"
    then obtain i where "i < length (made \<sigma>)" "made_step (made \<sigma> ! i) = s"
      by (auto simp: in_set_conv_nth)
    with a [of i] p(2) [of i] s show False by simp
  qed
  then have "pc_ok names w (\<sigma>\<lparr>pc := Checked s t\<rparr>)" using p(1) by (simp add: pc_ok_def)
  with acc show "sys_inv names w (\<sigma>\<lparr>pc := Checked s t\<rparr>)"
    using assms(1) by (simp add: sys_inv_def all_made_ok_def one_job_each_def)
qed

lemma inv_create:
  assumes inv: "sys_inv names w \<sigma>" and pc: "pc \<sigma> = Checked s t"
    and cr: "Control_CreateJob kc enc conv (Namespace (wfMeta w)) t w s (ctl (mState (mgr \<sigma>))) = Some (err, c)"
  shows "sys_inv names w
      (set_mState ((mState (mgr \<sigma>))\<lparr>ctl := c\<rparr>) (\<sigma>\<lparr>pc := if err = None then CreatedJob s else Idle\<rparr>))"
    (is "sys_inv names w ?\<sigma>'")
proof -
  have a: "cached names \<sigma> i \<or> waiting w \<sigma> (clock \<sigma>) (made_step (made \<sigma> ! i))" if "i < length (made \<sigma>)" for i
    using sys_invD(2) [OF inv that] pc by simp
  have t: "step_template w s = Some t" "s \<notin> made_step ` set (made \<sigma>)"
    using inv pc by (simp_all add: sys_inv_def pc_ok_def)
  have w': "waiting w ?\<sigma>' x k = waiting w \<sigma> x k" for x k by (simp add: waiting_def)
  have ok: "list_all (made_ok w) (made \<sigma>)" "distinct (map made_step (made \<sigma>))"
    using inv by (simp_all add: sys_inv_def all_made_ok_def one_job_each_def)
  show ?thesis
  proof (cases err)
    case None
    from Control_CreateJob_created [OF cr [unfolded None]] obtain job where
      c: "created c = made \<sigma> @ [(Namespace (wfMeta w), job)]"
      and l: "Labels (jobMeta job) = Some (getWorkflowJobLabelSet w t s)"
      and g: "getJobsPrefix (Name (wfMeta w)) = Some (GenerateName (jobMeta job))" by blast
    have new: "made_step (Namespace (wfMeta w), job) = s" by (simp add: label_of_def l label_set_step)
    have old: "cached names ?\<sigma>' i = cached names \<sigma> i" if "i < length (made \<sigma>)" for i
      using that by (simp add: cached_def c nth_append)
    have "made_ok w (Namespace (wfMeta w), job)" using t(1) l g by auto
    with ok(1) c have "all_made_ok w ?\<sigma>'" by (simp add: all_made_ok_def)
    moreover have "accounted names w ?\<sigma>'" unfolding accounted_def
    proof (intro allI impI)
      fix i assume "i < length (made ?\<sigma>')"
      then consider "i < length (made \<sigma>)" | "i = length (made \<sigma>)" using c by (auto simp: less_Suc_eq)
      then show "cached names ?\<sigma>' i \<or> waiting w ?\<sigma>' (clock ?\<sigma>') (made_step (made ?\<sigma>' ! i))
          \<or> pc ?\<sigma>' = CreatedJob (made_step (made ?\<sigma>' ! i))"
      proof cases
        case 1
        with a [OF 1] old [OF 1] c show ?thesis by (auto simp: w' nth_append)
      next
        case 2
        with c new None show ?thesis by simp
      qed
    qed
    moreover have "pc_ok names w ?\<sigma>'" using None by (simp add: pc_ok_def)
    moreover have "one_job_each ?\<sigma>'" using ok(2) t(2) c new by (simp add: one_job_each_def)
    ultimately show ?thesis by (simp add: sys_inv_def)
  next
    case (Some e)
    have c: "created c = made \<sigma>"
      using cr [unfolded Some] by (auto simp: Control_CreateJob_def Let_def split: prod.splits option.splits sum.splits)
    have "cached names ?\<sigma>' i = cached names \<sigma> i" for i by (simp add: cached_def c)
    with a w' c have "accounted names w ?\<sigma>'" by (simp add: accounted_def) blast
    moreover have "pc_ok names w ?\<sigma>'" using Some by (simp add: pc_ok_def)
    ultimately show ?thesis using ok c by (simp add: sys_inv_def all_made_ok_def one_job_each_def)
  qed
qed

lemma inv_expect:
  assumes inv: "sys_inv names w \<sigma>" and pc: "pc \<sigma> = CreatedJob s"
  shows "sys_inv names w
      (set_mState ((mState (mgr \<sigma>))\<lparr>exps := ExpectCreation (clock \<sigma>) (exps (mState (mgr \<sigma>))) (wkey w) s\<rparr>)
         (\<sigma>\<lparr>pc := Idle\<rparr>))" (is "sys_inv names w ?\<sigma>'")
proof -
  have w': "waiting w ?\<sigma>' (clock \<sigma>) k \<longleftrightarrow> k = s \<or> waiting w \<sigma> (clock \<sigma>) k" for k
    by (auto simp: waiting_def exps.satisfied_expect isExpired_iff ExpectationsTimeout_def)
  have "cached names ?\<sigma>' i = cached names \<sigma> i" for i by (simp add: cached_def)
  with w' sys_invD(2) [OF inv] pc have "accounted names w ?\<sigma>'" by (simp add: accounted_def) blast
  then show ?thesis
    using inv by (simp add: sys_inv_def all_made_ok_def one_job_each_def pc_ok_def)
qed

lemma inv_tick:
  assumes inv: "sys_inv names w \<sigma>"
    and t: "\<And>i. i < length (made \<sigma>) \<Longrightarrow> \<not> cached names \<sigma> i \<Longrightarrow> waiting w \<sigma> (clock \<sigma>) (made_step (made \<sigma> ! i)) \<Longrightarrow>
         waiting w \<sigma> now (made_step (made \<sigma> ! i))"
  shows "sys_inv names w (\<sigma>\<lparr>clock := now\<rparr>)"
proof -
  have "accounted names w (\<sigma>\<lparr>clock := now\<rparr>)"
    using sys_invD(2) [OF inv] t by (fastforce simp: accounted_def)
  then show ?thesis
    using inv by (auto simp: sys_inv_def all_made_ok_def one_job_each_def pc_ok_def split: pc.splits)
qed

lemma deliver_cached:
  assumes "inj names" and "all_made_ok w \<sigma>"
    and i: "i < length (made \<sigma>)" "jobMeta job = server_meta names i (made \<sigma> ! i)"
    and m: "mJobs m' = fmupd (MetaNamespaceKeyFunc (jobMeta job)) job (mJobs (mgr \<sigma>))"
      "ctl (mState m') = ctl (mState (mgr \<sigma>))"
    and j: "j < length (made \<sigma>)"
  shows "cached names (\<sigma>\<lparr>mgr := m'\<rparr>) j \<longleftrightarrow> j = i \<or> cached names \<sigma> j"
proof (cases "j = i")
  case True
  with i m show ?thesis by (simp add: cached_def)
next
  case False
  have "made_ok w (made \<sigma> ! i)" "made_ok w (made \<sigma> ! j)"
    using assms(2) i(1) j by (simp_all add: all_made_ok_def list_all_length)
  with server_meta_key [OF assms(1)] False
  have "MetaNamespaceKeyFunc (server_meta names j (made \<sigma> ! j)) \<noteq> MetaNamespaceKeyFunc (jobMeta job)"
    using i(2) by metis
  with False m show ?thesis by (simp add: cached_def)
qed

lemma inv_deliver:
  assumes inv: "sys_inv names w \<sigma>" and names: "inj names" and i: "i < length (made \<sigma>)"
    and job: "jobMeta job = server_meta names i (made \<sigma> ! i)" and "d \<noteq> Deleted"
    and looked: "\<not> is_Looked (pc \<sigma>)" and p: "process_job_delta eq so ks d (Object job) (mgr \<sigma>) = Some m'"
  shows "sys_inv names w (\<sigma>\<lparr>mgr := m'\<rparr>)"
proof -
  from deliver_effect [OF p \<open>d \<noteq> Deleted\<close>]
  have m: "mJobs m' = fmupd (MetaNamespaceKeyFunc (jobMeta job)) job (mJobs (mgr \<sigma>))"
      "ctl (mState m') = ctl (mState (mgr \<sigma>))"
    and e: "exps (mState m') = exps (mState (mgr \<sigma>))
        \<or> (\<exists>k. exps (mState m') = snd (CreationObserved (exps (mState (mgr \<sigma>))) k (made_step (made \<sigma> ! i))))"
    by (simp_all add: label_server_meta [OF job])
  have ok: "all_made_ok w \<sigma>" using inv by (simp add: sys_inv_def)
  note c = deliver_cached [OF names ok i job m]
  have w': "waiting w (\<sigma>\<lparr>mgr := m'\<rparr>) t s" if "waiting w \<sigma> t s" "s \<noteq> made_step (made \<sigma> ! i)" for t s
    using e that by (auto simp: waiting_def exps.satisfied_observed)
  have "accounted names w (\<sigma>\<lparr>mgr := m'\<rparr>)" unfolding accounted_def
  proof (intro allI impI)
    fix j assume "j < length (made (\<sigma>\<lparr>mgr := m'\<rparr>))"
    then have j: "j < length (made \<sigma>)" using m(2) by simp
    show "cached names (\<sigma>\<lparr>mgr := m'\<rparr>) j \<or> waiting w (\<sigma>\<lparr>mgr := m'\<rparr>) (clock (\<sigma>\<lparr>mgr := m'\<rparr>)) (made_step (made (\<sigma>\<lparr>mgr := m'\<rparr>) ! j))
          \<or> pc (\<sigma>\<lparr>mgr := m'\<rparr>) = CreatedJob (made_step (made (\<sigma>\<lparr>mgr := m'\<rparr>) ! j))"
    proof (cases "j = i")
      case True
      with c [OF j] show ?thesis by simp
    next
      case False
      with sys_invD(3) [OF inv i j] have "made_step (made \<sigma> ! j) \<noteq> made_step (made \<sigma> ! i)" by metis
      note w' [OF _ this]
      with sys_invD(2) [OF inv j] c [OF j] m(2) show ?thesis by auto
    qed
  qed
  moreover have "pc_ok names w (\<sigma>\<lparr>mgr := m'\<rparr>)"
    using inv looked m(2) by (auto simp: sys_inv_def pc_ok_def is_Looked_def split: pc.splits)
  ultimately show ?thesis
    using inv m(2) by (simp add: sys_inv_def all_made_ok_def one_job_each_def)
qed

lemma micro_inv:
  assumes "micro True names w \<sigma> \<sigma>'" and "inj names" and "templates_valid w" and "sys_inv names w \<sigma>"
  shows "sys_inv names w \<sigma>'"
  using assms
proof (cases rule: micro.cases)
  case (look s t ord)
  show ?thesis unfolding look(1) by (rule inv_look [OF assms(4,3) look(2-5)])
next
  case (check_satisfied s t)
  show ?thesis unfolding check_satisfied(1) by (rule inv_check(1) [OF assms(4) check_satisfied(2,3)])
next
  case (check_waiting s t)
  show ?thesis unfolding check_waiting(1) by (rule inv_check(2) [OF assms(4) check_waiting(2)])
next
  case (create s t kc enc conv err c)
  show ?thesis unfolding create(1) by (rule inv_create [OF assms(4) create(2,3)])
next
  case (expect s)
  show ?thesis unfolding expect(1) by (rule inv_expect [OF assms(4) expect(2)])
next
  case (deliver i job d eq so ks m')
  from deliver(5) have "\<not> is_Looked (pc \<sigma>)" by simp
  from inv_deliver [OF assms(4,2) deliver(2,3,4) this deliver(6)] show ?thesis unfolding deliver(1) .
next
  case (tick now)
  show ?thesis unfolding tick(1) by (rule inv_tick [OF assms(4) tick(3)])
qed

lemma reach_inv:
  "(micro True names w)\<^sup>*\<^sup>* \<sigma> \<sigma>' \<Longrightarrow> inj names \<Longrightarrow> templates_valid w \<Longrightarrow> sys_inv names w \<sigma> \<Longrightarrow> sys_inv names w \<sigma>'"
  by (induction rule: rtranclp_induct) (auto intro: micro_inv)

section \<open>One job per step, or two\<close>

text \<open>
  C2. If listing the cache and checking the expectation happen together, then in no interleaving of
  the worker, the informer, the server and the clock does a step ever get a second job - provided
  the server's names are unique, the steps' labels are valid and the informer delivers a job before
  its expectation expires.
\<close>

theorem at_most_one_job:
  assumes "(micro True names w)\<^sup>*\<^sup>* \<sigma> \<sigma>'" and "quiet \<sigma>" and "inj names" and "templates_valid w"
  shows "distinct (map made_step (made \<sigma>'))"
  using reach_inv [OF assms(1,3,4) sys_inv_quiet [OF assms(2)]]
  by (simp add: sys_inv_def one_job_each_def)

subsection \<open>The race\<close>

text \<open>The server accepts every job of the step; the manager finds the workflow of every job of the step.\<close>

definition accepts :: "(string \<Rightarrow> Job \<Rightarrow> go_error + Job) \<Rightarrow> (ObjectReference \<Rightarrow> go_error + string) \<Rightarrow>
    (JobSpec \<Rightarrow> go_error + JobSpec) \<Rightarrow> Workflow \<Rightarrow> string \<Rightarrow> JobTemplateSpec \<Rightarrow> bool" where
  "accepts kc enc conv w s t \<longleftrightarrow>
     (\<forall>c. \<exists>c'. Control_CreateJob kc enc conv (Namespace (wfMeta w)) t w s c = Some (None, c'))"

definition owner_found :: "(Workflow \<Rightarrow> string list) \<Rightarrow> string list \<Rightarrow> Workflow \<Rightarrow> string \<Rightarrow> JobTemplateSpec \<Rightarrow>
    Workflow store \<Rightarrow> bool" where
  "owner_found so ks w s t store \<longleftrightarrow>
     (\<forall>(m :: (Control, unit) mstate) job. mWorkflows m = store \<longrightarrow> Namespace (jobMeta job) = Namespace (wfMeta w) \<longrightarrow>
        Labels (jobMeta job) = Some (getWorkflowJobLabelSet w t s) \<longrightarrow>
        (\<exists>v. getJobWorkflow so ks job m = Some (Some v) \<and> MetaNamespaceKeyFunc (wfMeta v) = wkey w))"

text \<open>What stays the same in a move of the worker.\<close>

definition same_rest :: "unit sys \<Rightarrow> unit sys \<Rightarrow> bool" where
  "same_rest \<sigma> \<sigma>' \<longleftrightarrow> clock \<sigma>' = clock \<sigma> \<and> mWorkflows (mgr \<sigma>') = mWorkflows (mgr \<sigma>)"

lemma create_run:
  fixes \<sigma> :: "unit sys"
  assumes "accepts kc enc conv w s t" and "step_template w s = Some t"
    and "pc \<sigma> = Looked s t" and "\<not> waiting w \<sigma> (clock \<sigma>) s"
  obtains \<sigma>' x where "(micro atomic names w)\<^sup>*\<^sup>* \<sigma> \<sigma>'" "pc \<sigma>' = Idle" "same_rest \<sigma> \<sigma>'"
    "mJobs (mgr \<sigma>') = mJobs (mgr \<sigma>)" "made \<sigma>' = made \<sigma> @ [x]" "made_ok w x" "made_step x = s"
    "waiting w \<sigma>' (clock \<sigma>) s"
proof -
  let ?\<sigma>1 = "\<sigma>\<lparr>pc := Checked s t\<rparr>"
  obtain c where cr: "Control_CreateJob kc enc conv (Namespace (wfMeta w)) t w s (ctl (mState (mgr ?\<sigma>1))) = Some (None, c)"
    using assms(1) by (auto simp: accepts_def)
  from Control_CreateJob_created [OF cr] obtain job where
    c: "created c = made \<sigma> @ [(Namespace (wfMeta w), job)]"
    and l: "Labels (jobMeta job) = Some (getWorkflowJobLabelSet w t s)"
    and g: "getJobsPrefix (Name (wfMeta w)) = Some (GenerateName (jobMeta job))" by auto
  let ?\<sigma>2 = "set_mState ((mState (mgr ?\<sigma>1))\<lparr>ctl := c\<rparr>) (?\<sigma>1\<lparr>pc := CreatedJob s\<rparr>)"
  let ?\<sigma>3 = "set_mState ((mState (mgr ?\<sigma>2))\<lparr>exps := ExpectCreation (clock ?\<sigma>2) (exps (mState (mgr ?\<sigma>2))) (wkey w) s\<rparr>)
           (?\<sigma>2\<lparr>pc := Idle\<rparr>)"
  have "micro atomic names w \<sigma> ?\<sigma>1" by (rule check_satisfied [OF assms(3,4)])
  moreover have "micro atomic names w ?\<sigma>1 ?\<sigma>2" using micro.create [OF _ cr] by simp
  moreover have "micro atomic names w ?\<sigma>2 ?\<sigma>3" by (rule micro.expect) simp
  ultimately have "(micro atomic names w)\<^sup>*\<^sup>* \<sigma> ?\<sigma>3"
    by (meson converse_rtranclp_into_rtranclp r_into_rtranclp)
  moreover have "waiting w ?\<sigma>3 (clock \<sigma>) s"
    by (simp add: waiting_def exps.satisfied_expect isExpired_iff ExpectationsTimeout_def)
  moreover have "made ?\<sigma>3 = made \<sigma> @ [(Namespace (wfMeta w), job)]" by (simp add: c)
  moreover have "made_ok w (Namespace (wfMeta w), job)" using l g assms(2) by auto
  moreover have "made_step (Namespace (wfMeta w), job) = s" by (simp add: label_of_def l label_set_step)
  ultimately show ?thesis by (intro that [of ?\<sigma>3 "(Namespace (wfMeta w), job)"]) (simp_all add: same_rest_def set_mState_def)
qed

text \<open>The informer hands over the newest job of the step, which it has not delivered before.\<close>

lemma deliver_run:
  fixes \<sigma> :: "unit sys"
  assumes "owner_found so ks w s t (mWorkflows (mgr \<sigma>))" and "step_template w s = Some t"
    and "i < length (made \<sigma>)" "made_ok w (made \<sigma> ! i)" "made_step (made \<sigma> ! i) = s"
    and "fmlookup (mJobs (mgr \<sigma>)) (MetaNamespaceKeyFunc (server_meta names i (made \<sigma> ! i))) = None"
  obtains \<sigma>' job where "micro False names w \<sigma> \<sigma>'" "pc \<sigma>' = pc \<sigma>" "same_rest \<sigma> \<sigma>'" "made \<sigma>' = made \<sigma>"
    "mJobs (mgr \<sigma>') = fmupd (MetaNamespaceKeyFunc (jobMeta job)) job (mJobs (mgr \<sigma>))"
    "jobMeta job = server_meta names i (made \<sigma> ! i)" "\<And>t'. \<not> waiting w \<sigma>' t' s"
proof -
  obtain ns job where x: "made \<sigma> ! i = (ns, job)" by (cases "made \<sigma> ! i")
  define j where "j = job\<lparr>jobMeta := server_meta names i (made \<sigma> ! i)\<rparr>"
  have j: "jobMeta j = server_meta names i (made \<sigma> ! i)" by (simp add: j_def)
  from assms(4) x have ok: "made_ok w (ns, job)" by simp
  from made_ok_step [OF ok] assms(2,5) x
  have l: "Labels (jobMeta job) = Some (getWorkflowJobLabelSet w t s)" by simp
  let ?m = "(mgr \<sigma>)\<lparr>mJobs := Store_Add jobMeta j (mJobs (mgr \<sigma>))\<rparr>"
  have "Namespace (jobMeta j) = Namespace (wfMeta w)" "Labels (jobMeta j) = Some (getWorkflowJobLabelSet w t s)"
    using ok l by (simp_all add: j x)
  then obtain v where v: "getJobWorkflow so ks j ?m = Some (Some v)" "MetaNamespaceKeyFunc (wfMeta v) = wkey w"
    using assms(1) [unfolded owner_found_def, rule_format, of ?m j] by auto
  have lab: "label_of j WorkflowStepLabelKey = s" using label_server_meta [OF j] assms(5) by simp
  define m' where "m' = enqueueWorkflow (Object v)
      (?m\<lparr>mState := (mState ?m)\<lparr>exps := snd (CreationObserved (exps (mState ?m)) (wkey w) s)\<rparr>\<rparr>)"
  have "addJob so ks j ?m = Some m'"
    using v by (simp add: addJob_def m'_def lab split: prod.split)
  then have p: "process_job_delta eq so ks Added (Object j) (mgr \<sigma>) = Some m'" for eq
    using assms(6) by (simp add: Store_Get_def Store_GetByKey_def j)
  have "micro False names w \<sigma> (\<sigma>\<lparr>mgr := m'\<rparr>)"
    by (rule micro.deliver [OF assms(3) j _ _ p]) simp_all
  moreover have m: "mJobs m' = fmupd (MetaNamespaceKeyFunc (jobMeta j)) j (mJobs (mgr \<sigma>))"
    "ctl (mState m') = ctl (mState (mgr \<sigma>))" "mWorkflows m' = mWorkflows (mgr \<sigma>)"
    "exps (mState m') = snd (CreationObserved (exps (mState (mgr \<sigma>))) (wkey w) s)"
    by (simp_all add: m'_def enqueueWorkflow_def Store_Add_def)
  moreover have "\<not> waiting w (\<sigma>\<lparr>mgr := m'\<rparr>) t' s" for t' by (simp add: waiting_def m(4) exps.satisfied_observed)
  ultimately show ?thesis using j by (intro that [of "\<sigma>\<lparr>mgr := m'\<rparr>" j]) (simp_all add: same_rest_def)
qed

lemma look_run:
  assumes "pc \<sigma> = Idle" and "step_template w s = Some t" and "mJobs (mgr \<sigma>) = fmempty"
  shows "micro atomic names w \<sigma> (\<sigma>\<lparr>pc := Looked s t\<rparr>)"
  by (rule look [OF assms(1,2), of "[]"]) (simp_all add: assms(3) storeJobs_List_filter)

lemma two_listed:
  assumes "j \<in> set xs" "k \<in> set xs" "j \<noteq> k"
  shows "2 \<le> length xs"
proof -
  have "card {j, k} \<le> card (set xs)" using assms by (intro card_mono) auto
  with assms(3) card_length [of xs] show ?thesis by simp
qed

lemma passes_stuck:
  assumes "2 \<le> length (listed w s t store ord)" and "step_template w s = Some t"
    and "obStore (teObs env s) = store" "obOrder (teObs env s) = ord" and "range_order (wf_steps v) (teRange env)"
    and "wfMeta v = wfMeta w" "Spec v = Spec w" "step_phase v s \<noteq> Completed"
    and "processSteps env v st = Some (b, v', st')"
  shows "step_phase v' s = step_phase v s"
proof -
  obtain step where step: "fmlookup (wf_steps v) s = Some step" "JobTemplate step = Some t"
    using assms(2,7) by (auto simp: step_template_def split: option.splits)
  have "step_jobs env v s t = step_jobs env w s t" by (rule process_step_jobs_cong [OF assms(6)])
  then have "2 \<le> length (step_jobs env v s t)" using assms(1,3,4) by (simp add: step_jobs_def)
  moreover have "s \<in> set (teRange env)" using assms(5) step(1) by (simp add: range_order_mem)
  ultimately show ?thesis
    using processSteps_many_jobs [OF assms(9) range_order_distinct [OF assms(5)] _ step assms(8)] by simp
qed

lemma two_jobs_run:
  fixes \<sigma> :: "unit sys"
  assumes "quiet \<sigma>" and "mJobs (mgr \<sigma>) = fmempty" and "\<not> waiting w \<sigma> (clock \<sigma>) s" and "inj names"
    and "step_template w s = Some t" and "valid_labels (getWorkflowJobLabelSet w t s)"
    and "accepts kc enc conv w s t" and "owner_found so ks w s t (mWorkflows (mgr \<sigma>))"
  obtains \<sigma>' x y where "(micro False names w)\<^sup>*\<^sup>* \<sigma> \<sigma>'" "clock \<sigma>' = clock \<sigma>" "made \<sigma>' = [x, y]"
    "made_ok w x" "made_ok w y" "made_step x = s" "made_step y = s" "cached names \<sigma>' 0" "cached names \<sigma>' (Suc 0)"
    "MetaNamespaceKeyFunc (server_meta names (Suc 0) y) \<noteq> MetaNamespaceKeyFunc (server_meta names 0 x)"
proof -
  let ?R = "(micro False names w)\<^sup>*\<^sup>*"
  have q: "pc \<sigma> = Idle" "made \<sigma> = []" using assms(1) by (simp_all add: quiet_def)
  text \<open>The first job, not yet delivered.\<close>
  let ?l = "\<sigma>\<lparr>pc := Looked s t\<rparr>"
  have r1: "?R \<sigma> ?l" using look_run [OF q(1) assms(5,2)] by blast
  obtain \<sigma>1 x where 1: "?R ?l \<sigma>1" "pc \<sigma>1 = Idle" "same_rest ?l \<sigma>1" "mJobs (mgr \<sigma>1) = fmempty"
      "made \<sigma>1 = [x]" "made_ok w x" "made_step x = s" "waiting w \<sigma>1 (clock ?l) s"
    by (rule create_run [OF assms(7,5), of ?l False names]) (use assms(2,3) q(2) in simp_all)
  text \<open>The second pass lists the empty cache, then the informer delivers.\<close>
  let ?l1 = "\<sigma>1\<lparr>pc := Looked s t\<rparr>"
  have r2: "?R \<sigma>1 ?l1" using look_run [OF 1(2) assms(5) 1(4)] by blast
  obtain \<sigma>2 j where 2: "micro False names w ?l1 \<sigma>2" "pc \<sigma>2 = Looked s t" "same_rest ?l1 \<sigma>2" "made \<sigma>2 = [x]"
      "mJobs (mgr \<sigma>2) = fmupd (MetaNamespaceKeyFunc (jobMeta j)) j fmempty" "jobMeta j = server_meta names 0 x"
      "\<not> waiting w \<sigma>2 (clock \<sigma>2) s"
  proof (rule deliver_run [of so ks w s t ?l1 0 names])
    show "owner_found so ks w s t (mWorkflows (mgr ?l1))" using assms(8) 1(3) by (simp add: same_rest_def)
  qed (use assms(5) 1(4-7) in \<open>simp_all\<close>)
  obtain \<sigma>3 y where 3: "?R \<sigma>2 \<sigma>3" "pc \<sigma>3 = Idle" "same_rest \<sigma>2 \<sigma>3" "mJobs (mgr \<sigma>3) = mJobs (mgr \<sigma>2)"
      "made \<sigma>3 = [x] @ [y]" "made_ok w y" "made_step y = s"
    by (rule create_run [OF assms(7,5) 2(2,7), of False names]) (use 2(4) in simp_all)
  have ne: "MetaNamespaceKeyFunc (server_meta names (Suc 0) y) \<noteq> MetaNamespaceKeyFunc (jobMeta j)"
    using server_meta_key [OF assms(4) 3(6) 1(6), of "Suc 0" 0] 2(6) by auto
  obtain \<sigma>4 k where 4: "micro False names w \<sigma>3 \<sigma>4" "same_rest \<sigma>3 \<sigma>4" "made \<sigma>4 = [x, y]"
      "mJobs (mgr \<sigma>4) = fmupd (MetaNamespaceKeyFunc (jobMeta k)) k (mJobs (mgr \<sigma>2))" "jobMeta k = server_meta names (Suc 0) y"
  proof (rule deliver_run [of so ks w s t \<sigma>3 "Suc 0" names])
    show "owner_found so ks w s t (mWorkflows (mgr \<sigma>3))" using assms(8) 1(3) 2(3) 3(3) by (simp add: same_rest_def)
  qed (use assms(5) 2(5) 3(4-7) ne in simp_all)
  have reach: "?R \<sigma> \<sigma>4"
    using r1 1(1) r2 2(1) 3(1) 4(1) by (meson rtranclp_trans rtranclp.rtrancl_into_rtrancl)
  have clk: "clock \<sigma>4 = clock \<sigma>" using 1(3) 2(3) 3(3) 4(2) by (simp add: same_rest_def)
  have c: "cached names \<sigma>4 0" "cached names \<sigma>4 (Suc 0)"
    using 2(5,6) 4(3-5) ne by (auto simp: cached_def)
  show thesis
    by (rule that [OF reach clk 4(3) 1(6) 3(6) 1(7) 3(7) c]) (use ne 2(6) in simp)
qed

text \<open>
  C1. The code's own order loses: from rest, with a server that accepts every job and at one and
  the same moment, there is a run that makes two jobs for a step - a pass lists the cache before
  the informer has its first job, the informer delivers that job and so ends the expectation, the
  pass finds the expectation satisfied and creates another.  Once both jobs are cached, no pass
  over that cache ever takes the step any further.
\<close>

theorem duplicate_job_race:
  fixes \<sigma> :: "unit sys"
  assumes "quiet \<sigma>" and "mJobs (mgr \<sigma>) = fmempty" and "\<not> waiting w \<sigma> (clock \<sigma>) s" and "inj names"
    and "step_template w s = Some t" and "valid_labels (getWorkflowJobLabelSet w t s)"
    and "accepts kc enc conv w s t" and "owner_found so ks w s t (mWorkflows (mgr \<sigma>))"
  shows "\<exists>\<sigma>'. (micro False names w)\<^sup>*\<^sup>* \<sigma> \<sigma>' \<and> clock \<sigma>' = clock \<sigma> \<and> map made_step (made \<sigma>') = [s, s]
     \<and> (\<forall>(env :: 'c tenv) v st b v' st'.
          obStore (teObs env s) = mJobs (mgr \<sigma>') \<and> range_order (mJobs (mgr \<sigma>')) (obOrder (teObs env s))
          \<and> range_order (wf_steps v) (teRange env) \<and> wfMeta v = wfMeta w \<and> Spec v = Spec w
          \<and> step_phase v s \<noteq> Completed \<and> processSteps env v st = Some (b, v', st')
          \<longrightarrow> step_phase v' s = step_phase v s)"
proof -
  obtain \<sigma>' x y where run: "(micro False names w)\<^sup>*\<^sup>* \<sigma> \<sigma>'" "clock \<sigma>' = clock \<sigma>" and made: "made \<sigma>' = [x, y]"
    "made_ok w x" "made_ok w y" "made_step x = s" "made_step y = s" and c: "cached names \<sigma>' 0" "cached names \<sigma>' (Suc 0)"
    and ne: "MetaNamespaceKeyFunc (server_meta names (Suc 0) y) \<noteq> MetaNamespaceKeyFunc (server_meta names 0 x)"
    by (rule two_jobs_run [OF assms])
  have two: "2 \<le> length (listed w s t (mJobs (mgr \<sigma>')) ord)" if o: "range_order (mJobs (mgr \<sigma>')) ord" for ord
  proof -
    note l = cached_listed [OF assms(6,5) o]
    from l [of 0 names] made c(1) obtain a
      where a: "a \<in> set (listed w s t (mJobs (mgr \<sigma>')) ord)" "jobMeta a = server_meta names 0 x" by auto
    from l [of "Suc 0" names] made c(2) obtain b
      where b: "b \<in> set (listed w s t (mJobs (mgr \<sigma>')) ord)" "jobMeta b = server_meta names (Suc 0) y" by auto
    have "a \<noteq> b" using ne a(2) b(2) by auto
    with a(1) b(1) show ?thesis by (rule two_listed)
  qed
  with run made(1,4,5) passes_stuck [OF two assms(5)] show ?thesis
    by (intro exI [of _ \<sigma>'] conjI) (simp, simp, simp, blast)
qed

section \<open>Examples\<close>

abbreviation demo :: Workflow where
  "demo \<equiv> two_workflow fmempty"

definition demo_store :: "Workflow store" where
  "demo_store = fmupd ''default/mydag'' demo fmempty"

definition new_control :: Control where
  "new_control = \<lparr>created = [], events = []\<rparr>"

definition demo_start :: "unit sys" where
  "demo_start =
     \<lparr>mgr = \<lparr>mQueue = wq_New, mState = \<lparr>ctl = new_control, exps = NewWorkflowStepExpectations\<rparr>, mNet = (),
             mWorkflows = demo_store, mJobs = fmempty, mSlept = []\<rparr>, clock = 0, pc = Idle\<rparr>"

definition suffixes :: "nat \<Rightarrow> string" where
  "suffixes i = replicate i (CHR ''x'')"

lemma suffixes_inj: "inj suffixes"
  by (rule injI) (simp add: suffixes_def)

lemma demo_template: "step_template demo ''one'' = Some sample_template"
  by code_simp

lemma demo_labels: "valid_labels (getWorkflowJobLabelSet demo sample_template ''one'')"
  by code_simp

lemma demo_quiet: "quiet demo_start" "mJobs (mgr demo_start) = fmempty" "\<not> waiting demo demo_start (clock demo_start) ''one''"
  by (simp_all add: quiet_def demo_start_def new_control_def waiting_def)

lemma demo_accepts: "accepts accept_job encode_name Inr demo ''one'' sample_template"
  unfolding accepts_def
  by (simp add: Control_CreateJob_def Let_def getJobsAnnotationSet_def GetReference_def encode_name_def
        accept_job_def two_workflow_def sample_workflow_def sample_meta_def GetObjectKind_def Kind_def
        path_Join_def path_Clean_def Group_def getJobsPrefix_def NameIsDNSSubdomain_def maskTrailingDash_def)

lemma demo_owner:
  "owner_found (\<lambda>_. [WorkflowUIDLabel]) [''default/mydag''] demo ''one'' sample_template (mWorkflows (mgr demo_start))"
  unfolding owner_found_def
proof (intro allI impI)
  fix m :: "(Control, unit) mstate" and job :: Job
  assume m: "mWorkflows m = mWorkflows (mgr demo_start)" and ns: "Namespace (jobMeta job) = Namespace (wfMeta demo)"
    and l: "Labels (jobMeta job) = Some (getWorkflowJobLabelSet demo sample_template ''one'')"
  have m': "mWorkflows m = demo_store" using m by (simp add: demo_start_def)
  have "range_order demo_store [''default/mydag'']" "selector_orders (\<lambda>_. [WorkflowUIDLabel]) demo_store" by code_simp+
  then have o: "orders_ok (\<lambda>_. [WorkflowUIDLabel]) [''default/mydag''] m" by (simp add: orders_ok_def m')
  have in_store: "fmlookup demo_store k = Some w \<longleftrightarrow> k = ''default/mydag'' \<and> w = demo" for k w
    by (auto simp: demo_store_def split: if_splits)
  have "selector_ok (JobsSelector (Spec demo))" by code_simp
  then have "\<not> poisoned m job" by (auto simp: poisoned_def m' in_store selector_broken_def)
  with getJobWorkflow_None [OF o, of job] obtain r
    where r: "getJobWorkflow (\<lambda>_. [WorkflowUIDLabel]) [''default/mydag''] job m = Some r" by blast
  have "getWorkflowJobLabelSet demo sample_template ''one'' \<noteq> fmempty"
    "selector_matches (JobsSelector (Spec demo)) (getWorkflowJobLabelSet demo sample_template ''one'')" by code_simp+
  then have "selects demo job" by (simp add: selects_def ns l)
  with getJobWorkflow_Some [OF o r] have "r = Some demo"
    by (cases r) (auto simp: m' in_store)
  with r show "\<exists>v. getJobWorkflow (\<lambda>_. [WorkflowUIDLabel]) [''default/mydag''] job m = Some (Some v)
      \<and> MetaNamespaceKeyFunc (wfMeta v) = wkey demo"
    by (simp add: wkey_def)
qed

lemma duplicate_job_race_witness:
  "\<exists>\<sigma>'. (micro False suffixes demo)\<^sup>*\<^sup>* demo_start \<sigma>' \<and> clock \<sigma>' = 0 \<and> map made_step (made \<sigma>') = [''one'', ''one'']"
proof -
  have "clock demo_start = 0" by (simp add: demo_start_def)
  then show ?thesis
    using duplicate_job_race [OF demo_quiet suffixes_inj demo_template demo_labels demo_accepts demo_owner, where 'c = unit]
    by auto
qed

lemma demo_templates_valid: "templates_valid demo"
proof -
  have "fmpred (\<lambda>s step. case JobTemplate step of None \<Rightarrow> True | Some t \<Rightarrow> valid_labels (getWorkflowJobLabelSet demo t s))
      (wf_steps demo)" by code_simp
  then show ?thesis
    by (auto simp: templates_valid_def step_template_def fmpred_iff split: option.splits)
qed

lemma at_most_one_job_witness:
  "\<exists>\<sigma>'. (micro True suffixes demo)\<^sup>*\<^sup>* demo_start \<sigma>' \<and> length (made \<sigma>') = 1 \<and> distinct (map made_step (made \<sigma>'))"
proof -
  let ?l = "demo_start\<lparr>pc := Looked ''one'' sample_template\<rparr>"
  have 1: "micro True suffixes demo demo_start ?l"
    using look_run [OF _ demo_template demo_quiet(2)] demo_quiet(1) by (simp add: quiet_def)
  obtain \<sigma>' x where 2: "(micro True suffixes demo)\<^sup>*\<^sup>* ?l \<sigma>'" "made \<sigma>' = made ?l @ [x]"
    by (rule create_run [OF demo_accepts demo_template, of ?l True suffixes]) (use demo_quiet(3) in simp_all)
  from 1 2(1) have r: "(micro True suffixes demo)\<^sup>*\<^sup>* demo_start \<sigma>'" by (rule converse_rtranclp_into_rtranclp)
  have "length (made \<sigma>') = 1" using 2(2) demo_quiet(1) by (simp add: quiet_def)
  with r at_most_one_job [OF r demo_quiet(1) suffixes_inj demo_templates_valid] show ?thesis by blast
qed

definition demo_env :: "Control tenv" where
  "demo_env =
     \<lparr>teCreateJob = Control_CreateJob accept_job encode_name Inr, teGetReference = \<lambda>_. Inr sample_reference,
      teValidateMeta = \<lambda>_. [], teNow = 7, teObs = (\<lambda>_. no_jobs), teLabelOrder = [WorkflowUIDLabel],
      teStepOrder = [''one'', ''two''], teRange = [''one'', ''two'']\<rparr>"

lemma step_refines_machine_witness:
  "\<exists>st'. (micro False suffixes demo)\<^sup>*\<^sup>* demo_start (set_mState st' demo_start) \<and> length (created (ctl st')) = 1"
proof -
  have "map_option (\<lambda>(_, _, st'). length (created (ctl st')))
      (processJobStep demo_env demo ''one'' (job_step []) (mState (mgr demo_start))) = Some 1"
    by code_simp
  then obtain b w' st' where p: "processJobStep demo_env demo ''one'' (job_step []) (mState (mgr demo_start)) = Some (b, w', st')"
    and l: "length (created (ctl st')) = 1" by auto
  have s: "fmlookup (wf_steps demo) ''one'' = Some (job_step [])" by code_simp
  have "(micro False suffixes demo)\<^sup>*\<^sup>* demo_start (set_mState st' demo_start)"
    by (rule step_refines_machine [OF p s])
      (simp_all add: demo_env_def no_jobs_def demo_start_def)
  with l show ?thesis by blast
qed

end
