(* ===== verification/Aliasing.thy ===== *)
theory Aliasing
  imports Transition
begin

text \<open>
  The transitioner works on \<^verbatim>\<open>*obj.(*api.Workflow)\<close>, a copy of the struct in the cache whose maps and
  selector are the cache's own.  Here \<^verbatim>\<open>process\<close> runs on a heap: maps and selectors have
  addresses, a workflow struct holds addresses, writing to a map changes it for everyone.  The
  theorem is that the model on values (theory Transitioner) is right: the pass computes the same,
  and the cached workflow ends up as \<open>cached_after\<close> says.
\<close>

section \<open>The heap\<close>

record hselector =
  hsMatch :: "nat option"
  hsExpressions :: "SelectorRequirement list"

record heap =
  labelMaps :: "(nat, string gomap) fmap"
  statusMaps :: "(nat, WorkflowStepStatus gomap) fmap"
  selectors :: "(nat, hselector) fmap"
  nextAddr :: nat

text \<open>A struct: its fields that are values, and the addresses of the others; None is nil.\<close>

record hworkflow =
  hValue :: Workflow
  hLabels :: "nat option"
  hStatuses :: "nat option"
  hSelector :: "nat option"

definition deref :: "(nat, 'a) fmap \<Rightarrow> nat option \<Rightarrow> 'a option" where
  "deref m p = (case p of None \<Rightarrow> None | Some a \<Rightarrow> fmlookup m a)"

definition load_selector :: "heap \<Rightarrow> nat option \<Rightarrow> LabelSelector option" where
  "load_selector h p =
     map_option (\<lambda>s. \<lparr>MatchLabels = deref (labelMaps h) (hsMatch s), MatchExpressions = hsExpressions s\<rparr>)
       (deref (selectors h) p)"

definition load :: "heap \<Rightarrow> hworkflow \<Rightarrow> Workflow" where
  "load h p =
     set_meta_labels (deref (labelMaps h) (hLabels p))
       (set_statuses (deref (statusMaps h) (hStatuses p)) (set_selector (load_selector h (hSelector p)) (hValue p)))"

text \<open>No dangling address, nothing beyond the next free one, and the labels are not the selector's map.\<close>

definition live :: "heap \<Rightarrow> hworkflow \<Rightarrow> bool" where
  "live h p \<longleftrightarrow>
     (\<forall>a. hLabels p = Some a \<longrightarrow> a < nextAddr h \<and> fmlookup (labelMaps h) a \<noteq> None)
     \<and> (\<forall>a. hStatuses p = Some a \<longrightarrow> a < nextAddr h \<and> fmlookup (statusMaps h) a \<noteq> None)
     \<and> (\<forall>a. hSelector p = Some a \<longrightarrow> a < nextAddr h
          \<and> (\<exists>s. fmlookup (selectors h) a = Some s
               \<and> (\<forall>b. hsMatch s = Some b \<longrightarrow> b < nextAddr h \<and> fmlookup (labelMaps h) b \<noteq> None \<and> hLabels p \<noteq> Some b)))"

section \<open>The code on the heap\<close>

definition new_label_map :: "heap \<Rightarrow> nat \<times> heap" where
  "new_label_map h =
     (nextAddr h, h\<lparr>labelMaps := fmupd (nextAddr h) fmempty (labelMaps h), nextAddr := Suc (nextAddr h)\<rparr>)"

text \<open>\<^verbatim>\<open>m[k] = v\<close>; None is the panic on a nil map.\<close>

definition put_label :: "nat option \<Rightarrow> string \<Rightarrow> string \<Rightarrow> heap \<Rightarrow> heap option" where
  "put_label p k v h =
     (case p of
        None \<Rightarrow> None
      | Some a \<Rightarrow> map_option (\<lambda>m. h\<lparr>labelMaps := fmupd a (fmupd k v m) (labelMaps h)\<rparr>) (fmlookup (labelMaps h) a))"

fun put_labels :: "nat option \<Rightarrow> string gomap \<Rightarrow> string list \<Rightarrow> heap \<Rightarrow> heap option" where
  "put_labels p labels [] h = Some h"
| "put_labels p labels (k # ks) h =
     (case fmlookup labels k of
        None \<Rightarrow> put_labels p labels ks h
      | Some v \<Rightarrow> (case put_label p k v h of None \<Rightarrow> None | Some h' \<Rightarrow> put_labels p labels ks h'))"

definition heap_setLabels :: "string gomap \<Rightarrow> string list \<Rightarrow> heap \<times> hworkflow \<Rightarrow> (heap \<times> hworkflow) option" where
  "heap_setLabels labels ks hp =
     (let (h, p) = hp;
          (h1, p1) = (case hLabels p of
                        None \<Rightarrow> (let (a, h1) = new_label_map h in (h1, p\<lparr>hLabels := Some a\<rparr>))
                      | Some _ \<Rightarrow> (h, p))
      in map_option (\<lambda>h2. (h2, p1)) (put_labels (hLabels p1) labels ks h1))"

definition heap_SetUID :: "heap \<times> hworkflow \<Rightarrow> (heap \<times> hworkflow) option" where
  "heap_SetUID hp =
     (let (h, p) = hp;
          (h1, p1) = (case hSelector p of
                        None \<Rightarrow> (let (a, h1) = new_label_map h; b = nextAddr h1
                                 in (h1\<lparr>selectors := fmupd b \<lparr>hsMatch = Some a, hsExpressions = []\<rparr> (selectors h1),
                                         nextAddr := Suc b\<rparr>, p\<lparr>hSelector := Some b\<rparr>))
                      | Some _ \<Rightarrow> (h, p));
          uid = UID (wfMeta (hValue p1))
      in case heap_setLabels (fmupd WorkflowUIDLabel uid fmempty) [WorkflowUIDLabel] (h1, p1) of
           None \<Rightarrow> None
         | Some (h2, p2) \<Rightarrow>
             (case deref (selectors h2) (hSelector p2) of
                None \<Rightarrow> None
              | Some s \<Rightarrow> map_option (\<lambda>h3. (h3, p2)) (put_label (hsMatch s) WorkflowUIDLabel uid h2)))"

definition heap_SetDefaults :: "int \<Rightarrow> heap \<times> hworkflow \<Rightarrow> (heap \<times> hworkflow) option" where
  "heap_SetDefaults now hp =
     (let (h, p) = hp;
          h1 = h\<lparr>statusMaps := fmupd (nextAddr h) fmempty (statusMaps h), nextAddr := Suc (nextAddr h)\<rparr>;
          v = hValue p;
          p1 = p\<lparr>hStatuses := Some (nextAddr h), hValue := v\<lparr>Status := (Status v)\<lparr>StartTime := Some now\<rparr>\<rparr>\<rparr>
      in heap_SetUID (h1, p1))"

definition heap_updateStepStatus ::
  "'c tenv \<Rightarrow> heap \<times> hworkflow \<Rightarrow> string \<Rightarrow> Job \<Rightarrow> (bool \<times> heap \<times> hworkflow) option" where
  "heap_updateStepStatus env hp stepName curJob =
     (let (h, p) = hp
      in case teGetReference env curJob of
           Inl _ \<Rightarrow> Some (False, h, p)
         | Inr reference \<Rightarrow>
             (let statuses = deref (statusMaps h) (hStatuses p);
                  oldStatus = map_get statuses stepName;
                  jobFinished = IsJobFinished curJob
              in if (case oldStatus of None \<Rightarrow> False | Some old \<Rightarrow> jobFinished = Complete old) then Some (False, h, p)
                 else
                   (case hStatuses p of
                      None \<Rightarrow> None
                    | Some a \<Rightarrow>
                        map_option (\<lambda>m. (True, h\<lparr>statusMaps :=
                            fmupd a (fmupd stepName \<lparr>Complete = jobFinished, Reference = reference\<rparr> m) (statusMaps h)\<rparr>, p))
                          (fmlookup (statusMaps h) a))))"

definition heap_processJobStep ::
  "'c tenv \<Rightarrow> heap \<times> hworkflow \<Rightarrow> string \<Rightarrow> WorkflowStep \<Rightarrow> 'c tstate \<Rightarrow> (bool \<times> (heap \<times> hworkflow) \<times> 'c tstate) option" where
  "heap_processJobStep env hp stepName step st =
     (let (h, p) = hp; w = load h p
      in if \<not> DependenciesResolved step w then Some (False, (h, p), st)
         else
           (case (case fmlookup (wf_steps w) stepName of None \<Rightarrow> None | Some s \<Rightarrow> JobTemplate s) of
              None \<Rightarrow> None
            | Some template \<Rightarrow>
                (case step_jobs env w stepName template of
                   [] \<Rightarrow> map_option (\<lambda>st'. (False, (h, p), st')) (createJobForStep env w stepName step st)
                 | [curJob] \<Rightarrow> map_option (\<lambda>(b, hp'). (b, hp', st)) (heap_updateStepStatus env (h, p) stepName curJob)
                 | _ \<Rightarrow> Some (False, (h, p), st))))"

definition heap_process_step ::
  "'c tenv \<Rightarrow> heap \<times> hworkflow \<Rightarrow> string \<Rightarrow> WorkflowStep \<Rightarrow> 'c tstate \<Rightarrow> (bool \<times> (heap \<times> hworkflow) \<times> 'c tstate) option" where
  "heap_process_step env hp stepName step st =
     (if JobTemplate step \<noteq> None then heap_processJobStep env hp stepName step st else Some (False, hp, st))"

fun heap_steps_loop ::
  "'c tenv \<Rightarrow> WorkflowStep gomap \<Rightarrow> string list \<Rightarrow> bool \<times> bool \<times> (heap \<times> hworkflow) \<times> 'c tstate \<Rightarrow>
   (bool \<times> bool \<times> (heap \<times> hworkflow) \<times> 'c tstate) option" where
  "heap_steps_loop env steps [] acc = Some acc"
| "heap_steps_loop env steps (stepName # rest) (n, c, (h, p), st) =
     (case fmlookup steps stepName of
        None \<Rightarrow> heap_steps_loop env steps rest (n, c, (h, p), st)
      | Some step \<Rightarrow>
          if (case map_get (deref (statusMaps h) (hStatuses p)) stepName of None \<Rightarrow> False | Some s \<Rightarrow> Complete s)
          then heap_steps_loop env steps rest (n, c, (h, p), st)
          else
            (case heap_process_step env (h, p) stepName step st of
               None \<Rightarrow> None
             | Some (b, hp', st') \<Rightarrow> heap_steps_loop env steps rest (b \<or> n, False, hp', st')))"

definition heap_processSteps ::
  "'c tenv \<Rightarrow> heap \<times> hworkflow \<Rightarrow> 'c tstate \<Rightarrow> (bool \<times> (heap \<times> hworkflow) \<times> 'c tstate) option" where
  "heap_processSteps env hp st =
     (case heap_steps_loop env (wf_steps (hValue (snd hp))) (teRange env) (False, True, hp, st) of
        None \<Rightarrow> None
      | Some (n, c, (h, p), st') \<Rightarrow>
          if c then Some (True, (h, p\<lparr>hValue := AddCompleteCondition (teNow env) (hValue p)\<rparr>), st')
          else Some (n, (h, p), st'))"

definition heap_process ::
  "'c tenv \<Rightarrow> heap \<times> hworkflow \<Rightarrow> 'c tstate \<Rightarrow> (bool \<times> (heap \<times> hworkflow) \<times> 'c tstate) option" where
  "heap_process env hp st =
     (let (h, p) = hp; labels = deref (labelMaps h) (hLabels p)
      in if map_get labels WorkflowUIDLabel = None then
           map_option (\<lambda>hp'. (True, hp', st)) (heap_SetDefaults (teNow env) (h, p))
         else
           (let wasValid = map_get labels workflowValidLabel
            in if wasValid = None \<or> wasValid = Some falseString then
                 (let isValid = isWorkflowValid env (load h p)
                  in case put_label (hLabels p) workflowValidLabel (FormatBool isValid) h of
                       None \<Rightarrow> None
                     | Some h1 \<Rightarrow>
                         (if \<not> isValid then Some (wasValid = None, (h1, p), st)
                          else map_option (\<lambda>(b, hp', st'). (True, hp', st')) (heap_processSteps env (h1, p) st)))
               else heap_processSteps env (h, p) st))"

section \<open>Reading structs\<close>

lemma set_same [simp]:
  "set_meta_labels (Labels (wfMeta w)) w = w" "set_statuses (Statuses (Status w)) w = w"
  "set_selector (JobsSelector (Spec w)) w = w"
  by (simp_all add: set_meta_labels_def set_statuses_def set_selector_def)

lemma load_fields [simp]:
  "Labels (wfMeta (load h p)) = deref (labelMaps h) (hLabels p)"
  "Statuses (Status (load h p)) = deref (statusMaps h) (hStatuses p)"
  "JobsSelector (Spec (load h p)) = load_selector h (hSelector p)"
  "Steps (Spec (load h p)) = Steps (Spec (hValue p))"
  "UID (wfMeta (load h p)) = UID (wfMeta (hValue p))"
  by (simp_all add: load_def set_meta_labels_def set_statuses_def set_selector_def)

lemma load_AddComplete:
  "load h (p\<lparr>hValue := AddCompleteCondition t (hValue p)\<rparr>) = AddCompleteCondition t (load h p)"
  by (simp add: load_def set_meta_labels_def set_statuses_def set_selector_def AddCompleteCondition_def Let_def)

lemma load_statuses:
  "hStatuses p = Some a \<Longrightarrow>
     load (h\<lparr>statusMaps := fmupd a m (statusMaps h)\<rparr>) p = set_statuses (Some m) (load h p)"
  by (simp add: load_def deref_def load_selector_def set_meta_labels_def set_statuses_def set_selector_def)

section \<open>The loop writes status maps only\<close>

definition only_statuses :: "hworkflow \<Rightarrow> heap \<Rightarrow> heap \<Rightarrow> bool" where
  "only_statuses p h h' \<longleftrightarrow>
     h' = h \<or> (\<exists>a m. hStatuses p = Some a \<and> h' = h\<lparr>statusMaps := fmupd a m (statusMaps h)\<rparr>)"

lemma only_statuses_refl [simp]: "only_statuses p h h"
  by (simp add: only_statuses_def)

lemma only_statuses_trans: "only_statuses p h h1 \<Longrightarrow> only_statuses p h1 h2 \<Longrightarrow> only_statuses p h h2"
  unfolding only_statuses_def by (elim disjE exE conjE) auto

lemma only_statuses_live: "only_statuses p h h' \<Longrightarrow> live h p \<Longrightarrow> live h' p"
  by (auto simp: only_statuses_def live_def)

lemma only_statuses_load:
  assumes "only_statuses p h h'" and "hStatuses q = hStatuses p"
  shows "load h' q = set_statuses (deref (statusMaps h') (hStatuses q)) (load h q)"
  using assms
  unfolding only_statuses_def
proof (elim disjE exE conjE)
  assume "h' = h"
  with set_same(2) [of "load h q"] show ?thesis by simp
qed (simp add: load_statuses deref_def)

definition same_step :: "hworkflow \<Rightarrow> heap \<Rightarrow> bool \<times> (heap \<times> hworkflow) \<times> 'c tstate \<Rightarrow> bool \<times> Workflow \<times> 'c tstate \<Rightarrow> bool" where
  "same_step p h r v \<longleftrightarrow>
     (case (r, v) of ((b, (h', p'), st), (b', w', st')) \<Rightarrow>
        b = b' \<and> st = st' \<and> p' = p \<and> only_statuses p h h' \<and> w' = load h' p)"

lemma updateStepStatus_sim:
  assumes "live h p"
  shows "rel_option (\<lambda>(b, h', p') (b', w'). b = b' \<and> p' = p \<and> only_statuses p h h' \<and> w' = load h' p)
    (heap_updateStepStatus env (h, p) s job) (updateStepStatus env (load h p) s job)"
proof (cases "hStatuses p")
  case None
  then show ?thesis
    by (auto simp: heap_updateStepStatus_def updateStepStatus_def Let_def deref_def split: sum.splits)
next
  case (Some a)
  with assms obtain m where "fmlookup (statusMaps h) a = Some m" by (auto simp: live_def)
  with Some show ?thesis
    by (auto simp: heap_updateStepStatus_def updateStepStatus_def Let_def deref_def load_statuses only_statuses_def
        split: sum.splits option.splits)
qed

lemma processJobStep_sim:
  assumes "live h p"
  shows "rel_option (same_step p h) (heap_processJobStep env (h, p) s step st) (processJobStep env (load h p) s step st)"
proof -
  let ?w = "load h p"
  let ?t = "case fmlookup (wf_steps ?w) s of None \<Rightarrow> None | Some s \<Rightarrow> JobTemplate s"
  show ?thesis
  proof (cases "\<not> DependenciesResolved step ?w \<or> ?t = None")
    case True
    then show ?thesis
      by (auto simp: heap_processJobStep_def processJobStep_def same_step_def simp del: load_fields)
  next
    case False
    then obtain t where t: "?t = Some t" by auto
    have l: "storeJobs_List (JobLister_Jobs (obStore (teObs env s)) (Namespace (wfMeta ?w)))
        (obOrder (teObs env s)) (CreateWorkflowJobLabelSelector ?w t s) = step_jobs env ?w s t"
      by (simp add: step_jobs_def)
    have heap: "heap_processJobStep env (h, p) s step st =
       (case step_jobs env ?w s t of
          [] \<Rightarrow> map_option (\<lambda>st'. (False, (h, p), st')) (createJobForStep env ?w s step st)
        | [curJob] \<Rightarrow> map_option (\<lambda>(b, hp'). (b, hp', st)) (heap_updateStepStatus env (h, p) s curJob)
        | _ \<Rightarrow> Some (False, (h, p), st))"
      and code: "processJobStep env ?w s step st =
       (case step_jobs env ?w s t of
          [] \<Rightarrow> map_option (\<lambda>st'. (False, ?w, st')) (createJobForStep env ?w s step st)
        | [curJob] \<Rightarrow> map_option (\<lambda>(b, w'). (b, w', st)) (updateStepStatus env ?w s curJob)
        | _ \<Rightarrow> Some (False, ?w, st))"
      using False t by (simp_all add: heap_processJobStep_def processJobStep_def Let_def l del: load_fields)
    show ?thesis
    proof (cases "step_jobs env ?w s t" rule: remdups_adj.cases)
      case 1
      then show ?thesis unfolding heap code
        by (cases "createJobForStep env ?w s step st") (simp_all add: same_step_def)
    next
      case (2 j)
      from updateStepStatus_sim [OF assms, of env s j] show ?thesis unfolding heap code 2
        by (auto simp: option_rel_Some1 option_rel_Some2 same_step_def rel_option_iff split: option.splits)
    next
      case (3 i j js)
      then show ?thesis unfolding heap code by (simp add: same_step_def)
    qed
  qed
qed

lemma process_step_sim:
  assumes "live h p"
  shows "rel_option (same_step p h) (heap_process_step env (h, p) s step st) (process_step env (load h p) s step st)"
  using processJobStep_sim [OF assms, of env s step st]
  by (auto simp: heap_process_step_def process_step_def processExternalReferenceStep_def same_step_def)

definition same_loop :: "hworkflow \<Rightarrow> heap \<Rightarrow> bool \<times> bool \<times> (heap \<times> hworkflow) \<times> 'c tstate \<Rightarrow>
    bool \<times> bool \<times> Workflow \<times> 'c tstate \<Rightarrow> bool" where
  "same_loop p h r v \<longleftrightarrow>
     (case (r, v) of ((n, c, (h', p'), st), (n', c', w', st')) \<Rightarrow>
        n = n' \<and> c = c' \<and> st = st' \<and> p' = p \<and> only_statuses p h h' \<and> w' = load h' p)"

lemma same_loop_trans:
  "same_loop p h1 r v \<Longrightarrow> only_statuses p h h1 \<Longrightarrow> same_loop p h r v"
  by (auto simp: same_loop_def dest: only_statuses_trans)

lemma steps_loop_sim:
  "live h p \<Longrightarrow>
     rel_option (same_loop p h) (heap_steps_loop env steps ks (n, c, (h, p), st)) (steps_loop env steps ks (n, c, load h p, st))"
proof (induction ks arbitrary: n c h st)
  case Nil
  then show ?case by (simp add: same_loop_def)
next
  case (Cons k ks)
  show ?case
  proof (cases "fmlookup steps k")
    case None
    with Cons show ?thesis by simp
  next
    case (Some step)
    let ?done = "case map_get (deref (statusMaps h) (hStatuses p)) k of None \<Rightarrow> False | Some s \<Rightarrow> Complete s"
    show ?thesis
    proof (cases ?done)
      case True
      with Some Cons show ?thesis by simp
    next
      case False
      from process_step_sim [OF Cons.prems, of env k step st] consider
          "heap_process_step env (h, p) k step st = None" "process_step env (load h p) k step st = None"
        | b h1 st1 where "heap_process_step env (h, p) k step st = Some (b, (h1, p), st1)"
            "process_step env (load h p) k step st = Some (b, load h1 p, st1)" "only_statuses p h h1"
        by (auto simp: rel_option_iff same_step_def split: option.splits)
      then show ?thesis
      proof cases
        case 1
        with Some False show ?thesis by simp
      next
        case 2
        from Cons.IH [OF only_statuses_live [OF 2(3) Cons.prems], of "b \<or> n" False st1]
        have "rel_option (same_loop p h) (heap_steps_loop env steps ks (b \<or> n, False, (h1, p), st1))
            (steps_loop env steps ks (b \<or> n, False, load h1 p, st1))"
          by (rule option.rel_mono_strong) (rule same_loop_trans [OF _ 2(3)])
        with Some False 2 show ?thesis by simp
      qed
    qed
  qed
qed

section \<open>A pass\<close>

definition same_pass :: "hworkflow \<Rightarrow> heap \<Rightarrow> bool \<times> (heap \<times> hworkflow) \<times> 'c tstate \<Rightarrow> bool \<times> Workflow \<times> 'c tstate \<Rightarrow> bool" where
  "same_pass p h r v \<longleftrightarrow>
     (case (r, v) of ((b, (h', p'), st), (b', w', st')) \<Rightarrow>
        b = b' \<and> st = st' \<and> w' = load h' p' \<and> only_statuses p h h'
        \<and> Statuses (Status w') = deref (statusMaps h') (hStatuses p))"

lemma processSteps_sim:
  assumes "live h p"
  shows "rel_option (same_pass p h) (heap_processSteps env (h, p) st) (processSteps env (load h p) st)"
proof -
  have s: "wf_steps (load h p) = wf_steps (hValue p)" by simp
  from steps_loop_sim [OF assms, of env "wf_steps (hValue p)" "teRange env" False True st] consider
      "heap_steps_loop env (wf_steps (hValue p)) (teRange env) (False, True, (h, p), st) = None"
      "steps_loop env (wf_steps (hValue p)) (teRange env) (False, True, load h p, st) = None"
    | n c h' st' where
      "heap_steps_loop env (wf_steps (hValue p)) (teRange env) (False, True, (h, p), st) = Some (n, c, (h', p), st')"
      "steps_loop env (wf_steps (hValue p)) (teRange env) (False, True, load h p, st) = Some (n, c, load h' p, st')"
      "only_statuses p h h'"
    by (auto simp: rel_option_iff same_loop_def split: option.splits)
  then show ?thesis
    by cases (simp_all add: heap_processSteps_def processSteps_def s same_pass_def load_AddComplete)
qed

lemma put_label_load:
  assumes "put_label (hLabels p) k v h = Some h1" and "live h p"
  shows "live h1 p \<and> map_put (Labels (wfMeta (load h p))) k v = Some (Labels (wfMeta (load h1 p)))
     \<and> load h1 p = set_meta_labels (Labels (wfMeta (load h1 p))) (load h p)"
proof -
  from assms(1) obtain a m where a: "hLabels p = Some a" "fmlookup (labelMaps h) a = Some m"
    "h1 = h\<lparr>labelMaps := fmupd a (fmupd k v m) (labelMaps h)\<rparr>"
    by (auto simp: put_label_def split: option.splits)
  have "load_selector h1 (hSelector p) = load_selector h (hSelector p)"
  proof (cases "hSelector p")
    case (Some b)
    with assms(2) obtain s where s: "fmlookup (selectors h) b = Some s" "\<And>c. hsMatch s = Some c \<Longrightarrow> c \<noteq> a"
      using a(1) by (auto simp: live_def)
    then have "deref (labelMaps h1) (hsMatch s) = deref (labelMaps h) (hsMatch s)"
      by (auto simp: deref_def a(3) split: option.split)
    with Some s(1) show ?thesis by (simp add: load_selector_def deref_def a(3))
  qed (simp add: load_selector_def deref_def)
  then have "load h1 p = set_meta_labels (Some (fmupd k v m)) (load h p)"
    using a by (simp add: load_def deref_def set_meta_labels_def set_statuses_def set_selector_def)
  moreover have "live h1 p" using assms(2) a by (auto simp: live_def)
  ultimately show ?thesis using a by (simp add: deref_def)
qed

text \<open>What the cache is left with, when the pass did not set the defaults.\<close>

lemma cached_after_pass:
  assumes "map_get (Labels (wfMeta w)) WorkflowUIDLabel \<noteq> None"
    and "Labels (wfMeta w') \<noteq> None" and "JobsSelector (Spec w') = JobsSelector (Spec w)"
    and "Statuses (Status w') = None \<longleftrightarrow> Statuses (Status w) = None"
  shows "cached_after w w' = set_statuses (Statuses (Status w')) (set_meta_labels (Labels (wfMeta w')) w)"
proof -
  have "Labels (wfMeta w) \<noteq> None" using assms(1) by (cases "Labels (wfMeta w)") simp_all
  moreover have "set_selector (JobsSelector (Spec w')) (set_meta_labels l w) = set_meta_labels l w" for l
    using set_same(3) [of "set_meta_labels l w"] assms(3) by simp
  moreover have "(if JobsSelector (Spec w) = None then None else JobsSelector (Spec w')) = JobsSelector (Spec w')"
    using assms(3) by simp
  moreover have "(if Statuses (Status w) = None then Statuses (Status w) else Statuses (Status w')) = Statuses (Status w')"
    using assms(4) by metis
  ultimately show ?thesis using assms(1) by (simp add: cached_after_def Let_def del: not_None_eq)
qed

definition same_process :: "heap \<Rightarrow> hworkflow \<Rightarrow> bool \<times> (heap \<times> hworkflow) \<times> 'c tstate \<Rightarrow> bool \<times> Workflow \<times> 'c tstate \<Rightarrow> bool" where
  "same_process h q r v \<longleftrightarrow>
     (case (r, v) of ((b, (h', p'), st), (b', w', st')) \<Rightarrow>
        b = b' \<and> st = st' \<and> w' = load h' p' \<and> load h' q = cached_after (load h q) w')"

lemma deref_statuses_None:
  "live h q \<Longrightarrow> only_statuses q h h' \<Longrightarrow> deref (statusMaps h') (hStatuses q) = None \<longleftrightarrow> hStatuses q = None"
  by (cases "hStatuses q") (auto simp: deref_def live_def dest: only_statuses_live)

text \<open>The steps, started from the cached struct's copy with new labels.\<close>

lemma processSteps_cached:
  assumes "live h1 q" and "load h1 q = set_meta_labels l (load h q)" and "l \<noteq> None"
    and "hStatuses q = None \<longleftrightarrow> Statuses (Status (load h q)) = None"
    and "map_get (Labels (wfMeta (load h q))) WorkflowUIDLabel \<noteq> None"
    and "same_pass q h1 (b, (h', p'), st') (b, w', st')" and "processSteps env (load h1 q) st = Some (b, w', st')"
  shows "load h' q = cached_after (load h q) w'"
proof -
  from assms(6) have o: "only_statuses q h1 h'" and sts: "Statuses (Status w') = deref (statusMaps h') (hStatuses q)"
    unfolding same_pass_def by auto
  note k = processSteps_keeps [OF assms(7)]
  have l: "Labels (wfMeta w') = l" "JobsSelector (Spec w') = JobsSelector (Spec (load h q))"
    using k by (simp_all only: assms(2) set_fields)
  have "Statuses (Status w') = None \<longleftrightarrow> Statuses (Status (load h q)) = None"
    using deref_statuses_None [OF assms(1) o] assms(4) sts by simp
  from cached_after_pass [OF assms(5) _ l(2) this] l(1) assms(3)
  have "cached_after (load h q) w' = set_statuses (Statuses (Status w')) (set_meta_labels l (load h q))" by simp
  also have "\<dots> = load h' q" using only_statuses_load [OF o refl] assms(2) sts by simp
  finally show ?thesis by simp
qed

subsection \<open>Setting the defaults\<close>

lemma setLabels_single:
  "heap_setLabels (fmupd k v fmempty) [k] (h, p) =
     (case hLabels p of
        None \<Rightarrow> Some (h\<lparr>labelMaps := fmupd (nextAddr h) (fmupd k v fmempty) (labelMaps h), nextAddr := Suc (nextAddr h)\<rparr>,
                      p\<lparr>hLabels := Some (nextAddr h)\<rparr>)
      | Some a \<Rightarrow> map_option (\<lambda>m. (h\<lparr>labelMaps := fmupd a (fmupd k v m) (labelMaps h)\<rparr>, p)) (fmlookup (labelMaps h) a))"
proof -
  have "fmupd a x (fmupd a y m) = fmupd a x m" for a x y and m :: "(nat, string gomap) fmap"
    by (rule fmap_ext) simp
  then show ?thesis
    by (auto simp: heap_setLabels_def new_label_map_def put_label_def Let_def option.map_comp comp_def split: option.split)
qed

lemma SetDefaults_sim:
  assumes "live h q" and "map_get (Labels (wfMeta (load h q))) WorkflowUIDLabel = None"
  shows "rel_option (\<lambda>(h', p') w'. w' = load h' p' \<and> load h' q = cached_after (load h q) w')
     (heap_SetDefaults now (h, q)) (SetDefaults now (load h q))"
proof -
  let ?n = "nextAddr h"
  note defs = heap_SetDefaults_def heap_SetUID_def setLabels_single new_label_map_def put_label_def
    SetDefaults_def SetUID_def setLabels_def Let_def deref_def load_selector_def
  note vals = load_def deref_def load_selector_def cached_after_def set_meta_labels_def set_statuses_def set_selector_def Let_def
  have labels: "a < ?n \<and> (\<exists>m. fmlookup (labelMaps h) a = Some m)" if "hLabels q = Some a" for a
    using assms(1) that by (auto simp: live_def)
  have sts: "a < ?n" if "hStatuses q = Some a" for a using assms(1) that by (auto simp: live_def)
  show ?thesis
  proof (cases "hSelector q")
    case None
    show ?thesis
    proof (cases "hLabels q")
      case n: None
      with None assms(2) show ?thesis
        by (simp add: defs) (auto simp: vals dest: sts split: option.split)
    next
      case (Some a)
      with labels obtain m where m: "fmlookup (labelMaps h) a = Some m" "a < ?n" by blast
      with Some None assms(2) show ?thesis
        by (simp add: defs) (auto simp: vals dest: sts split: option.split)
    qed
  next
    case sel: (Some b)
    with assms(1) obtain s where s: "fmlookup (selectors h) b = Some s" "b < ?n"
      and match: "\<And>c. hsMatch s = Some c \<Longrightarrow> c < ?n \<and> (\<exists>m. fmlookup (labelMaps h) c = Some m) \<and> hLabels q \<noteq> Some c"
      by (auto simp: live_def)
    show ?thesis
    proof (cases "hsMatch s")
      case None
      show ?thesis
      proof (cases "hLabels q")
        case n: None
        with None sel s assms(2) show ?thesis by (simp add: defs)
      next
        case (Some a)
        with labels obtain m where m: "fmlookup (labelMaps h) a = Some m" "a < ?n" by blast
        with Some None sel s assms(2) show ?thesis by (simp add: defs)
      qed
    next
      case (Some c)
      with match obtain mc where c: "c < ?n" "fmlookup (labelMaps h) c = Some mc" "hLabels q \<noteq> Some c" by blast
      show ?thesis
      proof (cases "hLabels q")
        case n: None
        with Some c sel s assms(2) show ?thesis
          by (simp add: defs) (auto simp: vals dest: sts split: option.split)
      next
        case l: (Some a)
        with labels obtain m where m: "fmlookup (labelMaps h) a = Some m" "a < ?n" by blast
        with Some c l sel s assms(2) show ?thesis
          by (simp add: defs) (auto simp: vals dest: sts split: option.split)
      qed
    qed
  qed
qed

lemma process_steps_sim:
  assumes "live h q" and "map_get (Labels (wfMeta (load h q))) WorkflowUIDLabel \<noteq> None"
    "\<not> (map_get (Labels (wfMeta (load h q))) workflowValidLabel = None
          \<or> map_get (Labels (wfMeta (load h q))) workflowValidLabel = Some falseString)"
  shows "rel_option (same_process h q) (heap_process env (h, q) st) (process env (load h q) st)"
proof -
  let ?w = "load h q"
  have st_None: "hStatuses q = None \<longleftrightarrow> Statuses (Status ?w) = None"
    using deref_statuses_None [OF assms(1) only_statuses_refl] by simp
  have l: "Labels (wfMeta ?w) \<noteq> None" using assms(2) by (cases "Labels (wfMeta ?w)") simp_all
  have w: "?w = set_meta_labels (Labels (wfMeta ?w)) ?w" by (rule set_same(1) [symmetric])
  have "rel_option (same_process h q) (heap_processSteps env (h, q) st) (processSteps env ?w st)"
    using processSteps_sim [OF assms(1), of env st] processSteps_cached [OF assms(1) w l st_None assms(2)]
    by (fastforce simp: rel_option_iff same_process_def same_pass_def split: option.splits prod.splits)
  with assms(2,3) show ?thesis by (simp add: heap_process_def process_def Let_def del: not_None_eq)
qed

lemma process_validate_sim:
  assumes "live h q" and validate: "map_get (Labels (wfMeta (load h q))) WorkflowUIDLabel \<noteq> None"
    "map_get (Labels (wfMeta (load h q))) workflowValidLabel = None
       \<or> map_get (Labels (wfMeta (load h q))) workflowValidLabel = Some falseString"
  shows "rel_option (same_process h q) (heap_process env (h, q) st) (process env (load h q) st)"
proof -
  let ?w = "load h q"
  have st_None: "hStatuses q = None \<longleftrightarrow> Statuses (Status ?w) = None"
    using deref_statuses_None [OF assms(1) only_statuses_refl] by simp
  let ?valid = "isWorkflowValid env ?w"
  obtain a m where a: "hLabels q = Some a" "fmlookup (labelMaps h) a = Some m"
  proof (cases "deref (labelMaps h) (hLabels q)")
    case None
    with validate(1) show ?thesis by simp
  next
    case (Some m)
    with that show ?thesis by (auto simp: deref_def split: option.splits)
  qed
  obtain h1 where h1: "put_label (hLabels q) workflowValidLabel (FormatBool ?valid) h = Some h1"
    using a by (simp add: put_label_def)
  note p = put_label_load [OF h1 assms(1)]
  define l where "l = Labels (wfMeta (load h1 q))"
  have p': "live h1 q" "map_put (Labels (wfMeta ?w)) workflowValidLabel (FormatBool ?valid) = Some l"
    "load h1 q = set_meta_labels l ?w" "l \<noteq> None"
    using p a by (auto simp: l_def deref_def dest!: sym [of "Some _"])
  have heap: "heap_process env (h, q) st =
      (if \<not> ?valid then Some (map_get (Labels (wfMeta ?w)) workflowValidLabel = None, (h1, q), st)
       else map_option (\<lambda>(b, hp', st'). (True, hp', st')) (heap_processSteps env (h1, q) st))"
    using validate h1 by (simp add: heap_process_def Let_def del: not_None_eq)
  have code: "process env ?w st =
      (if \<not> ?valid then Some (map_get (Labels (wfMeta ?w)) workflowValidLabel = None, load h1 q, st)
       else map_option (\<lambda>(b, w', st'). (True, w', st')) (processSteps env (load h1 q) st))"
    using validate p'(2,3) by (simp add: process_def Let_def del: not_None_eq)
  have "load h1 q = cached_after ?w (load h1 q)"
  proof -
    have "JobsSelector (Spec (load h1 q)) = JobsSelector (Spec ?w)" "Statuses (Status (load h1 q)) = Statuses (Status ?w)"
      by (simp_all only: p'(3) set_fields)
    with cached_after_pass [OF validate(1), of "load h1 q"] p'(4)
    have "cached_after ?w (load h1 q) = set_statuses (Statuses (Status ?w)) (load h1 q)"
      by (simp add: l_def [symmetric] p'(3) del: load_fields)
    with \<open>Statuses (Status (load h1 q)) = Statuses (Status ?w)\<close> show ?thesis
      using set_same(2) [of "load h1 q"] by simp
  qed
  moreover have "rel_option (same_process h q) (map_option (\<lambda>(b, hp', st'). (True, hp', st')) (heap_processSteps env (h1, q) st))
     (map_option (\<lambda>(b, w', st'). (True, w', st')) (processSteps env (load h1 q) st))"
    using processSteps_sim [OF p'(1), of env st] processSteps_cached [OF p'(1,3,4) st_None validate(1)]
    by (fastforce simp: rel_option_iff same_process_def same_pass_def split: option.splits prod.splits)
  ultimately show ?thesis unfolding heap code by (simp add: same_process_def)
qed

text \<open>
  C19. The model on values is right about the maps the pass shares with the cache: started on a copy
  of a cached struct, \<^verbatim>\<open>process\<close> on the heap panics, reports, writes and acts exactly like \<open>process\<close>
  on the workflow the struct stands for, and leaves in the cache exactly \<open>cached_after\<close> - the new
  labels and statuses, written in place, but none of the conditions.
\<close>

theorem process_on_heap:
  assumes "live h q"
  shows "rel_option (same_process h q) (heap_process env (h, q) st) (process env (load h q) st)"
proof (cases "map_get (Labels (wfMeta (load h q))) WorkflowUIDLabel = None")
  case True
  from SetDefaults_sim [OF assms this, of "teNow env"] True show ?thesis
    by (auto simp: heap_process_def process_def option.rel_map same_process_def elim!: option.rel_mono_strong)
next
  case False
  with process_validate_sim [OF assms] process_steps_sim [OF assms] show ?thesis by blast
qed

section \<open>Example\<close>

text \<open>A workflow that was posted with a label of its own: its label map is at address 0.\<close>

definition posted_heap :: heap where
  "posted_heap =
     \<lparr>labelMaps = fmupd 0 (fmupd ''app'' ''x'' fmempty) fmempty, statusMaps = fmempty, selectors = fmempty, nextAddr = 1\<rparr>"

definition posted_struct :: hworkflow where
  "posted_struct = \<lparr>hValue = two_workflow fmempty, hLabels = Some 0, hStatuses = None, hSelector = None\<rparr>"

lemma process_on_heap_witness:
  "\<exists>b h' p' st'. heap_process (sample_env no_jobs) (posted_heap, posted_struct) sample_tstate = Some (b, (h', p'), st')
     \<and> load h' posted_struct = cached_after (load posted_heap posted_struct) (load h' p')
     \<and> map_get (Labels (wfMeta (load h' posted_struct))) WorkflowUIDLabel = Some ''123''"
proof -
  have l: "live posted_heap posted_struct" by (simp add: live_def posted_heap_def posted_struct_def)
  have "map_option (\<lambda>(b, (h', p'), st'). map_get (Labels (wfMeta (load h' posted_struct))) WorkflowUIDLabel)
      (heap_process (sample_env no_jobs) (posted_heap, posted_struct) sample_tstate) = Some (Some ''123'')"
    by code_simp
  then obtain b h' p' st' where p: "heap_process (sample_env no_jobs) (posted_heap, posted_struct) sample_tstate = Some (b, (h', p'), st')"
    "map_get (Labels (wfMeta (load h' posted_struct))) WorkflowUIDLabel = Some ''123''" by (auto simp del: load_fields)
  with process_on_heap [OF l, of "sample_env no_jobs" sample_tstate] show ?thesis
    by (auto simp: option_rel_Some1 same_process_def simp del: load_fields)
qed

end
