(* ===== verification/DeltaFifo.thy ===== *)
theory DeltaFifo
  imports Manager
begin

text \<open>
  \<^verbatim>\<open>pkg/client/cache/delta_fifo.go\<close> of the vendored Kubernetes: the queue between a reflector and
  the loop of an informer, which both informers of the manager run on.  For every key it holds the
  changes not yet processed, oldest first, and it hands out all changes of one key at a time, keys in
  the order in which they first changed.  The compressor is nil, as \<^verbatim>\<open>NewInformer\<close> leaves it.
  Each method runs under the queue's lock; \<open>known\<close> is the cache it was made with and \<open>ks\<close> the order
  of that cache's \<^verbatim>\<open>ListKeys\<close>.  \<open>meta\<close> reads the metadata of an object at the time of the call.

  The abstraction is \<open>view\<close>: what the cache will hold when all waiting changes are processed.
  \<open>event_sink\<close> is what a reflector relies on.
\<close>

section \<open>The queue\<close>

type_synonym 'o delta = "DeltaType \<times> 'o event_obj"

record 'o delta_fifo =
  fItems :: "'o delta list gomap"
  fQueue :: "string list"
  populated :: bool
  initialPopulationCount :: nat

definition NewDeltaFIFO :: "'o delta_fifo" where
  "NewDeltaFIFO = \<lparr>fItems = fmempty, fQueue = [], populated = False, initialPopulationCount = 0\<rparr>"

definition HasSynced :: "'o delta_fifo \<Rightarrow> bool" where
  "HasSynced f \<longleftrightarrow> populated f \<and> initialPopulationCount f = 0"

definition KeyOf :: "('o \<Rightarrow> ObjectMeta) \<Rightarrow> 'o event_obj \<Rightarrow> go_error + string" where
  "KeyOf meta obj = KeyFunc meta obj"

definition KeyError :: go_error where
  "KeyError = Errorf ''couldn't create key for object %+v: %v''"

fun isDeletionDup :: "'o delta \<Rightarrow> 'o delta \<Rightarrow> 'o delta option" where
  "isDeletionDup (ta, oa) (tb, ob) =
     (if tb \<noteq> Deleted \<or> ta \<noteq> Deleted then None
      else (case ob of
              DeletedFinalStateUnknown _ _ \<Rightarrow> Some (ta, oa)
            | _ \<Rightarrow> Some (tb, ob)))"

definition dedupDeltas :: "'o delta list \<Rightarrow> 'o delta list" where
  "dedupDeltas deltas =
     (let n = length deltas
      in if n < 2 then deltas
         else (case isDeletionDup (deltas ! (n - 1)) (deltas ! (n - 2)) of
                 None \<Rightarrow> deltas
               | Some out \<Rightarrow> take (n - 2) deltas @ [out]))"

definition queueActionLocked ::
  "('o \<Rightarrow> ObjectMeta) \<Rightarrow> DeltaType \<Rightarrow> 'o event_obj \<Rightarrow> 'o delta_fifo \<Rightarrow> go_error option \<times> 'o delta_fifo" where
  "queueActionLocked meta t obj f =
     (case KeyOf meta obj of
        Inl err \<Rightarrow> (Some KeyError, f)
      | Inr key \<Rightarrow>
          (let old = fmlookup (fItems f) key;
               newDeltas = dedupDeltas ((case old of None \<Rightarrow> [] | Some ds \<Rightarrow> ds) @ [(t, obj)])
           in (None,
               if newDeltas \<noteq> [] then
                 (let f1 = (if old = None then f\<lparr>fQueue := fQueue f @ [key]\<rparr> else f)
                  in f1\<lparr>fItems := fmupd key newDeltas (fItems f1)\<rparr>)
               else if old \<noteq> None then f\<lparr>fItems := fmdrop key (fItems f)\<rparr> else f)))"

definition Fifo_Add :: "('o \<Rightarrow> ObjectMeta) \<Rightarrow> 'o \<Rightarrow> 'o delta_fifo \<Rightarrow> go_error option \<times> 'o delta_fifo" where
  "Fifo_Add meta obj f = queueActionLocked meta Added (Object obj) (f\<lparr>populated := True\<rparr>)"

definition Fifo_Update :: "('o \<Rightarrow> ObjectMeta) \<Rightarrow> 'o \<Rightarrow> 'o delta_fifo \<Rightarrow> go_error option \<times> 'o delta_fifo" where
  "Fifo_Update meta obj f = queueActionLocked meta Updated (Object obj) (f\<lparr>populated := True\<rparr>)"

definition Fifo_Delete ::
  "('o \<Rightarrow> ObjectMeta) \<Rightarrow> 'o store \<Rightarrow> 'o event_obj \<Rightarrow> 'o delta_fifo \<Rightarrow> go_error option \<times> 'o delta_fifo" where
  "Fifo_Delete meta known obj f =
     (case KeyOf meta obj of
        Inl err \<Rightarrow> (Some KeyError, f)
      | Inr key \<Rightarrow>
          (let f1 = f\<lparr>populated := True\<rparr>
           in if Store_GetByKey known key = None then (None, f1)
              else queueActionLocked meta Deleted obj f1))"

text \<open>
  \<^verbatim>\<open>Replace\<close>: first the new list, then a deletion for every known key that is not on it.
\<close>

fun replace_new ::
  "('o \<Rightarrow> ObjectMeta) \<Rightarrow> 'o list \<Rightarrow> string list \<Rightarrow> 'o delta_fifo \<Rightarrow>
   go_error option \<times> string list \<times> 'o delta_fifo" where
  "replace_new meta [] keys f = (None, keys, f)"
| "replace_new meta (item # items) keys f =
     (case KeyOf meta (Object item) of
        Inl err \<Rightarrow> (Some KeyError, keys, f)
      | Inr key \<Rightarrow>
          (case queueActionLocked meta Sync (Object item) f of
             (Some err, f1) \<Rightarrow> (Some (Errorf ''couldn't enqueue object: %v''), List.insert key keys, f1)
           | (None, f1) \<Rightarrow> replace_new meta items (List.insert key keys) f1))"

fun replace_gone ::
  "('o \<Rightarrow> ObjectMeta) \<Rightarrow> 'o store \<Rightarrow> string list \<Rightarrow> string list \<Rightarrow> 'o delta_fifo \<Rightarrow>
   go_error option \<times> 'o delta_fifo" where
  "replace_gone meta known keys [] f = (None, f)"
| "replace_gone meta known keys (k # ks) f =
     (if k \<in> set keys then replace_gone meta known keys ks f
      else
        (case queueActionLocked meta Deleted (DeletedFinalStateUnknown k (Store_GetByKey known k)) f of
           (Some err, f1) \<Rightarrow> (Some err, f1)
         | (None, f1) \<Rightarrow> replace_gone meta known keys ks f1))"

definition Fifo_Replace ::
  "('o \<Rightarrow> ObjectMeta) \<Rightarrow> 'o store \<Rightarrow> string list \<Rightarrow> 'o list \<Rightarrow> 'o delta_fifo \<Rightarrow>
   go_error option \<times> 'o delta_fifo" where
  "Fifo_Replace meta known ks items f =
     (let f0 = (if populated f then f
                else f\<lparr>populated := True, initialPopulationCount := length items\<rparr>)
      in case replace_new meta items [] f0 of
           (Some err, keys, f1) \<Rightarrow> (Some err, f1)
         | (None, keys, f1) \<Rightarrow> replace_gone meta known keys ks f1)"

fun Fifo_Resync ::
  "('o \<Rightarrow> ObjectMeta) \<Rightarrow> 'o store \<Rightarrow> string list \<Rightarrow> 'o delta_fifo \<Rightarrow> go_error option \<times> 'o delta_fifo" where
  "Fifo_Resync meta known [] f = (None, f)"
| "Fifo_Resync meta known (k # ks) f =
     (case Store_GetByKey known k of
        None \<Rightarrow> Fifo_Resync meta known ks f
      | Some obj \<Rightarrow>
          (case queueActionLocked meta Sync (Object obj) f of
             (Some err, f1) \<Rightarrow> (Some (Errorf ''couldn't queue object: %v''), f1)
           | (None, f1) \<Rightarrow> Fifo_Resync meta known ks f1))"

text \<open>\<^verbatim>\<open>Pop\<close>; no deltas is waiting on the condition variable.\<close>

fun pop_loop :: "string list \<Rightarrow> 'o delta_fifo \<Rightarrow> 'o delta list option \<times> 'o delta_fifo" where
  "pop_loop [] f = (None, f\<lparr>fQueue := []\<rparr>)"
| "pop_loop (key # q) f =
     (let f1 = f\<lparr>fQueue := q, initialPopulationCount := initialPopulationCount f - 1\<rparr>
      in case fmlookup (fItems f) key of
           None \<Rightarrow> pop_loop q f1
         | Some item \<Rightarrow> (Some item, f1\<lparr>fItems := fmdrop key (fItems f1)\<rparr>))"

definition Fifo_Pop :: "'o delta_fifo \<Rightarrow> 'o delta list option \<times> 'o delta_fifo" where
  "Fifo_Pop f = pop_loop (fQueue f) f"

section \<open>Processing\<close>

text \<open>What \<^verbatim>\<open>Process\<close> of \<^verbatim>\<open>NewInformer\<close> does to the cache, and whom it tells.\<close>

datatype 'o notification = OnAdd 'o | OnUpdate 'o 'o | OnDelete "'o event_obj"

fun apply_delta :: "('o \<Rightarrow> ObjectMeta) \<Rightarrow> 'o delta \<Rightarrow> 'o store \<Rightarrow> 'o store \<times> 'o notification list" where
  "apply_delta meta (Deleted, obj) s = (store_drop meta obj s, [OnDelete obj])"
| "apply_delta meta (t, Object x) s =
     (case Store_Get meta s x of
        Some old \<Rightarrow> (Store_Update meta x s, [OnUpdate old x])
      | None \<Rightarrow> (Store_Add meta x s, [OnAdd x]))"
| "apply_delta meta (t, obj) s = (s, [])"

fun process_deltas :: "('o \<Rightarrow> ObjectMeta) \<Rightarrow> 'o delta list \<Rightarrow> 'o store \<Rightarrow> 'o store \<times> 'o notification list" where
  "process_deltas meta [] s = (s, [])"
| "process_deltas meta (d # ds) s =
     (let (s1, ns) = apply_delta meta d s; (s2, ns') = process_deltas meta ds s1 in (s2, ns @ ns'))"

text \<open>\<open>n\<close> rounds of \<^verbatim>\<open>processLoop\<close>, as long as there is something to pop.\<close>

fun process_loop ::
  "('o \<Rightarrow> ObjectMeta) \<Rightarrow> nat \<Rightarrow> 'o delta_fifo \<times> 'o store \<Rightarrow> 'o delta_fifo \<times> 'o store \<times> 'o notification list" where
  "process_loop meta 0 (f, s) = (f, s, [])"
| "process_loop meta (Suc n) (f, s) =
     (case Fifo_Pop f of
        (None, f1) \<Rightarrow> (f1, s, [])
      | (Some ds, f1) \<Rightarrow>
          (let (s1, ns) = process_deltas meta ds s; (f2, s2, ns') = process_loop meta n (f1, s1)
           in (f2, s2, ns @ ns')))"

text \<open>The informer of the workflows is this informer, its handlers what they do to the manager.\<close>

fun workflow_handler :: "Workflow notification \<Rightarrow> ('c, 'n) mstate \<Rightarrow> ('c, 'n) mstate" where
  "workflow_handler (OnAdd w) m = onAddWorkflow w m"
| "workflow_handler (OnUpdate old w) m = onUpdateWorkflow old w m"
| "workflow_handler (OnDelete obj) m = onDeleteWorkflow obj m"

lemma process_workflow_delta_informer:
  "process_workflow_delta t obj m =
     (case apply_delta wfMeta (t, obj) (mWorkflows m) of
        (s, ns) \<Rightarrow> fold workflow_handler ns (m\<lparr>mWorkflows := s\<rparr>))"
  by (cases t; cases obj) (auto split: option.split)

section \<open>Abstraction\<close>

definition delta_ok :: "('o \<Rightarrow> ObjectMeta) \<Rightarrow> string \<Rightarrow> 'o delta \<Rightarrow> bool" where
  "delta_ok meta k d \<longleftrightarrow>
     KeyOf meta (snd d) = Inr k \<and> (fst d = Deleted \<or> (case snd d of Object _ \<Rightarrow> True | _ \<Rightarrow> False))"

definition fifo_ok :: "('o \<Rightarrow> ObjectMeta) \<Rightarrow> 'o delta_fifo \<Rightarrow> bool" where
  "fifo_ok meta f \<longleftrightarrow>
     set (fQueue f) = fmdom' (fItems f) \<and> distinct (fQueue f)
     \<and> fmpred (\<lambda>k ds. ds \<noteq> [] \<and> list_all (delta_ok meta k) ds) (fItems f)"

fun view :: "('o \<Rightarrow> ObjectMeta) \<Rightarrow> 'o delta_fifo \<times> 'o store \<Rightarrow> string \<Rightarrow> 'o option" where
  "view meta (f, s) k =
     (case fmlookup (fItems f) k of
        None \<Rightarrow> fmlookup s k
      | Some ds \<Rightarrow> fmlookup (fst (process_deltas meta ds s)) k)"

declare view.simps [simp del]

text \<open>Of the changes of one key only the last one counts.\<close>

definition outcome :: "'o delta \<Rightarrow> 'o option" where
  "outcome d = (if fst d = Deleted then None else (case snd d of Object x \<Rightarrow> Some x | _ \<Rightarrow> None))"

lemma delta_ok_Object: "delta_ok meta k (t, Object x) \<longleftrightarrow> MetaNamespaceKeyFunc (meta x) = k"
  by (auto simp: delta_ok_def KeyOf_def)

lemma apply_delta_lookup:
  "delta_ok meta k d \<Longrightarrow>
     fmlookup (fst (apply_delta meta d s)) k' = (if k' = k then outcome d else fmlookup s k')"
  by (cases "(meta, d, s)" rule: apply_delta.cases)
    (auto simp: delta_ok_def outcome_def KeyOf_def store_drop_def Store_Update_def Store_Add_def split: option.split)

lemma process_deltas_lookup:
  "list_all (delta_ok meta k) ds \<Longrightarrow>
     fmlookup (fst (process_deltas meta ds s)) k' =
       (if k' = k \<and> ds \<noteq> [] then outcome (last ds) else fmlookup s k')"
proof (induction ds arbitrary: s)
  case (Cons d ds)
  have "fst (process_deltas meta (d # ds) s) = fst (process_deltas meta ds (fst (apply_delta meta d s)))"
    by (simp split: prod.split)
  with Cons show ?case by (simp add: apply_delta_lookup [of meta k d])
qed simp

lemma fifo_okD:
  assumes "fifo_ok meta f" and "fmlookup (fItems f) k = Some ds"
  shows "ds \<noteq> []" "list_all (delta_ok meta k) ds" "k \<in> set (fQueue f)"
  using assms by (auto simp: fifo_ok_def fmpred_iff fmlookup_dom'_iff)

lemma view_ok:
  "fifo_ok meta f \<Longrightarrow>
     view meta (f, s) k = (case fmlookup (fItems f) k of None \<Rightarrow> fmlookup s k | Some ds \<Rightarrow> outcome (last ds))"
  using fifo_okD [of meta f k] by (auto simp: view.simps process_deltas_lookup split: option.split)

lemma view_idle: "fQueue f = [] \<Longrightarrow> fifo_ok meta f \<Longrightarrow> view meta (f, s) k = fmlookup s k"
  by (auto simp: view_ok fifo_ok_def dest: fmdom'I split: option.split)

section \<open>One action\<close>

lemma dedupDeltas_snoc:
  "dedupDeltas (ds @ [d]) =
     (if ds = [] then [d]
      else (case isDeletionDup d (last ds) of None \<Rightarrow> ds @ [d] | Some out \<Rightarrow> butlast ds @ [out]))"
  by (auto simp: dedupDeltas_def Let_def nth_append last_conv_nth butlast_conv_take split: option.split)

lemma isDeletionDup_Some: "isDeletionDup a b = Some d \<Longrightarrow> fst a = Deleted \<and> fst d = Deleted \<and> (d = a \<or> d = b)"
  by (cases a; cases b) (auto split: if_splits event_obj.splits)

lemma dedupDeltas_props:
  "dedupDeltas (ds @ [d]) \<noteq> []"
  "list_all P ds \<Longrightarrow> P d \<Longrightarrow> list_all P (dedupDeltas (ds @ [d]))"
  "outcome (last (dedupDeltas (ds @ [d]))) = outcome d"
proof -
  show "dedupDeltas (ds @ [d]) \<noteq> []" by (simp add: dedupDeltas_snoc split: option.split)
  show "outcome (last (dedupDeltas (ds @ [d]))) = outcome d"
    using isDeletionDup_Some [of d "last ds"] by (auto simp: dedupDeltas_snoc outcome_def split: option.split)
  assume "list_all P ds" and "P d"
  then show "list_all P (dedupDeltas (ds @ [d]))"
    by (auto simp: dedupDeltas_snoc list_all_iff split: option.split dest!: isDeletionDup_Some in_set_butlastD)
qed

text \<open>What every method but \<^verbatim>\<open>Pop\<close> does to the queue: one change for one key.\<close>

lemma queueAction:
  assumes "KeyOf meta obj = Inr k"
  shows "fst (queueActionLocked meta t obj f) = None"
    and "fQueue (snd (queueActionLocked meta t obj f)) =
           (if fmlookup (fItems f) k = None then fQueue f @ [k] else fQueue f)"
    and "fmlookup (fItems (snd (queueActionLocked meta t obj f))) k' =
           (if k' = k then Some (dedupDeltas ((case fmlookup (fItems f) k of None \<Rightarrow> [] | Some ds \<Rightarrow> ds) @ [(t, obj)]))
            else fmlookup (fItems f) k')"
    and "populated (snd (queueActionLocked meta t obj f)) = populated f"
    and "initialPopulationCount (snd (queueActionLocked meta t obj f)) = initialPopulationCount f"
  using assms by (simp_all add: queueActionLocked_def Let_def dedupDeltas_props)

lemma queueAction_ok:
  assumes "fifo_ok meta f" and "delta_ok meta k (t, obj)"
  shows "fifo_ok meta (snd (queueActionLocked meta t obj f))"
proof -
  let ?f = "snd (queueActionLocked meta t obj f)"
  have k: "KeyOf meta obj = Inr k" using assms(2) by (simp add: delta_ok_def)
  note q = queueAction [OF k, of t f]
  have "k \<in> set (fQueue f) \<longleftrightarrow> fmlookup (fItems f) k \<noteq> None"
    using assms(1) by (auto simp: fifo_ok_def fmlookup_dom'_iff)
  with assms(1) have "distinct (fQueue ?f)" by (simp add: q fifo_ok_def)
  moreover have "set (fQueue ?f) = fmdom' (fItems ?f)"
    using assms(1) by (auto simp: q fifo_ok_def fmlookup_dom'_iff split: if_splits)
  moreover have "fmpred (\<lambda>k ds. ds \<noteq> [] \<and> list_all (delta_ok meta k) ds) (fItems ?f)"
    using assms dedupDeltas_props(2) [of "delta_ok meta k" "[]" "(t, obj)"]
    by (auto simp: fmpred_iff q dedupDeltas_props dest: fifo_okD split: if_splits option.split
        intro!: dedupDeltas_props(2))
  ultimately show ?thesis by (simp add: fifo_ok_def)
qed

lemma queueAction_view:
  assumes "fifo_ok meta f" and "delta_ok meta k (t, obj)"
  shows "view meta (snd (queueActionLocked meta t obj f), s) =
     (view meta (f, s))(k := outcome (t, obj))"
proof
  fix k'
  have k: "KeyOf meta obj = Inr k" using assms(2) by (simp add: delta_ok_def)
  show "view meta (snd (queueActionLocked meta t obj f), s) k' = ((view meta (f, s))(k := outcome (t, obj))) k'"
    by (simp add: view_ok [OF queueAction_ok [OF assms]] view_ok [OF assms(1)] queueAction [OF k] dedupDeltas_props)
qed

lemma queueAction_result:
  assumes "fifo_ok meta f" and "delta_ok meta k (t, obj)"
  obtains f1 where "queueActionLocked meta t obj f = (None, f1)" "fifo_ok meta f1"
    "\<And>s. view meta (f1, s) = (view meta (f, s))(k := outcome (t, obj))"
proof -
  have "KeyOf meta obj = Inr k" using assms(2) by (simp add: delta_ok_def)
  from queueAction(1) [OF this] obtain f1 where q: "queueActionLocked meta t obj f = (None, f1)"
    by (metis prod.collapse)
  from queueAction_ok [OF assms] queueAction_view [OF assms] show ?thesis
    by (intro that [OF q]) (simp_all add: q)
qed

section \<open>The methods\<close>

lemma key_ok: "delta_ok meta (MetaNamespaceKeyFunc (meta x)) (t, Object x)"
  by (simp add: delta_ok_Object)

lemma tombstone_ok: "delta_ok meta k (Deleted, DeletedFinalStateUnknown k obj)"
  by (simp add: delta_ok_def KeyOf_def)

lemma fifo_ok_update [simp]:
  "fifo_ok meta (f\<lparr>populated := b\<rparr>) = fifo_ok meta f" "fifo_ok meta (f\<lparr>initialPopulationCount := n\<rparr>) = fifo_ok meta f"
  by (simp_all add: fifo_ok_def)

lemma view_update [simp]:
  "view meta (f\<lparr>populated := b\<rparr>, s) = view meta (f, s)"
  "view meta (f\<lparr>initialPopulationCount := n\<rparr>, s) = view meta (f, s)"
  by (rule ext, simp add: view.simps)+

text \<open>The key of the last object of a list with that key wins.\<close>

fun newest :: "('o \<Rightarrow> ObjectMeta) \<Rightarrow> 'o list \<Rightarrow> string \<Rightarrow> 'o option" where
  "newest meta [] k = None"
| "newest meta (x # xs) k =
     (case newest meta xs k of
        Some y \<Rightarrow> Some y
      | None \<Rightarrow> if MetaNamespaceKeyFunc (meta x) = k then Some x else None)"

lemma newest_None: "newest meta xs k = None \<longleftrightarrow> k \<notin> (\<lambda>x. MetaNamespaceKeyFunc (meta x)) ` set xs"
  by (induction xs) (auto split: option.split)

lemma replace_new_spec:
  assumes "fifo_ok meta f" and "replace_new meta items keys f = (err, keys', f')"
  shows "err = None \<and> set keys' = set keys \<union> (\<lambda>x. MetaNamespaceKeyFunc (meta x)) ` set items \<and> fifo_ok meta f'
     \<and> view meta (f', s) k = (case newest meta items k of None \<Rightarrow> view meta (f, s) k | Some x \<Rightarrow> Some x)"
  using assms
proof (induction items arbitrary: keys f)
  case Nil
  then show ?case by simp
next
  case (Cons x xs)
  let ?k = "MetaNamespaceKeyFunc (meta x)"
  obtain f1 where q: "queueActionLocked meta Sync (Object x) f = (None, f1)" and ok: "fifo_ok meta f1"
    and v: "view meta (f1, s) = (view meta (f, s))(?k := outcome (Sync, Object x))"
    by (rule queueAction_result [OF Cons.prems(1) key_ok [of meta x Sync]]) blast
  have "replace_new meta xs (List.insert ?k keys) f1 = (err, keys', f')"
    using Cons.prems(2) by (simp add: KeyOf_def q)
  from Cons.IH [OF ok this] show ?case
    by (auto simp: v outcome_def split: option.split)
qed

lemma replace_gone_spec:
  assumes "fifo_ok meta f" and "replace_gone meta known keys ks f = (err, f')"
  shows "err = None \<and> fifo_ok meta f'
     \<and> view meta (f', s) k = (if k \<in> set ks \<and> k \<notin> set keys then None else view meta (f, s) k)"
  using assms
proof (induction ks arbitrary: f)
  case Nil
  then show ?case by simp
next
  case (Cons j ks)
  show ?case
  proof (cases "j \<in> set keys")
    case True
    with Cons.prems have "replace_gone meta known keys ks f = (err, f')" by simp
    from Cons.IH [OF Cons.prems(1) this] True show ?thesis by auto
  next
    case False
    obtain f1 where q: "queueActionLocked meta Deleted (DeletedFinalStateUnknown j (Store_GetByKey known j)) f = (None, f1)"
      and ok: "fifo_ok meta f1"
      and v: "view meta (f1, s) = (view meta (f, s))(j := outcome (Deleted, DeletedFinalStateUnknown j (Store_GetByKey known j)))"
      by (rule queueAction_result [OF Cons.prems(1) tombstone_ok]) blast
    have "replace_gone meta known keys ks f1 = (err, f')" using Cons.prems(2) False q by simp
    from Cons.IH [OF ok this] False show ?thesis by (auto simp: v outcome_def)
  qed
qed

lemma Fifo_Replace_spec:
  assumes "fifo_ok meta f" and "range_order s ks"
  shows "fst (Fifo_Replace meta s ks items f) = None" and "fifo_ok meta (snd (Fifo_Replace meta s ks items f))"
    and "view meta (snd (Fifo_Replace meta s ks items f), s') =
      (\<lambda>k. case newest meta items k of
             Some x \<Rightarrow> Some x
           | None \<Rightarrow> if fmlookup s k \<noteq> None then None else view meta (f, s') k)"
proof -
  define f0 where "f0 = (if populated f then f else f\<lparr>populated := True, initialPopulationCount := length items\<rparr>)"
  have ok0: "fifo_ok meta f0" and v0: "view meta (f0, s') = view meta (f, s')"
    using assms(1) by (auto simp: f0_def fifo_ok_def view.simps fun_eq_iff)
  obtain err keys f1 where n: "replace_new meta items [] f0 = (err, keys, f1)" by (metis prod_cases3)
  note new = replace_new_spec [OF ok0 n]
  obtain err2 f2 where g: "replace_gone meta s keys ks f1 = (err2, f2)" by fastforce
  have ok1: "fifo_ok meta f1" and e: "err = None" using new by simp_all
  note gone = replace_gone_spec [OF ok1 g]
  have r: "Fifo_Replace meta s ks items f = (err2, f2)"
    using n g e by (simp add: Fifo_Replace_def f0_def [symmetric])
  show "fst (Fifo_Replace meta s ks items f) = None" "fifo_ok meta (snd (Fifo_Replace meta s ks items f))"
    using gone r by simp_all
  show "view meta (snd (Fifo_Replace meta s ks items f), s') =
      (\<lambda>k. case newest meta items k of Some x \<Rightarrow> Some x
           | None \<Rightarrow> if fmlookup s k \<noteq> None then None else view meta (f, s') k)"
  proof
    fix k
    have "k \<in> set keys \<longleftrightarrow> newest meta items k \<noteq> None" using new by (auto simp: newest_None)
    moreover have "k \<in> set ks \<longleftrightarrow> fmlookup s k \<noteq> None" using range_order_mem [OF assms(2)] by auto
    moreover have "view meta (f1, s') k = (case newest meta items k of None \<Rightarrow> view meta (f, s') k | Some x \<Rightarrow> Some x)"
      using new v0 by (simp add: fun_eq_iff cong: option.case_cong)
    moreover have "view meta (f2, s') k = (if k \<in> set ks \<and> k \<notin> set keys then None else view meta (f1, s') k)"
      using gone by simp
    ultimately show "view meta (snd (Fifo_Replace meta s ks items f), s') k =
      (case newest meta items k of Some x \<Rightarrow> Some x
       | None \<Rightarrow> if fmlookup s k \<noteq> None then None else view meta (f, s') k)"
      by (auto simp: r split: option.split)
  qed
qed

lemma Fifo_Resync_spec:
  assumes "fifo_ok meta f" and "store_keyed meta s" and "Fifo_Resync meta s ks f = (err, f')"
  shows "err = None \<and> fifo_ok meta f'
     \<and> view meta (f', s') k =
         (if k \<in> set ks \<and> fmlookup s k \<noteq> None then fmlookup s k else view meta (f, s') k)"
  using assms(1,3)
proof (induction ks arbitrary: f)
  case Nil
  then show ?case by simp
next
  case (Cons j ks)
  show ?case
  proof (cases "fmlookup s j")
    case None
    with Cons.prems have "Fifo_Resync meta s ks f = (err, f')" by (simp add: Store_GetByKey_def)
    from Cons.IH [OF Cons.prems(1) this] None show ?thesis by auto
  next
    case (Some x)
    then have j: "MetaNamespaceKeyFunc (meta x) = j" using assms(2) by (simp add: store_keyed_def fmpred_iff)
    obtain f1 where q: "queueActionLocked meta Sync (Object x) f = (None, f1)" and ok: "fifo_ok meta f1"
      and v: "view meta (f1, s') = (view meta (f, s'))(MetaNamespaceKeyFunc (meta x) := outcome (Sync, Object x))"
      by (rule queueAction_result [OF Cons.prems(1) key_ok [of meta x Sync]]) blast
    have "Fifo_Resync meta s ks f1 = (err, f')" using Cons.prems(2) Some q by (simp add: Store_GetByKey_def)
    from Cons.IH [OF ok this] Some show ?thesis by (auto simp: v j outcome_def)
  qed
qed

lemma Fifo_Delete_spec:
  assumes "fifo_ok meta f" and "KeyOf meta obj = Inr k"
  shows "fifo_ok meta (snd (Fifo_Delete meta s obj f))"
    and "view meta (snd (Fifo_Delete meta s obj f), s') =
       (if fmlookup s k = None then view meta (f, s') else (view meta (f, s'))(k := None))"
proof -
  have d: "delta_ok meta k (Deleted, obj)" using assms(2) by (simp add: delta_ok_def)
  have ok: "fifo_ok meta (f\<lparr>populated := True\<rparr>)" using assms(1) by simp
  show "fifo_ok meta (snd (Fifo_Delete meta s obj f))"
    using assms(1) queueAction_ok [OF ok d] by (simp add: Fifo_Delete_def assms(2) Let_def Store_GetByKey_def)
  show "view meta (snd (Fifo_Delete meta s obj f), s') =
       (if fmlookup s k = None then view meta (f, s') else (view meta (f, s'))(k := None))"
    using queueAction_view [OF ok d, of s']
    by (simp add: Fifo_Delete_def assms(2) Let_def Store_GetByKey_def outcome_def)
qed

lemma Fifo_Add_spec:
  assumes "fifo_ok meta f"
  shows "fifo_ok meta (snd (Fifo_Add meta x f))" "fifo_ok meta (snd (Fifo_Update meta x f))"
    and "view meta (snd (Fifo_Add meta x f), s) = (view meta (f, s))(MetaNamespaceKeyFunc (meta x) := Some x)"
    and "view meta (snd (Fifo_Update meta x f), s) = (view meta (f, s))(MetaNamespaceKeyFunc (meta x) := Some x)"
proof -
  have ok: "fifo_ok meta (f\<lparr>populated := True\<rparr>)" using assms by simp
  show "fifo_ok meta (snd (Fifo_Add meta x f))" "fifo_ok meta (snd (Fifo_Update meta x f))"
    and "view meta (snd (Fifo_Add meta x f), s) = (view meta (f, s))(MetaNamespaceKeyFunc (meta x) := Some x)"
    and "view meta (snd (Fifo_Update meta x f), s) = (view meta (f, s))(MetaNamespaceKeyFunc (meta x) := Some x)"
    unfolding Fifo_Add_def Fifo_Update_def
    by (simp_all add: queueAction_ok [OF ok key_ok] queueAction_view [OF ok key_ok]) (simp_all add: outcome_def)
qed

lemma Fifo_Pop_spec:
  assumes "fifo_ok meta f" and "Fifo_Pop f = (r, f')"
  shows "fifo_ok meta f'"
    and "case r of
       None \<Rightarrow> fQueue f = [] \<and> f' = f
     | Some ds \<Rightarrow> \<exists>k q. fQueue f = k # q \<and> fQueue f' = q \<and> fmlookup (fItems f) k = Some ds
         \<and> fItems f' = fmdrop k (fItems f) \<and> populated f' = populated f
         \<and> initialPopulationCount f' = initialPopulationCount f - 1"
proof -
  have head: "\<exists>ds. fmlookup (fItems f) k = Some ds" if "fQueue f = k # q" for k q
    using that assms(1) by (auto simp: fifo_ok_def fmlookup_dom'_iff)
  show 2: "case r of
       None \<Rightarrow> fQueue f = [] \<and> f' = f
     | Some ds \<Rightarrow> \<exists>k q. fQueue f = k # q \<and> fQueue f' = q \<and> fmlookup (fItems f) k = Some ds
         \<and> fItems f' = fmdrop k (fItems f) \<and> populated f' = populated f
         \<and> initialPopulationCount f' = initialPopulationCount f - 1"
  proof (cases "fQueue f")
    case Nil
    with assms(2) show ?thesis by (auto simp: Fifo_Pop_def)
  next
    case (Cons k q)
    with head obtain ds where "fmlookup (fItems f) k = Some ds" by blast
    with Cons assms(2) have "r = Some ds" and "f' = f\<lparr>fQueue := q,
        initialPopulationCount := initialPopulationCount f - 1, fItems := fmdrop k (fItems f)\<rparr>"
      by (auto simp: Fifo_Pop_def Let_def)
    with Cons \<open>fmlookup (fItems f) k = Some ds\<close> show ?thesis by simp
  qed
  show "fifo_ok meta f'"
  proof (cases r)
    case (Some ds)
    with 2 obtain k where f': "fQueue f = k # fQueue f'" "fItems f' = fmdrop k (fItems f)" by auto
    have "fmpred (\<lambda>k ds. ds \<noteq> [] \<and> list_all (delta_ok meta k) ds) (fItems f')"
      using assms(1) unfolding f'(2) fifo_ok_def by (blast intro: fmpred_drop)
    with assms(1) f' show ?thesis by (auto simp: fifo_ok_def)
  qed (use 2 assms(1) in simp)
qed

lemma Fifo_Pop_view:
  assumes "fifo_ok meta f" and "Fifo_Pop f = (Some ds, f')"
  shows "view meta (f', fst (process_deltas meta ds s)) = view meta (f, s)"
proof -
  from Fifo_Pop_spec [OF assms] obtain k where k: "fmlookup (fItems f) k = Some ds" "fItems f' = fmdrop k (fItems f)"
    and ok: "fifo_ok meta f'" by auto
  note d = fifo_okD [OF assms(1) k(1)]
  show ?thesis
    by (rule ext) (use k d process_deltas_lookup [OF d(2), of s] in
      \<open>auto simp: view_ok [OF ok] view_ok [OF assms(1)] split: option.split\<close>)
qed

end
