(* ===== verification/Informer.thy ===== *)
theory Informer
  imports DeltaFifo
begin

text \<open>
  An informer as the manager runs two of them (\<^verbatim>\<open>pkg/controller/framework/controller.go\<close> and
  \<^verbatim>\<open>pkg/client/cache/reflector.go\<close> of the vendored Kubernetes): a reflector calls the methods of
  the delta queue, while another goroutine pops and processes.  The two interleave between calls,
  and between the changes of one popped batch; the state is what both share and what the loop
  holds.

  The theorems: what every call makes the cache become in the end, in every interleaving; that the
  loop gets there; and what it is worth when \<^verbatim>\<open>HasSynced\<close> says the first list has arrived.
\<close>

section \<open>What a reflector relies on\<close>

datatype 'o reflector_call =
    CallAdd 'o
  | CallUpdate 'o
  | CallDelete 'o
  | CallReplace "'o list"
  | CallResync

text \<open>
  The events of a watch as calls on a sink.  A deletion counts only if the sink already has the
  object; the other events always do.
\<close>

fun event_replay :: "('o \<Rightarrow> string) \<Rightarrow> (string \<Rightarrow> bool) \<Rightarrow> 'o reflector_call list \<Rightarrow> (string \<Rightarrow> 'o option) \<Rightarrow> string \<Rightarrow> 'o option" where
  "event_replay key has [] m = m"
| "event_replay key has (CallAdd x # cs) m = event_replay key has cs (m(key x := Some x))"
| "event_replay key has (CallUpdate x # cs) m = event_replay key has cs (m(key x := Some x))"
| "event_replay key has (CallDelete x # cs) m =
     event_replay key has cs (if has (key x) then m(key x := None) else m)"
| "event_replay key has (c # cs) m = event_replay key has cs m"

fun is_event :: "'o reflector_call \<Rightarrow> bool" where
  "is_event (CallReplace xs) = False"
| "is_event CallResync = False"
| "is_event c = True"

locale event_sink =
  fixes handle :: "'o reflector_call \<Rightarrow> 's \<Rightarrow> 's"
    and target :: "'s \<Rightarrow> string \<Rightarrow> 'o option"
    and has :: "'s \<Rightarrow> string \<Rightarrow> bool"
    and key :: "'o \<Rightarrow> string"
    and invar :: "'s \<Rightarrow> bool"
  assumes target_add: "invar s \<Longrightarrow> target (handle (CallAdd x) s) = (target s)(key x := Some x)"
    and target_update: "invar s \<Longrightarrow> target (handle (CallUpdate x) s) = (target s)(key x := Some x)"
    and target_delete: "invar s \<Longrightarrow>
      target (handle (CallDelete x) s) = (if has s (key x) then (target s)(key x := None) else target s)"
    and has_handle: "has (handle c s) = has s"
    and invar_event: "invar s \<Longrightarrow> is_event c \<Longrightarrow> invar (handle c s)"
begin

lemma handled_events:
  "invar s \<Longrightarrow> list_all is_event cs \<Longrightarrow>
     target (fold handle cs s) = event_replay key (has s) cs (target s)"
proof (induction cs arbitrary: s)
  case (Cons c cs)
  then have ok: "invar (handle c s)" by (simp add: invar_event)
  have "target (fold handle cs (handle c s)) = event_replay key (has s) cs (target (handle c s))"
    using Cons.IH [OF ok] Cons.prems by (simp add: has_handle)
  with Cons.prems show ?case
    by (cases c) (simp_all add: target_add target_update target_delete)
qed simp

end

section \<open>The informer\<close>

record 'o informer =
  infFifo :: "'o delta_fifo"
  infStore :: "'o store"
  infBatch :: "'o delta list"
  infLog :: "'o notification list"

definition NewInformer :: "'o informer" where
  "NewInformer = \<lparr>infFifo = NewDeltaFIFO, infStore = fmempty, infBatch = [], infLog = []\<rparr>"

text \<open>The calls of the reflector; \<open>ks\<close> is the order of the cache's keys where it is listed.\<close>

fun sink :: "('o \<Rightarrow> ObjectMeta) \<Rightarrow> string list \<Rightarrow> 'o reflector_call \<Rightarrow> 'o informer \<Rightarrow> go_error option \<times> 'o informer" where
  "sink meta ks (CallAdd x) st =
     (let (err, f) = Fifo_Add meta x (infFifo st) in (err, st\<lparr>infFifo := f\<rparr>))"
| "sink meta ks (CallUpdate x) st =
     (let (err, f) = Fifo_Update meta x (infFifo st) in (err, st\<lparr>infFifo := f\<rparr>))"
| "sink meta ks (CallDelete x) st =
     (let (err, f) = Fifo_Delete meta (infStore st) (Object x) (infFifo st) in (err, st\<lparr>infFifo := f\<rparr>))"
| "sink meta ks (CallReplace xs) st =
     (let (err, f) = Fifo_Replace meta (infStore st) ks xs (infFifo st) in (err, st\<lparr>infFifo := f\<rparr>))"
| "sink meta ks CallResync st =
     (let (err, f) = Fifo_Resync meta (infStore st) ks (infFifo st) in (err, st\<lparr>infFifo := f\<rparr>))"

datatype 'o informer_action = Call "'o reflector_call" | Internal

inductive informer_step ::
  "('o \<Rightarrow> ObjectMeta) \<Rightarrow> 'o informer_action \<Rightarrow> 'o informer \<Rightarrow> 'o informer \<Rightarrow> bool" for meta where
  reflector_calls: "range_order (infStore st) ks \<Longrightarrow> sink meta ks c st = (err, st') \<Longrightarrow>
     informer_step meta (Call c) st st'"
| loop_pops: "infBatch st = [] \<Longrightarrow> Fifo_Pop (infFifo st) = (Some ds, f) \<Longrightarrow>
     informer_step meta Internal st (st\<lparr>infFifo := f, infBatch := ds\<rparr>)"
| loop_processes: "infBatch st = d # ds \<Longrightarrow> apply_delta meta d (infStore st) = (s, ns) \<Longrightarrow>
     informer_step meta Internal st (st\<lparr>infStore := s, infBatch := ds, infLog := infLog st @ ns\<rparr>)"

inductive_cases internal_stepE: "informer_step meta Internal st st'"
inductive_cases call_stepE: "informer_step meta (Call c) st st'"

text \<open>Nothing is waiting and the loop is at \<^verbatim>\<open>Pop\<close>.\<close>

definition idle :: "'o informer \<Rightarrow> bool" where
  "idle st \<longleftrightarrow> fQueue (infFifo st) = [] \<and> infBatch st = []"

section \<open>What the cache will hold\<close>

definition settled :: "('o \<Rightarrow> ObjectMeta) \<Rightarrow> 'o informer \<Rightarrow> string \<Rightarrow> 'o option" where
  "settled meta st = view meta (infFifo st, fst (process_deltas meta (infBatch st) (infStore st)))"

definition informer_ok :: "('o \<Rightarrow> ObjectMeta) \<Rightarrow> 'o informer \<Rightarrow> bool" where
  "informer_ok meta st \<longleftrightarrow>
     fifo_ok meta (infFifo st) \<and> store_keyed meta (infStore st)
     \<and> (infBatch st = [] \<or> (case KeyOf meta (snd (hd (infBatch st))) of
                               Inl _ \<Rightarrow> False | Inr k \<Rightarrow> list_all (delta_ok meta k) (infBatch st)))"

fun call_effect :: "('o \<Rightarrow> ObjectMeta) \<Rightarrow> 'o store \<Rightarrow> 'o reflector_call \<Rightarrow> (string \<Rightarrow> 'o option) \<Rightarrow> string \<Rightarrow> 'o option" where
  "call_effect meta s (CallAdd x) m = m(MetaNamespaceKeyFunc (meta x) := Some x)"
| "call_effect meta s (CallUpdate x) m = m(MetaNamespaceKeyFunc (meta x) := Some x)"
| "call_effect meta s (CallDelete x) m =
     (if fmlookup s (MetaNamespaceKeyFunc (meta x)) = None then m else m(MetaNamespaceKeyFunc (meta x) := None))"
| "call_effect meta s (CallReplace xs) m =
     (\<lambda>k. case newest meta xs k of Some x \<Rightarrow> Some x | None \<Rightarrow> if fmlookup s k = None then m k else None)"
| "call_effect meta s CallResync m = (\<lambda>k. case fmlookup s k of Some x \<Rightarrow> Some x | None \<Rightarrow> m k)"

lemma informer_ok_batch:
  "informer_ok meta st \<Longrightarrow> \<exists>k. list_all (delta_ok meta k) (infBatch st)"
  by (cases "infBatch st") (auto simp: informer_ok_def split: sum.splits)

lemma informer_okI:
  "fifo_ok meta (infFifo st) \<Longrightarrow> store_keyed meta (infStore st) \<Longrightarrow> list_all (delta_ok meta k) (infBatch st) \<Longrightarrow>
     informer_ok meta st"
  by (cases "infBatch st") (auto simp: informer_ok_def delta_ok_def)

lemma informer_ok_New: "informer_ok meta NewInformer"
  by (simp add: informer_ok_def NewInformer_def NewDeltaFIFO_def fifo_ok_def store_keyed_def)

lemma sink_frame:
  "sink meta ks c st = (err, st') \<Longrightarrow>
     infStore st' = infStore st \<and> infBatch st' = infBatch st \<and> infLog st' = infLog st"
  by (cases c) (auto split: prod.splits)

lemma sink_ok:
  assumes "informer_ok meta st" and "range_order (infStore st) ks" and "sink meta ks c st = (err, st')"
  shows "fifo_ok meta (infFifo st')"
    and "view meta (infFifo st', s') = call_effect meta (infStore st) c (view meta (infFifo st, s'))"
proof -
  have ok: "fifo_ok meta (infFifo st)" and keyed: "store_keyed meta (infStore st)"
    using assms(1) by (simp_all add: informer_ok_def)
  have "fifo_ok meta (infFifo st') \<and>
      view meta (infFifo st', s') = call_effect meta (infStore st) c (view meta (infFifo st, s'))"
  proof (cases c)
    case (CallAdd x)
    with assms(3) Fifo_Add_spec(1,3) [OF ok, of x] show ?thesis by (auto split: prod.splits)
  next
    case (CallUpdate x)
    with assms(3) Fifo_Add_spec(2,4) [OF ok, of x] show ?thesis by (auto split: prod.splits)
  next
    case (CallDelete x)
    have "KeyOf meta (Object x) = Inr (MetaNamespaceKeyFunc (meta x))" by (simp add: KeyOf_def)
    from CallDelete assms(3) Fifo_Delete_spec [OF ok this, of "infStore st"] show ?thesis
      by (auto split: prod.splits)
  next
    case (CallReplace xs)
    with assms(3) Fifo_Replace_spec [OF ok assms(2), of xs] show ?thesis
      by (auto simp: fun_eq_iff split: prod.splits option.splits)
  next
    case CallResync
    obtain e f where r: "Fifo_Resync meta (infStore st) ks (infFifo st) = (e, f)" by fastforce
    note spec = Fifo_Resync_spec [OF ok keyed r]
    have "view meta (f, s') k = (case fmlookup (infStore st) k of Some x \<Rightarrow> Some x | None \<Rightarrow> view meta (infFifo st, s') k)" for k
      using spec range_order_mem [OF assms(2), of k] by (auto split: option.splits)
    moreover have "fifo_ok meta f" using spec by blast
    moreover have "st' = st\<lparr>infFifo := f\<rparr>" using CallResync assms(3) r by simp
    ultimately show ?thesis using CallResync by (simp add: fun_eq_iff)
  qed
  then show "fifo_ok meta (infFifo st')"
    "view meta (infFifo st', s') = call_effect meta (infStore st) c (view meta (infFifo st, s'))" by simp_all
qed

lemma apply_delta_keyed:
  "store_keyed meta s \<Longrightarrow> delta_ok meta k d \<Longrightarrow> store_keyed meta (fst (apply_delta meta d s))"
  unfolding store_keyed_def fmpred_iff
  by (auto simp: apply_delta_lookup [of meta k d] outcome_def delta_ok_def KeyOf_def
      split: if_splits event_obj.splits)

lemma process_deltas_Cons:
  "fst (process_deltas meta (d # ds) s) = fst (process_deltas meta ds (fst (apply_delta meta d s)))"
  by (simp split: prod.split)

lemma informer_step_ok:
  assumes "informer_step meta l st st'" and "informer_ok meta st"
  shows "informer_ok meta st'"
  using assms(1)
proof cases
  case (reflector_calls ks c err)
  from informer_ok_batch [OF assms(2)] obtain k where "list_all (delta_ok meta k) (infBatch st)" by blast
  with reflector_calls sink_ok(1) [OF assms(2)] sink_frame [of meta ks c st err st'] assms(2) show ?thesis
    by (intro informer_okI [where k = k]) (auto simp: informer_ok_def)
next
  case (loop_pops ds f)
  have ok: "fifo_ok meta (infFifo st)" using assms(2) by (simp add: informer_ok_def)
  from Fifo_Pop_spec [OF ok loop_pops(4)] obtain k where "fmlookup (fItems (infFifo st)) k = Some ds" "fifo_ok meta f" by auto
  with fifo_okD(2) [OF ok] show ?thesis
    unfolding loop_pops(2) using assms(2) by (intro informer_okI [where k = k]) (auto simp: informer_ok_def)
next
  case (loop_processes d ds s ns)
  from informer_ok_batch [OF assms(2)] obtain k where k: "list_all (delta_ok meta k) (infBatch st)" by blast
  with loop_processes have "delta_ok meta k d" by simp
  from apply_delta_keyed [OF _ this, of "infStore st"] k loop_processes assms(2) show ?thesis
    by (intro informer_okI [where k = k]) (auto simp: informer_ok_def)
qed

lemma informer_step_effect:
  assumes "informer_ok meta st" and "informer_step meta l st st'"
  shows "settled meta st' =
     (case l of Internal \<Rightarrow> settled meta st | Call c \<Rightarrow> call_effect meta (infStore st) c (settled meta st))"
  using assms(2)
proof cases
  case (reflector_calls ks c err)
  then show ?thesis
    using sink_ok(2) [OF assms(1)] sink_frame [of meta ks c st err st'] by (simp add: settled_def)
next
  case (loop_pops ds f)
  have "fifo_ok meta (infFifo st)" using assms(1) by (simp add: informer_ok_def)
  from Fifo_Pop_view [OF this loop_pops(4)] loop_pops show ?thesis by (simp add: settled_def)
next
  case (loop_processes d ds s ns)
  from loop_processes have "fst (apply_delta meta d (infStore st)) = s" by simp
  with loop_processes process_deltas_Cons [of meta d ds "infStore st"] show ?thesis
    by (simp add: settled_def)
qed


text \<open>A reflector may rely on the informer.\<close>

interpretation inf: event_sink "\<lambda>c st. snd (sink meta (sorted_keys (infStore st)) c st)" "settled meta"
  "\<lambda>st k. fmlookup (infStore st) k \<noteq> None" "\<lambda>x. MetaNamespaceKeyFunc (meta x)" "informer_ok meta" for meta
proof -
  have step: "informer_step meta (Call c) st (snd (sink meta (sorted_keys (infStore st)) c st))" for c st
    by (rule reflector_calls [OF range_order_sorted_keys]) (rule prod.collapse [symmetric])
  note eff = informer_step_effect [OF _ step] and ok = informer_step_ok [OF step]
  have frame: "infStore (snd (sink meta ks c st)) = infStore st" for ks c st
    using sink_frame [OF prod.collapse [symmetric]] by blast
  show "event_sink (\<lambda>c st. snd (sink meta (sorted_keys (infStore st)) c st)) (settled meta)
      (\<lambda>st k. fmlookup (infStore st) k \<noteq> None) (\<lambda>x. MetaNamespaceKeyFunc (meta x)) (informer_ok meta)"
    by unfold_locales (simp_all add: eff frame ok del: sink.simps)
qed

section \<open>The loop gets there\<close>

definition delta_count :: "'o delta list gomap \<Rightarrow> string \<Rightarrow> nat" where
  "delta_count items k = Suc (case fmlookup items k of None \<Rightarrow> 0 | Some ds \<Rightarrow> length ds)"

definition work :: "'o informer \<Rightarrow> nat" where
  "work st = length (infBatch st) + sum_list (map (delta_count (fItems (infFifo st))) (fQueue (infFifo st)))"

inductive internal_run :: "('o \<Rightarrow> ObjectMeta) \<Rightarrow> nat \<Rightarrow> 'o informer \<Rightarrow> 'o informer \<Rightarrow> bool" for meta where
  run_none: "internal_run meta 0 st st"
| run_more: "internal_run meta n st st1 \<Longrightarrow> informer_step meta Internal st1 st2 \<Longrightarrow> internal_run meta (Suc n) st st2"

lemma internal_step_work:
  assumes "informer_ok meta st" and "informer_step meta Internal st st'"
  shows "work st' < work st"
  using assms(2)
proof (cases rule: informer_step.cases)
  case (loop_pops ds f)
  have ok: "fifo_ok meta (infFifo st)" using assms(1) by (simp add: informer_ok_def)
  from Fifo_Pop_spec [OF ok loop_pops(3)] obtain k q where q: "fQueue (infFifo st) = k # q" "fQueue f = q"
    "fmlookup (fItems (infFifo st)) k = Some ds" "fItems f = fmdrop k (fItems (infFifo st))" by auto
  have "k \<notin> set q" using ok q(1) by (simp add: fifo_ok_def)
  then have "map (delta_count (fItems f)) q = map (delta_count (fItems (infFifo st))) q"
    by (auto simp: q(4) delta_count_def)
  then have "sum_list (map (delta_count (fItems f)) q) = sum_list (map (delta_count (fItems (infFifo st))) q)"
    by (rule arg_cong)
  moreover have "delta_count (fItems (infFifo st)) k = Suc (length ds)" using q(3) by (simp add: delta_count_def)
  ultimately show ?thesis using loop_pops(1,2) q(1,2) by (simp add: work_def)
next
  case (loop_processes d ds s ns)
  then show ?thesis by (simp add: work_def)
qed

lemma internal_run_work:
  "internal_run meta n st st' \<Longrightarrow> informer_ok meta st \<Longrightarrow>
     informer_ok meta st' \<and> settled meta st' = settled meta st \<and> n + work st' \<le> work st"
proof (induction rule: internal_run.induct)
  case (run_more n st st1 st2)
  then show ?case
    using informer_step_ok [OF run_more(2)] informer_step_effect [OF _ run_more(2)]
      internal_step_work [OF _ run_more(2)] by fastforce
qed simp

lemma busy_steps:
  assumes "informer_ok meta st" and "\<not> idle st"
  shows "\<exists>st'. informer_step meta Internal st st'"
proof (cases "infBatch st")
  case (Cons d ds)
  obtain s ns where "apply_delta meta d (infStore st) = (s, ns)" by fastforce
  with Cons show ?thesis by (blast intro: loop_processes)
next
  case Nil
  have ok: "fifo_ok meta (infFifo st)" using assms(1) by (simp add: informer_ok_def)
  obtain r f where p: "Fifo_Pop (infFifo st) = (r, f)" by fastforce
  from Nil assms(2) have "fQueue (infFifo st) \<noteq> []" by (simp add: idle_def)
  with Fifo_Pop_spec(2) [OF ok p] obtain ds where "r = Some ds" by (cases r) auto
  with p Nil show ?thesis by (blast intro: loop_pops)
qed

text \<open>
  Left alone, the loop comes to rest: no run of it is longer than the changes waiting, it is never
  stuck before nothing is left, and then the cache holds exactly what the reflector's calls made of
  it.
\<close>

theorem informer_comes_to_rest:
  assumes "informer_ok meta st" and "internal_run meta n st st'"
  shows "n \<le> work st \<and> (idle st' \<longleftrightarrow> \<not> (\<exists>st''. informer_step meta Internal st' st''))
     \<and> (idle st' \<longrightarrow> fmlookup (infStore st') = settled meta st)"
proof -
  note run = internal_run_work [OF assms(2,1)]
  have "\<not> informer_step meta Internal st' st''" if "idle st'" for st''
    using that by (auto simp: idle_def Fifo_Pop_def elim!: internal_stepE)
  moreover have "fmlookup (infStore st') = settled meta st" if "idle st'"
    using that run view_idle [of "infFifo st'" meta "infStore st'"]
    by (auto simp: settled_def idle_def informer_ok_def fun_eq_iff)
  ultimately show ?thesis using run busy_steps by fastforce
qed

section \<open>What HasSynced is worth\<close>

text \<open>Steps of the informer, whatever is called.\<close>

inductive informer_steps :: "('o \<Rightarrow> ObjectMeta) \<Rightarrow> 'o informer \<Rightarrow> 'o informer \<Rightarrow> bool" for meta where
  steps_none: "informer_steps meta st st"
| steps_more: "informer_steps meta st st1 \<Longrightarrow> informer_step meta l st1 st2 \<Longrightarrow> informer_steps meta st st2"

text \<open>An object of the first list has been dealt with: it is in the cache, or it was and its
deletion has been handed to the handler.\<close>

definition dealt_with :: "('o \<Rightarrow> ObjectMeta) \<Rightarrow> 'o informer \<Rightarrow> string \<Rightarrow> bool" where
  "dealt_with meta st k \<longleftrightarrow>
     fmlookup (infStore st) k \<noteq> None \<or> (\<exists>obj. OnDelete obj \<in> set (infLog st) \<and> KeyOf meta obj = Inr k)"

definition batch_of :: "('o \<Rightarrow> ObjectMeta) \<Rightarrow> 'o informer \<Rightarrow> string \<Rightarrow> bool" where
  "batch_of meta st k \<longleftrightarrow> infBatch st \<noteq> [] \<and> list_all (delta_ok meta k) (infBatch st)"

text \<open>The keys of the first list that were not popped yet are at the front of the queue, and the
counter is not below their number.\<close>

definition sync_inv :: "('o \<Rightarrow> ObjectMeta) \<Rightarrow> string set \<Rightarrow> 'o informer \<Rightarrow> bool" where
  "sync_inv meta L st \<longleftrightarrow>
     populated (infFifo st) \<and>
     (\<exists>q1 q2. fQueue (infFifo st) = q1 @ q2 \<and> length q1 \<le> initialPopulationCount (infFifo st)
       \<and> (\<forall>k \<in> L. k \<in> set q1 \<or> batch_of meta st k \<or> dealt_with meta st k))"

lemma queueAction_grows:
  "\<exists>q. fQueue (snd (queueActionLocked meta t obj f)) = fQueue f @ q"
  "populated (snd (queueActionLocked meta t obj f)) = populated f"
  "initialPopulationCount (snd (queueActionLocked meta t obj f)) = initialPopulationCount f"
  by (auto simp: queueActionLocked_def Let_def split: sum.split)

definition grows :: "'o delta_fifo \<Rightarrow> 'o delta_fifo \<Rightarrow> bool" where
  "grows f f' \<longleftrightarrow> (\<exists>q. fQueue f' = fQueue f @ q) \<and> (populated f \<longrightarrow> populated f')
     \<and> initialPopulationCount f' = initialPopulationCount f"

lemma grows_refl [simp]: "grows f f" by (simp add: grows_def)

lemma grows_trans: "grows f f1 \<Longrightarrow> grows f1 f2 \<Longrightarrow> grows f f2"
  by (auto simp: grows_def)

lemma grows_queueAction: "queueActionLocked meta t obj f = (err, f') \<Longrightarrow> grows f f'"
  using queueAction_grows [of meta t obj f] by (simp add: grows_def)

lemma grows_replace_new: "replace_new meta items keys f = (err, keys', f') \<Longrightarrow> grows f f'"
proof (induction items arbitrary: keys f)
  case (Cons x xs)
  obtain e f1 where q: "queueActionLocked meta Sync (Object x) f = (e, f1)" by fastforce
  from grows_queueAction [OF q] Cons show ?case
    by (auto simp: q KeyOf_def split: option.splits intro: grows_trans)
qed simp

lemma grows_replace_gone: "replace_gone meta known keys ks f = (err, f') \<Longrightarrow> grows f f'"
proof (induction ks arbitrary: f)
  case (Cons k ks)
  obtain e f1 where q: "queueActionLocked meta Deleted (DeletedFinalStateUnknown k (Store_GetByKey known k)) f = (e, f1)"
    by fastforce
  from grows_queueAction [OF q] Cons show ?case
    by (auto simp: q split: option.splits if_splits intro: grows_trans)
qed simp

lemma grows_resync: "Fifo_Resync meta known ks f = (err, f') \<Longrightarrow> grows f f'"
proof (induction ks arbitrary: f)
  case (Cons k ks)
  show ?case
  proof (cases "Store_GetByKey known k")
    case None
    with Cons show ?thesis by simp
  next
    case (Some x)
    obtain e f1 where q: "queueActionLocked meta Sync (Object x) f = (e, f1)" by fastforce
    from grows_queueAction [OF q] Cons Some show ?thesis
      by (auto simp: q split: option.splits intro: grows_trans)
  qed
qed simp

lemma grows_sink:
  assumes "sink meta ks c st = (err, st')" and "populated (infFifo st)"
  shows "grows (infFifo st) (infFifo st')"
proof -
  have p: "(infFifo st)\<lparr>populated := True\<rparr> = infFifo st" using assms(2) by simp
  from assms show ?thesis
    by (cases c) (auto simp: Fifo_Add_def Fifo_Update_def Fifo_Delete_def Fifo_Replace_def p Let_def
        split: prod.splits sum.splits if_splits option.splits
        dest!: grows_queueAction grows_replace_new grows_replace_gone grows_resync intro: grows_trans)
qed

lemma apply_delta_deals:
  assumes "delta_ok meta k d" and "apply_delta meta d s = (s', ns)"
  shows "fmlookup s' k \<noteq> None \<or> (\<exists>obj. OnDelete obj \<in> set ns \<and> KeyOf meta obj = Inr k)"
    and "k' \<noteq> k \<Longrightarrow> fmlookup s' k' = fmlookup s k'"
proof -
  have s': "s' = fst (apply_delta meta d s)" using assms(2) by simp
  show "k' \<noteq> k \<Longrightarrow> fmlookup s' k' = fmlookup s k'"
    using apply_delta_lookup [OF assms(1)] by (simp add: s')
  show "fmlookup s' k \<noteq> None \<or> (\<exists>obj. OnDelete obj \<in> set ns \<and> KeyOf meta obj = Inr k)"
  proof (cases "fst d = Deleted")
    case True
    then have "ns = [OnDelete (snd d)]" using assms(2) by (cases d) auto
    with assms(1) show ?thesis by (auto simp: delta_ok_def)
  next
    case False
    with assms(1) have "outcome d \<noteq> None" by (auto simp: delta_ok_def outcome_def split: event_obj.splits)
    then show ?thesis using apply_delta_lookup [OF assms(1), of s k] by (simp add: s')
  qed
qed

lemma sync_inv_step:
  assumes "informer_step meta l st st'" and "informer_ok meta st" and "sync_inv meta L st"
  shows "sync_inv meta L st'"
proof -
  from assms(3) obtain q1 q2 where q: "fQueue (infFifo st) = q1 @ q2" "length q1 \<le> initialPopulationCount (infFifo st)"
    and L: "\<And>k. k \<in> L \<Longrightarrow> k \<in> set q1 \<or> batch_of meta st k \<or> dealt_with meta st k"
    and pop: "populated (infFifo st)" by (auto simp: sync_inv_def)
  from assms(1) show ?thesis
  proof cases
    case (reflector_calls ks c err)
    from grows_sink [OF reflector_calls(3) pop] obtain q3 where
      g: "fQueue (infFifo st') = fQueue (infFifo st) @ q3" "populated (infFifo st')"
        "initialPopulationCount (infFifo st') = initialPopulationCount (infFifo st)"
      using pop by (auto simp: grows_def)
    have "batch_of meta st' k = batch_of meta st k" "dealt_with meta st' k = dealt_with meta st k" for k
      using sink_frame [OF reflector_calls(3)] by (simp_all add: batch_of_def dealt_with_def)
    with L q g show ?thesis
      unfolding sync_inv_def by (intro conjI exI [of _ q1] exI [of _ "q2 @ q3"]) simp_all
  next
    case (loop_pops ds f)
    have ok: "fifo_ok meta (infFifo st)" using assms(2) by (simp add: informer_ok_def)
    from Fifo_Pop_spec [OF ok loop_pops(4)] obtain k qr where
      k: "fQueue (infFifo st) = k # qr" "fQueue f = qr" "fmlookup (fItems (infFifo st)) k = Some ds"
      and f: "populated f = populated (infFifo st)" "initialPopulationCount f = initialPopulationCount (infFifo st) - 1"
      by auto
    have b: "batch_of meta st' k" using fifo_okD [OF ok k(3)] loop_pops(2) by (simp add: batch_of_def)
    have d: "dealt_with meta st' j = dealt_with meta st j" "\<not> batch_of meta st j" for j
      using loop_pops(2,3) by (simp_all add: dealt_with_def batch_of_def)
    have "\<exists>p1 p2. qr = p1 @ p2 \<and> length p1 \<le> initialPopulationCount f
        \<and> (\<forall>j \<in> L. j \<in> set p1 \<or> batch_of meta st' j \<or> dealt_with meta st' j)"
    proof (cases q1)
      case Nil
      with L d show ?thesis by (intro exI [of _ "[]"] exI [of _ qr]) auto
    next
      case (Cons k' p1)
      with q(1) k(1) have "k' = k" "qr = p1 @ q2" by simp_all
      with Cons L d b q(2) f(2) show ?thesis by (intro exI [of _ p1] exI [of _ q2]) auto
    qed
    with pop f(1) k(2) loop_pops(2) show ?thesis by (simp add: sync_inv_def)
  next
    case (loop_processes d ds s ns)
    from informer_ok_batch [OF assms(2)] obtain k where b: "list_all (delta_ok meta k) (infBatch st)" by blast
    with loop_processes have dk: "delta_ok meta k d" by simp
    note deal = apply_delta_deals [OF dk loop_processes(4)]
    have "batch_of meta st' j \<or> dealt_with meta st' j" if j: "batch_of meta st j \<or> dealt_with meta st j" for j
    proof (cases "j = k")
      case True
      with deal(1) loop_processes(2) show ?thesis by (auto simp: dealt_with_def)
    next
      case False
      have "\<not> batch_of meta st j"
        using dk False loop_processes(3) by (auto simp: batch_of_def delta_ok_def)
      with j deal(2) [OF False] loop_processes(2) show ?thesis by (auto simp: dealt_with_def)
    qed
    with L q pop loop_processes(2) show ?thesis
      unfolding sync_inv_def by (intro conjI exI [of _ q1] exI [of _ q2]) auto
  qed
qed

lemma informer_steps_ok: "informer_steps meta st st' \<Longrightarrow> informer_ok meta st \<Longrightarrow> informer_ok meta st'"
  by (induction rule: informer_steps.induct) (auto intro: informer_step_ok)

lemma sync_inv_steps:
  "informer_steps meta st st' \<Longrightarrow> informer_ok meta st \<Longrightarrow> sync_inv meta L st \<Longrightarrow> sync_inv meta L st'"
proof (induction rule: informer_steps.induct)
  case (steps_more st st1 l st2)
  then show ?case using sync_inv_step [OF steps_more(2)] informer_steps_ok [OF steps_more(1)] by blast
qed

text \<open>The first list, on the informer as it was made.\<close>

definition first_list :: "('o \<Rightarrow> ObjectMeta) \<Rightarrow> 'o list \<Rightarrow> 'o informer" where
  "first_list meta items = snd (sink meta [] (CallReplace items) NewInformer)"

lemma first_list_step: "informer_step meta (Call (CallReplace items)) NewInformer (first_list meta items)"
  unfolding first_list_def
  by (rule reflector_calls [OF _ prod.collapse [symmetric]]) (simp add: NewInformer_def)

lemma replace_new_exact:
  assumes "distinct (map (\<lambda>x. MetaNamespaceKeyFunc (meta x)) items)"
    and "\<And>x. x \<in> set items \<Longrightarrow> fmlookup (fItems f) (MetaNamespaceKeyFunc (meta x)) = None"
    and "replace_new meta items keys f = (err, keys', f')"
  shows "err = None \<and> fQueue f' = fQueue f @ map (\<lambda>x. MetaNamespaceKeyFunc (meta x)) items
     \<and> populated f' = populated f \<and> initialPopulationCount f' = initialPopulationCount f
     \<and> fmlookup (fItems f') k = (case newest meta items k of
          None \<Rightarrow> fmlookup (fItems f) k | Some x \<Rightarrow> Some [(Sync, Object x)])"
  using assms
proof (induction items arbitrary: keys f)
  case (Cons x xs)
  let ?k = "MetaNamespaceKeyFunc (meta x)"
  have key: "KeyOf meta (Object x) = Inr ?k" by (simp add: KeyOf_def)
  obtain e f1 where q: "queueActionLocked meta Sync (Object x) f = (e, f1)" by fastforce
  have none: "fmlookup (fItems f) ?k = None" using Cons.prems(2) by simp
  note a = queueAction [OF key, of Sync f, unfolded q none, simplified]
  have r: "replace_new meta xs (List.insert ?k keys) f1 = (err, keys', f')"
    using Cons.prems(3) a(1) by (simp add: key q)
  have fresh: "fmlookup (fItems f1) (MetaNamespaceKeyFunc (meta y)) = None" if "y \<in> set xs" for y
    using that Cons.prems(1,2) by (auto simp: a(3) image_iff)
  have "newest meta xs ?k = None" using Cons.prems(1) by (auto simp: newest_None)
  moreover have "distinct (map (\<lambda>x. MetaNamespaceKeyFunc (meta x)) xs)" using Cons.prems(1) by simp
  note IH = Cons.IH [OF this fresh r]
  ultimately show ?case using IH
    by (auto simp: a dedupDeltas_def none split: option.splits)
qed simp

lemma first_list_frame:
  "infStore (first_list meta items) = fmempty" "infBatch (first_list meta items) = []" "infLog (first_list meta items) = []"
proof -
  have "sink meta [] (CallReplace items) NewInformer = (fst (sink meta [] (CallReplace items) NewInformer), first_list meta items)"
    by (simp add: first_list_def del: sink.simps)
  from sink_frame [OF this] show "infStore (first_list meta items) = fmempty"
    "infBatch (first_list meta items) = []" "infLog (first_list meta items) = []"
    by (simp_all add: NewInformer_def)
qed

lemma first_list_fifo:
  assumes "distinct (map (\<lambda>x. MetaNamespaceKeyFunc (meta x)) items)"
  shows "fQueue (infFifo (first_list meta items)) = map (\<lambda>x. MetaNamespaceKeyFunc (meta x)) items"
    and "initialPopulationCount (infFifo (first_list meta items)) = length items"
    and "populated (infFifo (first_list meta items))"
    and "fmlookup (fItems (infFifo (first_list meta items))) k =
           (case newest meta items k of None \<Rightarrow> None | Some x \<Rightarrow> Some [(Sync, Object x)])"
proof -
  let ?f0 = "NewDeltaFIFO\<lparr>populated := True, initialPopulationCount := length items\<rparr>"
  obtain err keys f where n: "replace_new meta items [] ?f0 = (err, keys, f)" by (metis prod_cases3)
  have none: "fmlookup (fItems ?f0) (MetaNamespaceKeyFunc (meta x)) = None" for x by (simp add: NewDeltaFIFO_def)
  note x = replace_new_exact [OF assms none n]
  have e: "err = None" using x by blast
  have "Fifo_Replace meta fmempty [] items NewDeltaFIFO = (None, f)"
    using n e by (simp add: Fifo_Replace_def NewDeltaFIFO_def)
  then have "infFifo (first_list meta items) = f"
    by (simp add: first_list_def NewInformer_def)
  with x show "fQueue (infFifo (first_list meta items)) = map (\<lambda>x. MetaNamespaceKeyFunc (meta x)) items"
    "initialPopulationCount (infFifo (first_list meta items)) = length items"
    "populated (infFifo (first_list meta items))"
    "fmlookup (fItems (infFifo (first_list meta items))) k =
           (case newest meta items k of None \<Rightarrow> None | Some x \<Rightarrow> Some [(Sync, Object x)])"
    by (simp_all add: NewDeltaFIFO_def cong: option.case_cong)
qed

lemma replace_new_length:
  "fifo_ok meta f \<Longrightarrow> replace_new meta items keys f = (err, keys', f') \<Longrightarrow>
     \<exists>q. fQueue f' = fQueue f @ q \<and> length q \<le> length items
       \<and> populated f' = populated f \<and> initialPopulationCount f' = initialPopulationCount f
       \<and> (\<lambda>x. MetaNamespaceKeyFunc (meta x)) ` set items \<subseteq> set (fQueue f')"
proof (induction items arbitrary: keys f)
  case (Cons x xs)
  let ?k = "MetaNamespaceKeyFunc (meta x)"
  have key: "KeyOf meta (Object x) = Inr ?k" by (simp add: KeyOf_def)
  obtain f1 where q: "queueActionLocked meta Sync (Object x) f = (None, f1)" and ok: "fifo_ok meta f1"
    by (rule queueAction_result [OF Cons.prems(1) key_ok [of meta x Sync]]) blast
  note a = queueAction [OF key, of Sync f, unfolded q, simplified]
  have "replace_new meta xs (List.insert ?k keys) f1 = (err, keys', f')"
    using Cons.prems(2) by (simp add: key q)
  from Cons.IH [OF ok this] obtain q2 where q2: "fQueue f' = fQueue f1 @ q2" "length q2 \<le> length xs"
    "populated f' = populated f1" "initialPopulationCount f' = initialPopulationCount f1"
    "(\<lambda>x. MetaNamespaceKeyFunc (meta x)) ` set xs \<subseteq> set (fQueue f')" by blast
  have "fmlookup (fItems f1) ?k \<noteq> None" by (simp add: a)
  then have "?k \<in> set (fQueue f1)" using fifo_okD(3) [OF ok] by blast
  with q2 a show ?case
    by (cases "fmlookup (fItems f) ?k") (force intro: exI [of _ "?k # q2"] exI [of _ q2])+
qed simp

lemma first_list_sync_inv:
  "sync_inv meta ((\<lambda>x. MetaNamespaceKeyFunc (meta x)) ` set items) (first_list meta items)"
proof -
  let ?f0 = "NewDeltaFIFO\<lparr>populated := True, initialPopulationCount := length items\<rparr>"
  obtain err keys f where n: "replace_new meta items [] ?f0 = (err, keys, f)" by (metis prod_cases3)
  have ok: "fifo_ok meta ?f0" by (simp add: NewDeltaFIFO_def fifo_ok_def)
  from replace_new_spec [OF ok n] have e: "err = None" by blast
  have "Fifo_Replace meta fmempty [] items NewDeltaFIFO = (None, f)"
    using n e by (simp add: Fifo_Replace_def NewDeltaFIFO_def)
  then have f: "infFifo (first_list meta items) = f"
    by (simp add: first_list_def NewInformer_def)
  from replace_new_length [OF ok n] show ?thesis
    unfolding sync_inv_def f
    by (intro conjI exI [of _ "fQueue f"] exI [of _ "[]"]) (auto simp: NewDeltaFIFO_def)
qed

lemma first_list_ok: "informer_ok meta (first_list meta items)"
  using informer_step_ok [OF first_list_step informer_ok_New] .

text \<open>
  C28. When the informer says it has synced and its loop is between two batches, every object of the
  first list is in the cache or its deletion has been reported since, whatever was called in between
  and however it interleaved; while a batch is being processed the objects of that batch are the only
  exception.
\<close>

theorem HasSynced_complete:
  assumes "informer_steps meta (first_list meta items) st" and "HasSynced (infFifo st)" and "x \<in> set items"
  shows "dealt_with meta st (MetaNamespaceKeyFunc (meta x)) \<or> batch_of meta st (MetaNamespaceKeyFunc (meta x))"
proof -
  from sync_inv_steps [OF assms(1) first_list_ok first_list_sync_inv] assms(2,3)
  show ?thesis by (auto simp: sync_inv_def HasSynced_def)
qed

text \<open>The first list with the objects \<open>todo\<close> still to be popped.\<close>

definition popping :: "('o \<Rightarrow> ObjectMeta) \<Rightarrow> 'o list \<Rightarrow> 'o informer \<Rightarrow> bool" where
  "popping meta todo st \<longleftrightarrow>
     infBatch st = [] \<and> populated (infFifo st)
     \<and> fQueue (infFifo st) = map (\<lambda>x. MetaNamespaceKeyFunc (meta x)) todo
     \<and> initialPopulationCount (infFifo st) = length todo
     \<and> (\<forall>k. fmlookup (fItems (infFifo st)) k = (case newest meta todo k of None \<Rightarrow> None | Some x \<Rightarrow> Some [(Sync, Object x)]))
     \<and> (\<forall>x \<in> set todo. fmlookup (infStore st) (MetaNamespaceKeyFunc (meta x)) = None)"

lemma popping_pops:
  assumes "popping meta (x # xs) st" and "distinct (map (\<lambda>x. MetaNamespaceKeyFunc (meta x)) (x # xs))"
  obtains f where "Fifo_Pop (infFifo st) = (Some [(Sync, Object x)], f)" "populated f"
    "fQueue f = map (\<lambda>x. MetaNamespaceKeyFunc (meta x)) xs" "initialPopulationCount f = length xs"
    "\<And>k. fmlookup (fItems f) k = (case newest meta xs k of None \<Rightarrow> None | Some x \<Rightarrow> Some [(Sync, Object x)])"
proof -
  let ?k = "MetaNamespaceKeyFunc (meta x)"
  have n: "newest meta xs ?k = None" using assms(2) by (auto simp: newest_None)
  then have it: "fmlookup (fItems (infFifo st)) ?k = Some [(Sync, Object x)]"
    using assms(1) by (simp add: popping_def)
  have q: "fQueue (infFifo st) = ?k # map (\<lambda>x. MetaNamespaceKeyFunc (meta x)) xs"
    and c: "initialPopulationCount (infFifo st) = Suc (length xs)" and p: "populated (infFifo st)"
    using assms(1) by (simp_all add: popping_def)
  let ?f = "(infFifo st)\<lparr>fQueue := map (\<lambda>x. MetaNamespaceKeyFunc (meta x)) xs, initialPopulationCount := length xs,
      fItems := fmdrop ?k (fItems (infFifo st))\<rparr>"
  have pop: "Fifo_Pop (infFifo st) = (Some [(Sync, Object x)], ?f)"
    by (simp add: Fifo_Pop_def q it c Let_def)
  have "fmlookup (fItems ?f) k = (case newest meta xs k of None \<Rightarrow> None | Some x \<Rightarrow> Some [(Sync, Object x)])" for k
    using assms(1) n by (auto simp: popping_def split: option.splits)
  from that [OF pop _ _ _ this] p show ?thesis by simp
qed

lemma popping_to_last:
  assumes "popping meta todo st" and "todo \<noteq> []" and "distinct (map (\<lambda>x. MetaNamespaceKeyFunc (meta x)) todo)"
  shows "\<exists>st'. informer_steps meta st st' \<and> HasSynced (infFifo st') \<and> fQueue (infFifo st') = []
     \<and> infBatch st' = [(Sync, Object (last todo))]
     \<and> fmlookup (infStore st') (MetaNamespaceKeyFunc (meta (last todo))) = None
     \<and> (\<forall>k y. fmlookup (infStore st') k = Some y \<longrightarrow> fmlookup (infStore st) k = Some y \<or> y \<in> set (butlast todo))"
  using assms
proof (induction todo arbitrary: st)
  case (Cons x xs)
  let ?k = "MetaNamespaceKeyFunc (meta x)"
  from popping_pops [OF Cons.prems(1,3)] obtain f where
    f: "Fifo_Pop (infFifo st) = (Some [(Sync, Object x)], f)" "populated f"
      "fQueue f = map (\<lambda>x. MetaNamespaceKeyFunc (meta x)) xs" "initialPopulationCount f = length xs"
    and it: "\<And>k. fmlookup (fItems f) k = (case newest meta xs k of None \<Rightarrow> None | Some x \<Rightarrow> Some [(Sync, Object x)])"
    by blast
  let ?st1 = "st\<lparr>infFifo := f, infBatch := [(Sync, Object x)]\<rparr>"
  have b: "infBatch st = []" and none: "fmlookup (infStore st) ?k = None"
    using Cons.prems(1) by (simp_all add: popping_def)
  have s1: "informer_steps meta st ?st1"
    by (rule steps_more [OF steps_none loop_pops [OF b f(1)]])
  show ?case
  proof (cases "xs = []")
    case True
    with s1 f none show ?thesis by (intro exI [of _ ?st1]) (simp add: HasSynced_def)
  next
    case False
    let ?st2 = "?st1\<lparr>infStore := Store_Add meta x (infStore st), infBatch := [], infLog := infLog st @ [OnAdd x]\<rparr>"
    have a: "apply_delta meta (Sync, Object x) (infStore st) = (Store_Add meta x (infStore st), [OnAdd x])"
      using none by (simp add: Store_Get_def Store_GetByKey_def)
    have "informer_step meta Internal ?st1 ?st2"
      using loop_processes [of ?st1 "(Sync, Object x)" "[]" meta] a by simp
    with s1 have s2: "informer_steps meta st ?st2" by (rule steps_more)
    have "popping meta xs ?st2"
      using Cons.prems(1,3) f it by (auto simp: popping_def Store_Add_def image_iff)
    from Cons.IH [OF this False] Cons.prems(3) obtain st' where
      st': "informer_steps meta ?st2 st'" "HasSynced (infFifo st')" "fQueue (infFifo st') = []"
        "infBatch st' = [(Sync, Object (last xs))]"
        "fmlookup (infStore st') (MetaNamespaceKeyFunc (meta (last xs))) = None"
      and old: "\<And>k y. fmlookup (infStore st') k = Some y \<Longrightarrow>
          fmlookup (infStore ?st2) k = Some y \<or> y \<in> set (butlast xs)" by auto
    have "informer_steps meta st st'"
      using st'(1) s2 by (induction rule: informer_steps.induct) (auto intro: steps_more)
    moreover have "fmlookup (infStore st) k = Some y \<or> y \<in> set (butlast (x # xs))"
      if "fmlookup (infStore st') k = Some y" for k y
      using old [OF that] False by (auto simp: Store_Add_def split: if_splits)
    ultimately show ?thesis using st'(2-5) False by (intro exI [of _ st']) simp
  qed
qed simp

lemma synced_too_early:
  assumes "items \<noteq> []" and "distinct (map (\<lambda>x. MetaNamespaceKeyFunc (meta x)) items)"
  shows "\<exists>st. informer_steps meta (first_list meta items) st \<and> HasSynced (infFifo st) \<and> fQueue (infFifo st) = []
     \<and> infBatch st = [(Sync, Object (last items))]
     \<and> fmlookup (infStore st) (MetaNamespaceKeyFunc (meta (last items))) = None
     \<and> (\<forall>k y. fmlookup (infStore st) k = Some y \<longrightarrow> y \<in> set (butlast items))"
proof -
  have "popping meta items (first_list meta items)"
    using assms by (simp add: popping_def first_list_fifo first_list_frame)
  from popping_to_last [OF this assms] show ?thesis by (simp add: first_list_frame)
qed

section \<open>Examples\<close>

text \<open>A job whose deletion arrives before its addition was processed: the queue drops the
deletion, and the cache will hold the job.\<close>

definition job_added :: "Job informer" where
  "job_added = snd (sink jobMeta [] (CallAdd app_job) NewInformer)"

lemma job_added_ok: "informer_ok jobMeta job_added"
proof -
  have "informer_step jobMeta (Call (CallAdd app_job)) NewInformer job_added"
    unfolding job_added_def
    by (rule reflector_calls [OF _ prod.collapse [symmetric]]) (simp add: NewInformer_def range_order_def)
  from informer_step_ok [OF this informer_ok_New] show ?thesis .
qed


text \<open>A first list with one job, popped and processed.\<close>

definition one_listed :: "Job informer" where
  "one_listed = first_list jobMeta [app_job]"

definition one_popped :: "Job informer" where
  "one_popped = one_listed\<lparr>infFifo := snd (Fifo_Pop (infFifo one_listed)), infBatch := [(Sync, Object app_job)]\<rparr>"

definition one_cached :: "Job informer" where
  "one_cached = one_popped\<lparr>infStore := fst (apply_delta jobMeta (Sync, Object app_job) (infStore one_popped)),
     infBatch := [], infLog := infLog one_popped @ snd (apply_delta jobMeta (Sync, Object app_job) (infStore one_popped))\<rparr>"

lemma one_steps:
  "informer_step jobMeta Internal one_listed one_popped" "informer_step jobMeta Internal one_popped one_cached"
proof -
  have "fst (Fifo_Pop (infFifo one_listed)) = Some [(Sync, Object app_job)]" by code_simp
  then have "Fifo_Pop (infFifo one_listed) = (Some [(Sync, Object app_job)], snd (Fifo_Pop (infFifo one_listed)))"
    by (metis prod.collapse)
  moreover have "infBatch one_listed = []" by (simp add: one_listed_def first_list_frame)
  ultimately show "informer_step jobMeta Internal one_listed one_popped"
    unfolding one_popped_def by (rule loop_pops [rotated])
  have "infBatch one_popped = [(Sync, Object app_job)]" by (simp add: one_popped_def)
  from loop_processes [OF this prod.collapse [symmetric], of jobMeta]
  show "informer_step jobMeta Internal one_popped one_cached" by (simp add: one_cached_def)
qed

lemma informer_comes_to_rest_witness:
  "work one_listed \<ge> 2 \<and> fmlookup (infStore one_cached) = settled jobMeta one_listed
     \<and> settled jobMeta one_listed ''default/foo'' = Some app_job"
proof -
  have ok: "informer_ok jobMeta one_listed" by (simp add: one_listed_def first_list_ok)
  have run: "internal_run jobMeta (Suc (Suc 0)) one_listed one_cached"
    using run_more [OF run_more [OF run_none one_steps(1)] one_steps(2)] .
  have "idle one_cached" unfolding idle_def by code_simp
  moreover have "fmlookup (infStore one_cached) ''default/foo'' = Some app_job" by code_simp
  ultimately show ?thesis using informer_comes_to_rest [OF ok run] by simp
qed

lemma HasSynced_complete_witness:
  "dealt_with jobMeta one_cached ''default/foo'' \<and> HasSynced (infFifo one_popped)
     \<and> fmlookup (infStore one_popped) ''default/foo'' = None"
proof -
  have run: "informer_steps jobMeta (first_list jobMeta [app_job]) one_cached"
    using steps_more [OF steps_more [OF steps_none one_steps(1)] one_steps(2)] by (simp add: one_listed_def)
  have "HasSynced (infFifo one_cached)" by code_simp
  moreover have "\<not> batch_of jobMeta one_cached k" for k by (simp add: batch_of_def one_cached_def)
  moreover have "MetaNamespaceKeyFunc (jobMeta app_job) = ''default/foo''" by code_simp
  ultimately have "dealt_with jobMeta one_cached ''default/foo''"
    using HasSynced_complete [OF run, of app_job] by simp
  moreover have "HasSynced (infFifo one_popped)" by code_simp
  moreover have "fmlookup (infStore one_popped) ''default/foo'' = None" by code_simp
  ultimately show ?thesis by blast
qed

end
