(* ===== verification/Restart.thy ===== *)
theory Restart
  imports Informer Liveness
begin

text \<open>
  After a restart of the controller: the jobs of running steps are on the server, the job informer
  lists them anew, and no expectation is left that would stop a second creation.  All that stands
  between the step and a second job is that no transition runs before the job store is synced
  (\<^verbatim>\<open>preconditionsMet\<close>).
\<close>

abbreviation step_selector :: "Workflow \<Rightarrow> JobTemplateSpec \<Rightarrow> string \<Rightarrow> LabelsSelector" where
  "step_selector w t s \<equiv> CreateWorkflowJobLabelSelector w t s"

definition of_step :: "Workflow \<Rightarrow> JobTemplateSpec \<Rightarrow> string \<Rightarrow> Job \<Rightarrow> bool" where
  "of_step w t s job \<longleftrightarrow> job_in_scope (Namespace (wfMeta w)) (step_selector w t s) job"

lemma step_lists_none:
  assumes "range_order store ks" and "\<And>k j. fmlookup store k = Some j \<Longrightarrow> \<not> of_step w t s j"
  shows "storeJobs_List (JobLister_Jobs store (Namespace (wfMeta w))) ks (step_selector w t s) = []"
proof -
  have "set (storeJobs_List (JobLister_Jobs store (Namespace (wfMeta w))) ks (step_selector w t s)) = {}"
    using assms(2) by (auto simp: storeJobs_List_set [OF assms(1)] of_step_def)
  then show ?thesis by simp
qed

text \<open>
  C18. The synced flag comes too early.  Let the jobs on the server be listed in any order that has
  the only job of a step last.  Then there is a moment at which the informer has synced, so that a
  transition of the workflow may run, and at which the step still seems to have no job: its handling
  calls \<^verbatim>\<open>CreateJob\<close>, although the job is there.  One change processed later the same handling
  creates nothing.
\<close>

theorem restart_creates_again:
  assumes "distinct (map (\<lambda>j. MetaNamespaceKeyFunc (jobMeta j)) (others @ [job]))"
    and "of_step w t s job" and "\<And>j. j \<in> set others \<Longrightarrow> \<not> of_step w t s j"
    and "fmlookup (wf_steps w) s = Some step" and "JobTemplate step = Some t" and "DependenciesResolved step w"
  shows "\<exists>st st'. informer_steps jobMeta (first_list jobMeta (others @ [job])) st
     \<and> informer_step jobMeta Internal st st' \<and> HasSynced (infFifo st)
     \<and> (\<forall>(env :: 'c tenv) c. range_order (obStore (teObs env s)) (obOrder (teObs env s)) \<longrightarrow>
          (obStore (teObs env s) = infStore st \<longrightarrow>
             map_option (\<lambda>(b, w', x). ctl x)
               (processJobStep env w s step \<lparr>ctl = c, exps = NewWorkflowStepExpectations\<rparr>) =
             map_option snd (teCreateJob env (Namespace (wfMeta w)) t w s c))
        \<and> (obStore (teObs env s) = infStore st' \<longrightarrow>
             (\<forall>b w' x. processJobStep env w s step \<lparr>ctl = c, exps = NewWorkflowStepExpectations\<rparr> = Some (b, w', x) \<longrightarrow>
                ctl x = c)))"
proof -
  let ?k = "MetaNamespaceKeyFunc (jobMeta job)"
  from synced_too_early [of "others @ [job]" jobMeta] assms(1) obtain st where
    st: "informer_steps jobMeta (first_list jobMeta (others @ [job])) st" "HasSynced (infFifo st)"
      "infBatch st = [(Sync, Object job)]" "fmlookup (infStore st) ?k = None"
    and only: "\<And>k j. fmlookup (infStore st) k = Some j \<Longrightarrow> j \<in> set others" by auto
  let ?st' = "st\<lparr>infStore := Store_Add jobMeta job (infStore st), infBatch := [], infLog := infLog st @ [OnAdd job]\<rparr>"
  have a: "apply_delta jobMeta (Sync, Object job) (infStore st) = (Store_Add jobMeta job (infStore st), [OnAdd job])"
    using st(4) by (simp add: Store_Get_def Store_GetByKey_def)
  have step: "informer_step jobMeta Internal st ?st'"
    using loop_processes [OF st(3) a] by simp
  have early: "map_option (\<lambda>(b, w', x). ctl x)
      (processJobStep env w s step \<lparr>ctl = c, exps = NewWorkflowStepExpectations\<rparr>) =
      map_option snd (teCreateJob env (Namespace (wfMeta w)) t w s c)"
    if o: "range_order (obStore (teObs env s)) (obOrder (teObs env s))" and "obStore (teObs env s) = infStore st"
    for env :: "'c tenv" and c
  proof -
    have "storeJobs_List (JobLister_Jobs (obStore (teObs env s)) (Namespace (wfMeta w))) (obOrder (teObs env s)) (step_selector w t s) = []"
      using step_lists_none [OF o] only assms(3) that(2) by metis
    with assms(4-6) show ?thesis
      by (simp add: processJobStep_def createJobForStep_def Let_def option.map_comp comp_def split: option.split)
  qed
  have late: "ctl x = c"
    if o: "range_order (obStore (teObs env s)) (obOrder (teObs env s))" and s': "obStore (teObs env s) = infStore ?st'"
      and p: "processJobStep env w s step \<lparr>ctl = c, exps = NewWorkflowStepExpectations\<rparr> = Some (b, w', x)"
    for env :: "'c tenv" and c b w' x
  proof -
    have "fmlookup (obStore (teObs env s)) ?k = Some job" by (simp add: s' Store_Add_def)
    then have "job \<in> set (step_jobs env w s t)"
      using assms(2) by (auto simp: step_jobs_def storeJobs_List_set [OF o] of_step_def)
    then have ne: "step_jobs env w s t \<noteq> []" by auto
    from p assms(4) show ?thesis
    proof (cases rule: processJobStep_cases)
      case (create t')
      with ne assms(5) show ?thesis by simp
    qed simp_all
  qed
  from st(1,2) step early late show ?thesis by blast
qed

text \<open>Two steps have their jobs on the server; the list has the first step's job last.\<close>

definition running_pair :: "Job list" where
  "running_pair = [finished_job ''two''] @ [finished_job ''one'']"

lemma pair_of_step:
  "of_step (two_workflow fmempty) sample_template ''one'' (finished_job ''one'')"
  "\<not> of_step (two_workflow fmempty) sample_template ''one'' (finished_job ''two'')"
  unfolding of_step_def by code_simp+

lemma restart_creates_again_witness:
  "\<exists>st. informer_steps jobMeta (first_list jobMeta running_pair) st \<and> HasSynced (infFifo st)
     \<and> (\<forall>(env :: unit tenv) c. range_order (infStore st) (obOrder (teObs env ''one'')) \<longrightarrow>
          obStore (teObs env ''one'') = infStore st \<longrightarrow>
          map_option (\<lambda>(b, w', x). ctl x)
            (processJobStep env (two_workflow fmempty) ''one'' (job_step []) \<lparr>ctl = c, exps = NewWorkflowStepExpectations\<rparr>) =
          map_option snd (teCreateJob env ''default'' sample_template (two_workflow fmempty) ''one'' c))"
proof -
  have d: "distinct (map (\<lambda>j. MetaNamespaceKeyFunc (jobMeta j)) ([finished_job ''two''] @ [finished_job ''one'']))"
    by code_simp
  have steps: "fmlookup (wf_steps (two_workflow fmempty)) ''one'' = Some (job_step [])" by code_simp
  have dep: "DependenciesResolved (job_step []) (two_workflow fmempty)" by code_simp
  have ns: "Namespace (wfMeta (two_workflow fmempty)) = ''default''" by code_simp
  have jt: "JobTemplate (job_step []) = Some sample_template" by (simp add: job_step_def)
  from restart_creates_again [where 'c = unit, OF d pair_of_step(1) _ steps jt dep] pair_of_step(2)
  show ?thesis unfolding running_pair_def ns by (simp, metis)
qed

end
