(* ===== verification/Contents.thy ===== *)
theory Contents
  imports Informer
begin

text \<open>
  What an informer holds between a reflector's call and the cache: a predicate on changes that every
  call establishes is kept by the queue and by the loop, and holds of whatever reaches the cache.
\<close>

section \<open>Predicates on changes\<close>

definition holds_only :: "('o delta \<Rightarrow> bool) \<Rightarrow> 'o informer \<Rightarrow> bool" where
  "holds_only P st \<longleftrightarrow> fmpred (\<lambda>k ds. list_all P ds) (fItems (infFifo st)) \<and> list_all P (infBatch st)"

lemma holds_only_mono: "holds_only P st \<Longrightarrow> (\<And>d. P d \<Longrightarrow> Q d) \<Longrightarrow> holds_only Q st"
  by (auto simp: holds_only_def fmpred_iff list_all_iff)

lemma dedupDeltas_all: "list_all P ds \<Longrightarrow> P d \<Longrightarrow> list_all P (dedupDeltas (ds @ [d]))"
  by (rule dedupDeltas_props(2))

lemma queueAction_only:
  assumes "fmpred (\<lambda>k ds. list_all P ds) (fItems f)" and "P (t, obj)"
  shows "fmpred (\<lambda>k ds. list_all P ds) (fItems (snd (queueActionLocked meta t obj f)))"
proof -
  have old: "list_all P (case fmlookup (fItems f) k of None \<Rightarrow> [] | Some ds \<Rightarrow> ds)" for k
    using assms(1) by (auto simp: fmpred_iff split: option.split)
  from dedupDeltas_all [OF old assms(2)] assms(1) show ?thesis
    by (auto simp: queueActionLocked_def Let_def fmpred_iff split: sum.split)
qed

lemma resync_only:
  assumes "fmpred (\<lambda>k ds. list_all P ds) (fItems f)" and "\<And>k x. fmlookup s k = Some x \<Longrightarrow> P (Sync, Object x)"
  shows "fmpred (\<lambda>k ds. list_all P ds) (fItems (snd (Fifo_Resync meta s ks f)))"
  using assms(1)
proof (induction ks arbitrary: f)
  case (Cons k ks)
  show ?case
  proof (cases "fmlookup s k")
    case None
    with Cons show ?thesis by (simp add: Store_GetByKey_def)
  next
    case (Some x)
    obtain e f1 where q: "queueActionLocked meta Sync (Object x) f = (e, f1)" by fastforce
    with queueAction_only [OF Cons.prems assms(2) [OF Some], of meta]
    have "fmpred (\<lambda>k ds. list_all P ds) (fItems f1)" by simp
    with Cons.IH [OF this] Some q show ?thesis by (auto simp: Store_GetByKey_def split: option.split)
  qed
qed simp

fun delta_of :: "'o reflector_call \<Rightarrow> 'o delta" where
  "delta_of (CallAdd x) = (Added, Object x)"
| "delta_of (CallUpdate x) = (Updated, Object x)"
| "delta_of (CallDelete x) = (Deleted, Object x)"
| "delta_of c = (Sync, OtherObject)"

lemma sink_only:
  assumes "sink meta ks c st = (err, st')" and "holds_only P st"
    and "is_event c \<and> P (delta_of c) \<or> c = CallResync \<and> (\<forall>k x. fmlookup (infStore st) k = Some x \<longrightarrow> P (Sync, Object x))"
  shows "holds_only P st'"
proof -
  have f: "fmpred (\<lambda>k ds. list_all P ds) (fItems (infFifo st))" and b: "list_all P (infBatch st)"
    using assms(2) by (simp_all add: holds_only_def)
  have f': "fmpred (\<lambda>k ds. list_all P ds) (fItems ((infFifo st)\<lparr>populated := True\<rparr>))" using f by simp
  note add = queueAction_only [OF f', of _ _ meta]
  have r: "fmpred (\<lambda>k ds. list_all P ds) (fItems (snd (Fifo_Resync meta (infStore st) ks (infFifo st))))"
    if "c = CallResync" using that assms(3) by (intro resync_only [OF f]) simp
  have "fmpred (\<lambda>k ds. list_all P ds) (fItems (infFifo st'))"
  proof (cases c)
    case (CallAdd x)
    with assms(1,3) add [of Added "Object x"] show ?thesis by (auto simp: Fifo_Add_def split: prod.splits)
  next
    case (CallUpdate x)
    with assms(1,3) add [of Updated "Object x"] show ?thesis by (auto simp: Fifo_Update_def split: prod.splits)
  next
    case (CallDelete x)
    with assms(1,3) add [of Deleted "Object x"] f show ?thesis
      by (auto simp: Fifo_Delete_def KeyOf_def Let_def split: prod.splits if_splits)
  next
    case CallResync
    with assms(1) r show ?thesis by (auto split: prod.splits)
  qed (use assms(3) in simp)
  then show ?thesis using sink_frame [OF assms(1)] b by (simp add: holds_only_def)
qed

lemma pop_only:
  "pop_loop q f = (Some ds, f') \<Longrightarrow> fmpred (\<lambda>k ds. list_all P ds) (fItems f) \<Longrightarrow>
     list_all P ds \<and> fmpred (\<lambda>k ds. list_all P ds) (fItems f')"
proof (induction q arbitrary: f)
  case (Cons k q)
  show ?case
  proof (cases "fmlookup (fItems f) k")
    case None
    with Cons.prems Cons.IH show ?thesis by (auto simp: Let_def)
  next
    case (Some es)
    with Cons.prems have "ds = es" "fItems f' = fmdrop k (fItems f)" by (auto simp: Let_def)
    with Cons.prems(2) Some show ?thesis by (auto simp: fmpred_iff split: if_splits)
  qed
qed simp

lemma internal_only:
  assumes "informer_step meta Internal st st'" and "holds_only P st"
  shows "holds_only P st'"
    and "infStore st' = infStore st \<or> (\<exists>d. P d \<and> infStore st' = fst (apply_delta meta d (infStore st)))"
proof -
  have "holds_only P st' \<and>
      (infStore st' = infStore st \<or> (\<exists>d. P d \<and> infStore st' = fst (apply_delta meta d (infStore st))))"
    using assms(1)
  proof (cases rule: informer_step.cases)
    case (loop_pops ds f)
    with assms(2) pop_only [of "fQueue (infFifo st)" "infFifo st" ds f P] show ?thesis
      by (auto simp: holds_only_def Fifo_Pop_def)
  next
    case (loop_processes d ds s ns)
    from loop_processes assms(2) have "P d" "holds_only P st'" by (simp_all add: holds_only_def)
    moreover have "infStore st' = fst (apply_delta meta d (infStore st))" using loop_processes by simp
    ultimately show ?thesis by blast
  qed
  then show "holds_only P st'"
    and "infStore st' = infStore st \<or> (\<exists>d. P d \<and> infStore st' = fst (apply_delta meta d (infStore st)))"
    by simp_all
qed

lemma apply_delta_Object:
  "fst (apply_delta meta (t, Object x) s) =
     (if t = Deleted then fmdrop (MetaNamespaceKeyFunc (meta x)) s else fmupd (MetaNamespaceKeyFunc (meta x)) x s)"
  by (cases t) (simp_all add: store_drop_def Store_Update_def Store_Add_def split: option.split)

lemma replace_new_only:
  "fmpred (\<lambda>k ds. list_all P ds) (fItems f) \<Longrightarrow> (\<And>x. x \<in> set items \<Longrightarrow> P (Sync, Object x)) \<Longrightarrow>
     replace_new meta items keys f = (err, keys', f') \<Longrightarrow> fmpred (\<lambda>k ds. list_all P ds) (fItems f')"
proof (induction items arbitrary: keys f)
  case (Cons x xs)
  obtain e f1 where q: "queueActionLocked meta Sync (Object x) f = (e, f1)" by fastforce
  with queueAction_only [OF Cons.prems(1), of Sync "Object x" meta] Cons.prems(2)
  have "fmpred (\<lambda>k ds. list_all P ds) (fItems f1)" by simp
  with Cons q show ?case by (auto simp: KeyOf_def split: option.splits)
qed simp

lemma first_list_only:
  assumes "\<And>x. x \<in> set items \<Longrightarrow> P (Sync, Object x)"
  shows "holds_only P (first_list meta items)"
proof -
  let ?f0 = "NewDeltaFIFO\<lparr>populated := True, initialPopulationCount := length items\<rparr>"
  obtain err keys f where n: "replace_new meta items [] ?f0 = (err, keys, f)" by (metis prod_cases3)
  have "fmpred (\<lambda>k ds. list_all P ds) (fItems f)"
    by (rule replace_new_only [OF _ _ n]) (simp_all add: NewDeltaFIFO_def assms)
  moreover have "infFifo (first_list meta items) = f"
    using n by (simp add: first_list_def NewInformer_def Fifo_Replace_def NewDeltaFIFO_def split: option.split)
  ultimately show ?thesis by (simp add: holds_only_def first_list_frame)
qed

lemma replace_gone_only:
  "fmpred (\<lambda>k ds. list_all P ds) (fItems f) \<Longrightarrow>
     (\<And>k. k \<in> set ks \<Longrightarrow> P (Deleted, DeletedFinalStateUnknown k (Store_GetByKey s k))) \<Longrightarrow>
     replace_gone meta s keys ks f = (err, f') \<Longrightarrow> fmpred (\<lambda>k ds. list_all P ds) (fItems f')"
proof (induction ks arbitrary: f)
  case (Cons k ks)
  obtain e f1 where q: "queueActionLocked meta Deleted (DeletedFinalStateUnknown k (Store_GetByKey s k)) f = (e, f1)"
    by fastforce
  with queueAction_only [OF Cons.prems(1), of Deleted "DeletedFinalStateUnknown k (Store_GetByKey s k)" meta] Cons.prems(2)
  have f1: "fmpred (\<lambda>k ds. list_all P ds) (fItems f1)" by simp
  note IH = Cons.IH [OF Cons.prems(1)] Cons.IH [OF f1]
  from Cons.prems(2,3) q IH f1 show ?case by (auto split: option.splits if_splits)
qed simp

text \<open>What a call must bring for the predicate to hold.\<close>

fun carries :: "('o delta \<Rightarrow> bool) \<Rightarrow> 'o store \<Rightarrow> 'o reflector_call \<Rightarrow> bool" where
  "carries P s (CallReplace xs) \<longleftrightarrow>
     list_all (\<lambda>x. P (Sync, Object x)) xs \<and> fmpred (\<lambda>k x. P (Deleted, DeletedFinalStateUnknown k (Some x))) s"
| "carries P s CallResync \<longleftrightarrow> fmpred (\<lambda>k x. P (Sync, Object x)) s"
| "carries P s c \<longleftrightarrow> P (delta_of c)"

lemma sink_holds:
  assumes "sink meta ks c st = (err, st')" and "holds_only P st" and "range_order (infStore st) ks"
    and "carries P (infStore st) c"
  shows "holds_only P st'"
proof (cases "\<exists>xs. c = CallReplace xs")
  case False
  with assms(4) have "is_event c \<and> P (delta_of c) \<or> c = CallResync \<and> (\<forall>k x. fmlookup (infStore st) k = Some x \<longrightarrow> P (Sync, Object x))"
    by (cases c) (auto simp: fmpred_iff)
  then show ?thesis by (rule sink_only [OF assms(1,2)])
next
  case True
  then obtain xs where c: "c = CallReplace xs" by blast
  define f0 where "f0 = (if populated (infFifo st) then infFifo st
      else (infFifo st)\<lparr>populated := True, initialPopulationCount := length xs\<rparr>)"
  obtain e keys f1 where n: "replace_new meta xs [] f0 = (e, keys, f1)" by (metis prod_cases3)
  have "fmpred (\<lambda>k ds. list_all P ds) (fItems f0)" using assms(2) by (simp add: f0_def holds_only_def)
  then have f1: "fmpred (\<lambda>k ds. list_all P ds) (fItems f1)"
    by (rule replace_new_only [OF _ _ n]) (use assms(4) c in \<open>simp add: list_all_iff\<close>)
  obtain e' f2 where g: "replace_gone meta (infStore st) keys ks f1 = (e', f2)" by fastforce
  have gone: "P (Deleted, DeletedFinalStateUnknown k (Store_GetByKey (infStore st) k))" if "k \<in> set ks" for k
    using that range_order_mem [OF assms(3), of k] assms(4) c by (auto simp: Store_GetByKey_def fmpred_iff)
  have "fmpred (\<lambda>k ds. list_all P ds) (fItems f2)"
    by (rule replace_gone_only [OF f1 gone g])
  with f1 have "fmpred (\<lambda>k ds. list_all P ds) (fItems (infFifo st'))"
    using assms(1) c n g by (auto simp: Fifo_Replace_def f0_def Let_def split: option.splits prod.splits)
  then show ?thesis using sink_frame [OF assms(1)] assms(2) by (simp add: holds_only_def)
qed

end
