(* ===== verification/Delivery.thy ===== *)
theory Delivery
  imports Contents Watch
begin

text \<open>
  From the server's list to the manager's cache of workflows: the goroutine of \<^verbatim>\<open>Watch\<close>
  (\<^verbatim>\<open>pkg/client/workflows.go\<close>), the reflector that receives its events and the loop of the informer
  \<^verbatim>\<open>NewManager\<close> builds on them (\<^verbatim>\<open>manager.go\<close>), interleaved as finely as the code allows.  The
  events, the queue and the cache hold addresses of the goroutine's loop variables; whoever needs a
  key or an object reads the variable when it needs it.  The channel is unbuffered: a send waits
  until the reflector has dealt with the event before.

  The reflector lists once; the watch never closes its channel and never sends an error, so all it
  does afterwards is to resync when its timer fires, and then to start a new watch, whose name map is
  empty.  The old goroutine is not stopped.  Nobody reads its channel any more, so its next send
  blocks it for ever, but up to that point the loop it was in goes on assigning its variables, which
  the cache may point to; only in a later poll are they fresh ones nobody knows.
\<close>

section \<open>The pieces\<close>

text \<open>The list and watch functions of the informer.\<close>

definition workflow_ListFunc ::
  "'w transport \<Rightarrow> codec \<Rightarrow> 'c ThirdPartyClient \<Rightarrow> 'w net \<Rightarrow> (go_error + Workflow list) \<times> 'w net" where
  "workflow_ListFunc tp cd c n =
     (let (ws, n1) = newWorkflows (tpBaseURL c) NamespaceAll n in Workflows_List tp cd ws n1)"

definition new_watch :: "workflows \<Rightarrow> wstate \<Rightarrow> wstate" where
  "new_watch ws old = (watch_start ws)\<lparr>cells := cells old, nextCell := nextCell old\<rparr>"

definition workflow_WatchFunc :: "'c ThirdPartyClient \<Rightarrow> 'w net \<Rightarrow> wstate \<Rightarrow> wstate \<times> 'w net" where
  "workflow_WatchFunc c n old =
     (let (ws, n1) = newWorkflows (tpBaseURL c) NamespaceAll n in (new_watch ws old, n1))"

lemma workflow_WatchFunc_fresh: "\<exists>ws. fst (workflow_WatchFunc c n old) = new_watch ws old \<and> nameMap ws = fmempty"
  by (auto simp: workflow_WatchFunc_def newWorkflows_def)

text \<open>One round of the loop over the list is the assignment of the loop variable and what follows.\<close>

definition assign :: "nat \<Rightarrow> Workflow \<Rightarrow> wstate \<Rightarrow> wstate" where
  "assign a w s = s\<lparr>cells := fmupd a w (cells s)\<rparr>"

definition item_sends :: "Workflow \<Rightarrow> wstate \<Rightarrow> bool" where
  "item_sends w s \<longleftrightarrow> (case fmlookup (names s) (Name (wfMeta w)) of None \<Rightarrow> True | Some old \<Rightarrow> old \<noteq> w)"

definition announce :: "nat \<Rightarrow> Workflow \<Rightarrow> wstate \<Rightarrow> wstate" where
  "announce a w s =
     (let s2 = (case fmlookup (names s) (Name (wfMeta w)) of
                  None \<Rightarrow> emit EvAdded a s
                | Some old \<Rightarrow> if old \<noteq> w then emit EvModified a s else s)
      in set_names (fmupd (Name (wfMeta w)) w (names s2)) s2)"

definition retract :: "nat \<Rightarrow> string \<Rightarrow> wstate \<Rightarrow> wstate" where
  "retract b k s = (let s2 = emit EvDeleted b s in set_names (fmdrop k (names s2)) s2)"

lemma take_item_split: "take_item a w s = announce a w (assign a w s)"
  by (simp add: take_item_def announce_def assign_def Let_def)

lemma take_gone_split:
  "take_gone b l k s =
     (case fmlookup (names s) k of
        None \<Rightarrow> s
      | Some w \<Rightarrow> if fmlookup l k = None then retract b k (assign b w s) else assign b w s)"
  by (cases "fmlookup (names s) k") (simp_all add: take_gone_def retract_def assign_def Let_def)

section \<open>The machine\<close>

text \<open>Where the goroutine stands; the addresses are those of its two loop variables.\<close>

datatype poller =
    Sleeping
  | InItems nat "Workflow list" "Workflow gomap"
  | AtItem nat Workflow "Workflow list" "Workflow gomap"
  | InNames nat "string list" "Workflow gomap"
  | AtName nat string "string list" "Workflow gomap"
  | Ended

text \<open>A goroutine left behind by a resync: its name map and where it stands.\<close>

type_synonym left_behind = "Workflow gomap \<times> poller"

inductive old_step :: "left_behind \<Rightarrow> wstate \<Rightarrow> left_behind \<Rightarrow> wstate \<Rightarrow> bool" where
  old_item: "old_step (nm, InItems a (w # ws) l) s (nm, AtItem a w ws (filed l w)) (assign a w s)"
| old_same: "fmlookup nm (Name (wfMeta w)) = Some w \<Longrightarrow> old_step (nm, AtItem a w ws l) s (nm, InItems a ws l) s"
| old_items_done: "range_order nm ks \<Longrightarrow> old_step (nm, InItems a [] l) s (nm, InNames (Suc a) ks l) s"
| old_no_name: "fmlookup nm k = None \<Longrightarrow> old_step (nm, InNames b (k # ks) l) s (nm, InNames b ks l) s"
| old_name: "fmlookup nm k = Some w \<Longrightarrow> old_step (nm, InNames b (k # ks) l) s (nm, AtName b k ks l) (assign b w s)"
| old_listed: "fmlookup l k \<noteq> None \<Longrightarrow> old_step (nm, AtName b k ks l) s (nm, InNames b ks l) s"

record machine =
  mcWatch :: wstate
  mcLoop :: poller
  mcOld :: "left_behind list"
  mcTaken :: nat
  mcInf :: "nat informer"

definition nowhere :: ObjectMeta where
  "nowhere = sample_meta [] None"

definition deref :: "wstate \<Rightarrow> nat \<Rightarrow> ObjectMeta" where
  "deref s a = (case fmlookup (cells s) a of None \<Rightarrow> nowhere | Some w \<Rightarrow> wfMeta w)"

definition ready :: "machine \<Rightarrow> bool" where
  "ready s \<longleftrightarrow> mcTaken s = length (sent_events (mcWatch s))"

fun call_of :: "event \<Rightarrow> nat reflector_call" where
  "call_of e = (case evType e of
     EvAdded \<Rightarrow> CallAdd (evObject e) | EvModified \<Rightarrow> CallUpdate (evObject e) | EvDeleted \<Rightarrow> CallDelete (evObject e))"

datatype label = Tick "Workflow list" | TickFails | Resync | Local

inductive machine_step :: "label \<Rightarrow> machine \<Rightarrow> machine \<Rightarrow> bool" where
  tick: "mcLoop s = Sleeping \<Longrightarrow>
     machine_step (Tick items) s
       (s\<lparr>mcWatch := (mcWatch s)\<lparr>nextCell := Suc (Suc (nextCell (mcWatch s)))\<rparr>,
          mcLoop := InItems (nextCell (mcWatch s)) items fmempty\<rparr>)"
| tick_fails: "mcLoop s = Sleeping \<Longrightarrow> machine_step TickFails s (s\<lparr>mcLoop := Ended\<rparr>)"
| next_item: "mcLoop s = InItems a (w # ws) l \<Longrightarrow>
     machine_step Local s (s\<lparr>mcWatch := assign a w (mcWatch s), mcLoop := AtItem a w ws (filed l w)\<rparr>)"
| at_item: "mcLoop s = AtItem a w ws l \<Longrightarrow> (item_sends w (mcWatch s) \<Longrightarrow> ready s) \<Longrightarrow>
     machine_step Local s (s\<lparr>mcWatch := announce a w (mcWatch s), mcLoop := InItems a ws l\<rparr>)"
| items_done: "mcLoop s = InItems a [] l \<Longrightarrow> range_order (names (mcWatch s)) ks \<Longrightarrow>
     machine_step Local s (s\<lparr>mcLoop := InNames (Suc a) ks l\<rparr>)"
| name_gone: "mcLoop s = InNames b (k # ks) l \<Longrightarrow> fmlookup (names (mcWatch s)) k = None \<Longrightarrow>
     machine_step Local s (s\<lparr>mcLoop := InNames b ks l\<rparr>)"
| next_name: "mcLoop s = InNames b (k # ks) l \<Longrightarrow> fmlookup (names (mcWatch s)) k = Some w \<Longrightarrow>
     machine_step Local s (s\<lparr>mcWatch := assign b w (mcWatch s), mcLoop := AtName b k ks l\<rparr>)"
| at_name_listed: "mcLoop s = AtName b k ks l \<Longrightarrow> fmlookup l k \<noteq> None \<Longrightarrow>
     machine_step Local s (s\<lparr>mcLoop := InNames b ks l\<rparr>)"
| at_name_gone: "mcLoop s = AtName b k ks l \<Longrightarrow> fmlookup l k = None \<Longrightarrow> ready s \<Longrightarrow>
     machine_step Local s (s\<lparr>mcWatch := retract b k (mcWatch s), mcLoop := InNames b ks l\<rparr>)"
| names_done: "mcLoop s = InNames b [] l \<Longrightarrow> machine_step Local s (s\<lparr>mcLoop := Sleeping\<rparr>)"
| receive: "mcTaken s < length (sent_events (mcWatch s)) \<Longrightarrow>
     range_order (infStore (mcInf s)) ks \<Longrightarrow>
     sink (deref (mcWatch s)) ks (call_of (sent_events (mcWatch s) ! mcTaken s)) (mcInf s) = (err, inf') \<Longrightarrow>
     machine_step Local s (s\<lparr>mcTaken := Suc (mcTaken s), mcInf := inf'\<rparr>)"
| inform: "informer_step (deref (mcWatch s)) Internal (mcInf s) inf' \<Longrightarrow>
     machine_step Local s (s\<lparr>mcInf := inf'\<rparr>)"
| resync: "ready s \<Longrightarrow> range_order (infStore (mcInf s)) ks \<Longrightarrow>
     sink (deref (mcWatch s)) ks CallResync (mcInf s) = (err, inf') \<Longrightarrow>
     nameMap ws = fmempty \<Longrightarrow>
     machine_step Resync s
       \<lparr>mcWatch = new_watch ws (mcWatch s), mcLoop = Sleeping,
        mcOld = mcOld s @ [(names (mcWatch s), mcLoop s)], mcTaken = 0, mcInf = inf'\<rparr>"
| old_moves: "mcOld s = zs1 @ z # zs2 \<Longrightarrow> old_step z (mcWatch s) z' ws' \<Longrightarrow>
     machine_step Local s (s\<lparr>mcWatch := ws', mcOld := zs1 @ z' # zs2\<rparr>)"

text \<open>Runs, with the ticks and resyncs in them.\<close>

inductive machine_run :: "label list \<Rightarrow> machine \<Rightarrow> machine \<Rightarrow> bool" where
  stays: "machine_run [] s s"
| moves: "machine_run ls s s1 \<Longrightarrow> machine_step l s1 s2 \<Longrightarrow>
     machine_run (if l = Local then ls else ls @ [l]) s s2"

text \<open>What the manager finds when it looks a workflow up.\<close>

definition cache_reads :: "machine \<Rightarrow> string \<Rightarrow> Workflow option" where
  "cache_reads s k = (case fmlookup (infStore (mcInf s)) k of None \<Rightarrow> None | Some a \<Rightarrow> fmlookup (cells (mcWatch s)) a)"

text \<open>The first list is queued, the watch not started; the objects of the list are cells of their own.\<close>

definition machine_start :: "Workflow list \<Rightarrow> machine" where
  "machine_start items =
     (let ws = (watch_start (newFakeWorkflows [] NamespaceAll))
                 \<lparr>cells := fmap_of_list (enumerate 0 items), nextCell := length items\<rparr>
      in \<lparr>mcWatch = ws, mcLoop = Sleeping, mcOld = [], mcTaken = 0,
          mcInf = first_list (deref ws) [0..<length items]\<rparr>)"

section \<open>The goroutine\<close>

lemma assign_simps [simp]:
  "cells (assign a w s) = fmupd a w (cells s)" "sent_events (assign a w s) = sent_events s"
  "names (assign a w s) = names s" "nextCell (assign a w s) = nextCell s"
  by (simp_all add: assign_def)

lemma announce_simps [simp]:
  "cells (announce a w s) = cells s" "names (announce a w s) = filed (names s) w"
  "nextCell (announce a w s) = nextCell s"
  by (auto simp: announce_def Let_def split: option.split)

lemma announce_sent:
  "fmlookup (cells s) a = Some w \<Longrightarrow> sent_events (announce a w s) = sent_events s @ item_events a (names s) w"
  by (auto simp: announce_def item_events_def emit_sent Let_def split: option.split)

lemma item_sends_events: "item_sends w s \<longleftrightarrow> item_events a (names s) w \<noteq> []"
  by (auto simp: item_sends_def item_events_def split: option.split)

lemma item_events_object: "e \<in> set (item_events a m w) \<Longrightarrow> evObject e = a \<and> evType e \<noteq> EvDeleted"
  by (auto simp: item_events_def split: option.splits if_splits)

lemma item_events_length: "length (item_events a m w) \<le> 1"
  by (simp add: item_events_def split: option.split)

lemma retract_simps [simp]:
  "cells (retract b k s) = cells s" "names (retract b k s) = fmdrop k (names s)" "nextCell (retract b k s) = nextCell s"
  by (simp_all add: retract_def Let_def)

lemma retract_sent:
  "fmlookup (cells s) b = Some w \<Longrightarrow>
     sent_events (retract b k s) = sent_events s @ [\<lparr>evType = EvDeleted, evObject = b, evSeen = w\<rparr>]"
  by (simp add: retract_def Let_def emit_sent)

lemma new_watch_simps [simp]:
  "cells (new_watch ws old) = cells old" "nextCell (new_watch ws old) = nextCell old"
  "sent_events (new_watch ws old) = []" "names (new_watch ws old) = nameMap ws"
  by (simp_all add: new_watch_def watch_start_def NewThirdPartyWatcher_def)

definition unread :: "machine \<Rightarrow> event list" where
  "unread s = drop (mcTaken s) (sent_events (mcWatch s))"

lemma ready_unread: "ready s \<Longrightarrow> unread s = []"
  by (simp add: ready_def unread_def)

section \<open>The goroutines left behind\<close>

text \<open>The variables a goroutine may still assign, and the workflows of its list it may assign.\<close>

fun reach :: "poller \<Rightarrow> nat list" where
  "reach (InItems a items l) = (if items = [] then [Suc a] else [a, Suc a])"
| "reach (AtItem a w items l) = [a, Suc a]"
| "reach (InNames b ks l) = [b]"
| "reach (AtName b k ks l) = [b]"
| "reach p = []"

fun pending :: "poller \<Rightarrow> Workflow set" where
  "pending (InItems a items l) = set items"
| "pending (AtItem a w items l) = set items"
| "pending p = {}"

lemma old_step_effect:
  assumes "old_step z s z' s'"
  shows "fst z' = fst z" and "set (reach (snd z')) \<subseteq> set (reach (snd z))" and "distinct (reach (snd z'))"
    and "pending (snd z') \<subseteq> pending (snd z)"
  using assms by (cases rule: old_step.cases; auto)+

lemma old_step_frame:
  assumes "old_step z s z' s'"
  shows "sent_events s' = sent_events s" "names s' = names s" "nextCell s' = nextCell s"
    and "fmlookup (cells s) q \<noteq> None \<Longrightarrow> fmlookup (cells s') q \<noteq> None"
    and "q \<notin> set (reach (snd z)) \<Longrightarrow> fmlookup (cells s') q = fmlookup (cells s) q"
    and "fmlookup (cells s') q = Some v \<Longrightarrow>
           fmlookup (cells s) q = Some v \<or> q \<in> set (reach (snd z)) \<and> (v \<in> pending (snd z) \<or> (\<exists>k. fmlookup (fst z) k = Some v))"
  using assms by (cases rule: old_step.cases; auto split: if_splits)+

text \<open>No variable belongs to two goroutines, and each is allocated.\<close>

definition all_reach :: "machine \<Rightarrow> nat list" where
  "all_reach s = reach (mcLoop s) @ concat (map (\<lambda>z. reach (snd z)) (mcOld s))"

definition apart :: "machine \<Rightarrow> bool" where
  "apart s \<longleftrightarrow> distinct (all_reach s) \<and> (\<forall>q \<in> set (all_reach s). q < nextCell (mcWatch s))"

lemma apart_old:
  "apart s \<Longrightarrow> mcOld s = zs1 @ z # zs2 \<Longrightarrow> q \<in> set (reach (snd z)) \<Longrightarrow>
     q \<notin> set (reach (mcLoop s)) \<and> (\<forall>z' \<in> set (zs1 @ zs2). q \<notin> set (reach (snd z')))"
  by (auto simp: apart_def all_reach_def)

lemma apart_step:
  assumes "machine_step l s s'" and "apart s"
  shows "apart s'"
  using assms(1)
proof (cases rule: machine_step.cases)
  case (old_moves zs1 z zs2 z' ws')
  with assms(2) old_step_effect(2,3) [OF old_moves(4)] old_step_frame(3) [OF old_moves(4)]
  show ?thesis by (auto simp: apart_def all_reach_def)
next
  case (tick items)
  have old: "q < nextCell (mcWatch s)" if "z \<in> set (mcOld s)" "q \<in> set (reach (snd z))" for z q
    using assms(2) that by (auto simp: apart_def all_reach_def)
  then have "nextCell (mcWatch s) \<notin> set (reach (snd z))" "Suc (nextCell (mcWatch s)) \<notin> set (reach (snd z))"
    if "z \<in> set (mcOld s)" for z using that by (meson less_irrefl Suc_lessD)+
  moreover have "q < Suc (Suc (nextCell (mcWatch s)))" if "z \<in> set (mcOld s)" "q \<in> set (reach (snd z))" for z q
    using old [OF that] by simp
  ultimately show ?thesis using assms(2) tick by (auto simp: apart_def all_reach_def)
qed (use assms(2) in \<open>auto simp: apart_def all_reach_def split: if_splits\<close>)

section \<open>Pointers\<close>

text \<open>
  \<open>G\<close> tells good pointers from bad ones, given what is to be done with the object; every pointer on
  its way into the cache, or in it, is good.
\<close>

fun delta_type :: "EventType \<Rightarrow> DeltaType" where
  "delta_type EvAdded = Added"
| "delta_type EvModified = Updated"
| "delta_type EvDeleted = Deleted"

definition good_delta :: "(wstate \<Rightarrow> DeltaType \<Rightarrow> nat \<Rightarrow> bool) \<Rightarrow> wstate \<Rightarrow> nat delta \<Rightarrow> bool" where
  "good_delta G ws d \<longleftrightarrow> (case snd d of Object q \<Rightarrow> G ws (fst d) q | _ \<Rightarrow> False)"

definition pointers :: "(wstate \<Rightarrow> DeltaType \<Rightarrow> nat \<Rightarrow> bool) \<Rightarrow> machine \<Rightarrow> bool" where
  "pointers G s \<longleftrightarrow>
     (\<forall>e \<in> set (unread s). G (mcWatch s) (delta_type (evType e)) (evObject e))
     \<and> holds_only (good_delta G (mcWatch s)) (mcInf s)
     \<and> (\<forall>k q. fmlookup (infStore (mcInf s)) k = Some q \<longrightarrow> G (mcWatch s) Sync q)"

lemma call_of_delta: "is_event (call_of e) \<and> delta_of (call_of e) = (delta_type (evType e), Object (evObject e))"
  by (cases "evType e") simp_all

lemma pointers_step:
  assumes "machine_step l s s'" and "pointers G s"
    and mono: "\<And>t q. G (mcWatch s) t q \<Longrightarrow> G (mcWatch s') t q"
    and sync: "\<And>ws t q. G ws t q \<Longrightarrow> t \<noteq> Deleted \<Longrightarrow> G ws Sync q"
    and new: "\<And>e. e \<in> set (unread s') \<Longrightarrow> e \<in> set (unread s) \<or> G (mcWatch s') (delta_type (evType e)) (evObject e)"
  shows "pointers G s'"
proof -
  from assms(2) have u: "\<And>e. e \<in> set (unread s) \<Longrightarrow> G (mcWatch s) (delta_type (evType e)) (evObject e)"
    and h: "holds_only (good_delta G (mcWatch s)) (mcInf s)"
    and st: "\<And>k q. fmlookup (infStore (mcInf s)) k = Some q \<Longrightarrow> G (mcWatch s) Sync q"
    by (simp_all add: pointers_def)
  have u': "\<And>e. e \<in> set (unread s') \<Longrightarrow> G (mcWatch s') (delta_type (evType e)) (evObject e)"
    using new u mono by blast
  have gd: "good_delta G (mcWatch s) d \<Longrightarrow> good_delta G (mcWatch s') d" for d
    using mono by (auto simp: good_delta_def split: event_obj.splits)
  have "holds_only (good_delta G (mcWatch s)) (mcInf s')
     \<and> (\<forall>k q. fmlookup (infStore (mcInf s')) k = Some q \<longrightarrow> G (mcWatch s) Sync q)"
    using assms(1)
  proof (cases rule: machine_step.cases)
    case (receive ks err inf')
    have "sent_events (mcWatch s) ! mcTaken s \<in> set (unread s)"
      using receive(3) by (simp add: unread_def Cons_nth_drop_Suc [symmetric])
    from u [OF this] call_of_delta have
      "is_event (call_of (sent_events (mcWatch s) ! mcTaken s)) \<and>
       good_delta G (mcWatch s) (delta_of (call_of (sent_events (mcWatch s) ! mcTaken s)))"
      by (simp add: good_delta_def del: call_of.simps)
    with sink_only [OF receive(5) h] have "holds_only (good_delta G (mcWatch s)) inf'" by blast
    with sink_frame [OF receive(5)] st receive(2) show ?thesis by simp
  next
    case (inform inf')
    note i = internal_only [OF inform(3) h]
    have "G (mcWatch s) Sync q"
      if d: "good_delta G (mcWatch s) d" and l: "fmlookup (fst (apply_delta (deref (mcWatch s)) d (infStore (mcInf s)))) k = Some q"
      for d k q
    proof -
      from d obtain t x where x: "d = (t, Object x)" "G (mcWatch s) t x"
        by (cases d) (auto simp: good_delta_def split: event_obj.splits)
      with l st sync [OF x(2)] show ?thesis by (auto simp: apply_delta_Object split: if_splits)
    qed
    with i st inform(2) show ?thesis by auto
  next
    case (resync ks err inf' ws)
    have "\<forall>k x. fmlookup (infStore (mcInf s)) k = Some x \<longrightarrow> good_delta G (mcWatch s) (Sync, Object x)"
      using st by (simp add: good_delta_def)
    with sink_only [OF resync(5) h] have "holds_only (good_delta G (mcWatch s)) inf'" by blast
    with sink_frame [OF resync(5)] st resync(2) show ?thesis by simp
  qed (use h st in simp_all)
  with u' gd mono show ?thesis unfolding pointers_def by (blast intro: holds_only_mono)
qed

section \<open>Well-formed states\<close>

fun loop_wf :: "wstate \<Rightarrow> poller \<Rightarrow> bool" where
  "loop_wf ws (InItems a items l) = (Suc a < nextCell ws)"
| "loop_wf ws (AtItem a w items l) = (Suc a < nextCell ws \<and> fmlookup (cells ws) a = Some w)"
| "loop_wf ws (InNames b ks l) = (b < nextCell ws)"
| "loop_wf ws (AtName b k ks l) = (b < nextCell ws \<and> fmlookup (cells ws) b \<noteq> None)"
| "loop_wf ws p = True"

definition allocated :: "wstate \<Rightarrow> DeltaType \<Rightarrow> nat \<Rightarrow> bool" where
  "allocated ws t q \<longleftrightarrow> fmlookup (cells ws) q \<noteq> None"

definition machine_wf :: "machine \<Rightarrow> bool" where
  "machine_wf s \<longleftrightarrow>
     loop_wf (mcWatch s) (mcLoop s) \<and> fmpred (\<lambda>q w. q < nextCell (mcWatch s)) (cells (mcWatch s))
     \<and> pointers allocated s \<and> apart s
     \<and> mcTaken s \<le> length (sent_events (mcWatch s)) \<and> length (unread s) \<le> 1"

lemma step_unread:
  assumes "machine_step l s s'" and "machine_wf s"
  obtains (same) "unread s' = unread s" "mcTaken s' = mcTaken s" "sent_events (mcWatch s') = sent_events (mcWatch s)"
    | (item) a w ws lm where "mcLoop s = AtItem a w ws lm" "mcWatch s' = announce a w (mcWatch s)" "mcTaken s' = mcTaken s"
        "unread s' = unread s @ item_events a (names (mcWatch s)) w"
        "item_events a (names (mcWatch s)) w \<noteq> [] \<longrightarrow> unread s = []" "fmlookup (cells (mcWatch s)) a = Some w"
    | (gone) b k ks lm w where "mcLoop s = AtName b k ks lm" "fmlookup lm k = None" "mcWatch s' = retract b k (mcWatch s)"
        "mcTaken s' = mcTaken s" "unread s = []" "fmlookup (cells (mcWatch s)) b = Some w"
        "unread s' = [\<lparr>evType = EvDeleted, evObject = b, evSeen = w\<rparr>]"
    | (taken) e where "unread s = e # unread s'" "mcWatch s' = mcWatch s" "mcLoop s' = mcLoop s"
        "mcTaken s' = Suc (mcTaken s)"
    | (restarted) "unread s' = []" "mcTaken s' = 0" "l = Resync"
  using assms(1)
proof (cases rule: machine_step.cases)
  case (at_item a w ws lm)
  have c: "fmlookup (cells (mcWatch s)) a = Some w" using assms(2) at_item(3) by (simp add: machine_wf_def)
  have "unread s' = unread s @ item_events a (names (mcWatch s)) w"
    using at_item(2) assms(2) announce_sent [OF c] by (simp add: unread_def machine_wf_def)
  moreover have "item_events a (names (mcWatch s)) w \<noteq> [] \<longrightarrow> unread s = []"
    using at_item(4) ready_unread item_sends_events by blast
  ultimately show ?thesis using item [OF at_item(3)] at_item(2) c by simp
next
  case (at_name_gone b k ks lm)
  from assms(2) at_name_gone(3) obtain w where c: "fmlookup (cells (mcWatch s)) b = Some w"
    by (auto simp: machine_wf_def)
  have u: "unread s = []" by (rule ready_unread [OF at_name_gone(5)])
  then have "unread s' = [\<lparr>evType = EvDeleted, evObject = b, evSeen = w\<rparr>]"
    using at_name_gone(2,5) retract_sent [OF c] by (simp add: unread_def ready_def)
  with u gone [OF at_name_gone(3,4)] at_name_gone(2) c show ?thesis by simp
next
  case (receive ks err inf')
  then show ?thesis using taken [of "sent_events (mcWatch s) ! mcTaken s"]
    by (simp add: unread_def Cons_nth_drop_Suc)
next
  case (old_moves zs1 z zs2 z' ws')
  with same old_step_frame(1) [OF old_moves(4)] show ?thesis by (simp add: unread_def)
qed (use same restarted in \<open>simp_all add: unread_def\<close>)

lemma machine_wf_step:
  assumes "machine_step l s s'" and "machine_wf s"
  shows "machine_wf s'"
proof -
  from assms(2) have lw: "loop_wf (mcWatch s) (mcLoop s)"
    and cl: "fmpred (\<lambda>q w. q < nextCell (mcWatch s)) (cells (mcWatch s))"
    and pt: "pointers allocated s" and ap: "apart s" and tk: "mcTaken s \<le> length (sent_events (mcWatch s))" and ul: "length (unread s) \<le> 1"
    by (simp_all add: machine_wf_def)
  have mono: "allocated (mcWatch s) t q \<Longrightarrow> allocated (mcWatch s') t q" for t q
    using assms(1) by (cases rule: machine_step.cases) (auto simp: allocated_def dest: old_step_frame(4))
  have "pointers allocated s'"
  proof (rule pointers_step [OF assms(1) pt mono])
    fix e assume e: "e \<in> set (unread s')"
    show "e \<in> set (unread s) \<or> allocated (mcWatch s') (delta_type (evType e)) (evObject e)"
      by (rule step_unread [OF assms])
        (use e item_events_object in \<open>auto simp: allocated_def\<close>)
  qed (simp_all add: allocated_def)
  moreover have "length (unread s') \<le> 1"
    by (rule step_unread [OF assms]) (use ul item_events_length in auto)
  moreover have "mcTaken s' \<le> length (sent_events (mcWatch s'))"
  proof (rule step_unread [OF assms])
    fix a w ws lm
    assume "mcWatch s' = announce a w (mcWatch s)" "mcTaken s' = mcTaken s" "fmlookup (cells (mcWatch s)) a = Some w"
    then show ?thesis using tk announce_sent by simp
  next
    fix b k ks lm w
    assume "mcWatch s' = retract b k (mcWatch s)" "mcTaken s' = mcTaken s" "fmlookup (cells (mcWatch s)) b = Some w"
    then show ?thesis using tk retract_sent by simp
  next
    fix e assume "unread s = e # unread s'" "mcWatch s' = mcWatch s" "mcTaken s' = Suc (mcTaken s)"
    then show ?thesis unfolding unread_def by (metis Suc_leI drop_eq_Nil list.distinct(1) not_le)
  next
    assume "mcTaken s' = mcTaken s" "sent_events (mcWatch s') = sent_events (mcWatch s)"
    with tk show ?thesis by simp
  qed simp
  moreover have "loop_wf (mcWatch s') (mcLoop s') \<and> fmpred (\<lambda>q w. q < nextCell (mcWatch s')) (cells (mcWatch s'))"
    using assms(1)
  proof (cases rule: machine_step.cases)
    case (old_moves zs1 z zs2 z' ws')
    have "q \<notin> set (reach (snd z))" if "q \<in> set (reach (mcLoop s))" for q
      using ap that old_moves(3) by (auto simp: apart_def all_reach_def)
    with old_step_frame(3-5) [OF old_moves(4)] lw have "loop_wf ws' (mcLoop s)"
      by (cases "mcLoop s") auto
    moreover have "q < nextCell (mcWatch s)" if "q \<in> set (reach (snd z))" for q
      using ap that old_moves(3) by (auto simp: apart_def all_reach_def)
    with old_step_frame(3,6) [OF old_moves(4)] cl have "fmpred (\<lambda>q w. q < nextCell ws') (cells ws')"
      unfolding fmpred_iff by metis
    ultimately show ?thesis using old_moves(2) by simp
  qed (use lw cl in \<open>auto simp: fmpred_iff\<close>)
  moreover have "apart s'" by (rule apart_step [OF assms(1) ap])
  ultimately show ?thesis by (simp add: machine_wf_def)
qed

lemma machine_run_wf: "machine_run ls s s' \<Longrightarrow> machine_wf s \<Longrightarrow> machine_wf s'"
  by (induction rule: machine_run.induct) (auto intro: machine_wf_step)

text \<open>Between two polls, everything delivered and processed, and nothing left behind.\<close>

definition at_rest :: "machine \<Rightarrow> bool" where
  "at_rest s \<longleftrightarrow> machine_wf s \<and> mcLoop s = Sleeping \<and> mcOld s = [] \<and> unread s = []
     \<and> fItems (infFifo (mcInf s)) = fmempty \<and> infBatch (mcInf s) = []"

text \<open>A watch begins: at the start of the program, once the first list is in the cache, and after
every resync, once the loop of the informer has caught up.\<close>

definition watch_begins :: "machine \<Rightarrow> bool" where
  "watch_begins s \<longleftrightarrow> at_rest s \<and> names (mcWatch s) = fmempty"

section \<open>A poll of the machine is a poll of the watch\<close>

lemma items_loop_snoc:
  "items_loop a ws (l, s) = (l1, s1) \<Longrightarrow> items_loop a (ws @ [w]) (l, s) = (filed l1 w, take_item a w s1)"
  by (induction ws arbitrary: l s) (simp_all add: items_loop_Cons del: items_loop.simps(2))

lemma gone_loop_snoc: "gone_loop b l (ks @ [k]) s = take_gone b l k (gone_loop b l ks s)"
  by (induction ks arbitrary: s) (simp_all add: gone_loop_Cons del: gone_loop.simps(2))

definition poll_start :: "wstate \<Rightarrow> wstate" where
  "poll_start w0 = w0\<lparr>nextCell := Suc (Suc (nextCell w0))\<rparr>"

fun polling :: "wstate \<Rightarrow> Workflow list \<Rightarrow> wstate \<Rightarrow> poller \<Rightarrow> bool" where
  "polling w0 items ws (InItems a rest l) =
     (a = nextCell w0 \<and> (\<exists>seen. items = seen @ rest \<and> items_loop a seen (fmempty, poll_start w0) = (l, ws)))"
| "polling w0 items ws (AtItem a w rest l) =
     (a = nextCell w0 \<and> (\<exists>seen l0 m. items = seen @ w # rest \<and> items_loop a seen (fmempty, poll_start w0) = (l0, m)
        \<and> l = filed l0 w \<and> ws = assign a w m))"
| "polling w0 items ws (InNames b ks l) =
     (b = Suc (nextCell w0) \<and> (\<exists>gone m. items_loop (nextCell w0) items (fmempty, poll_start w0) = (l, m)
        \<and> range_order (names m) (gone @ ks) \<and> ws = gone_loop b l gone m))"
| "polling w0 items ws (AtName b k ks l) =
     (b = Suc (nextCell w0) \<and> (\<exists>gone m w. items_loop (nextCell w0) items (fmempty, poll_start w0) = (l, m)
        \<and> range_order (names m) (gone @ k # ks) \<and> fmlookup (names (gone_loop b l gone m)) k = Some w
        \<and> ws = assign b w (gone_loop b l gone m)))"
| "polling w0 items ws Sleeping = (\<exists>ks. poll_ok items ks w0 \<and> ws = poll items ks w0)"
| "polling w0 items ws Ended = False"

lemma polling_step:
  assumes "machine_step Local s s'" and "polling w0 items (mcWatch s) (mcLoop s)" and "mcOld s = []"
  shows "polling w0 items (mcWatch s') (mcLoop s')"
  using assms(1)
proof (cases rule: machine_step.cases)
  case (at_item a w rest l)
  with assms(2) obtain seen l0 m where *: "a = nextCell w0" "items = seen @ w # rest"
    "items_loop a seen (fmempty, poll_start w0) = (l0, m)" "l = filed l0 w" "mcWatch s = assign a w m" by auto
  from items_loop_snoc [OF *(3), of w] * at_item show ?thesis
    by (auto simp: take_item_split intro!: exI [of _ "seen @ [w]"])
next
  case (items_done a l ks)
  with assms(2) show ?thesis by (auto intro!: exI [of _ "[]"])
next
  case (name_gone b k ks l)
  with assms(2) obtain gone m where *: "b = Suc (nextCell w0)"
    "items_loop (nextCell w0) items (fmempty, poll_start w0) = (l, m)" "range_order (names m) (gone @ k # ks)"
    "mcWatch s = gone_loop b l gone m" by auto
  with name_gone show ?thesis
    by (auto simp: gone_loop_snoc take_gone_def intro!: exI [of _ "gone @ [k]"] exI [of _ m])
next
  case (next_name b k ks l w)
  with assms(2) obtain gone m where *: "b = Suc (nextCell w0)"
    "items_loop (nextCell w0) items (fmempty, poll_start w0) = (l, m)" "range_order (names m) (gone @ k # ks)"
    "mcWatch s = gone_loop b l gone m" by auto
  with next_name show ?thesis by (auto intro!: exI [of _ gone])
next
  case (at_name_listed b k ks l)
  with assms(2) obtain gone m w where *: "b = Suc (nextCell w0)"
    "items_loop (nextCell w0) items (fmempty, poll_start w0) = (l, m)" "range_order (names m) (gone @ k # ks)"
    "fmlookup (names (gone_loop b l gone m)) k = Some w" "mcWatch s = assign b w (gone_loop b l gone m)" by auto
  with at_name_listed show ?thesis
    by (auto simp: gone_loop_snoc take_gone_split intro!: exI [of _ "gone @ [k]"] exI [of _ m])
next
  case (at_name_gone b k ks l)
  with assms(2) obtain gone m w where *: "b = Suc (nextCell w0)"
    "items_loop (nextCell w0) items (fmempty, poll_start w0) = (l, m)" "range_order (names m) (gone @ k # ks)"
    "fmlookup (names (gone_loop b l gone m)) k = Some w" "mcWatch s = assign b w (gone_loop b l gone m)" by auto
  with at_name_gone show ?thesis
    by (auto simp: gone_loop_snoc take_gone_split intro!: exI [of _ "gone @ [k]"] exI [of _ m])
next
  case (names_done b l)
  with assms(2) obtain gone m where *: "items_loop (nextCell w0) items (fmempty, poll_start w0) = (l, m)"
    "range_order (names m) gone" "mcWatch s = gone_loop (Suc (nextCell w0)) l gone m" by auto
  from items_loop_spec [OF *(1)] * names_done show ?thesis
    by (auto simp: poll_def poll_ok_def poll_start_def intro!: exI [of _ gone])
qed (use assms(2,3) in auto)

lemma none_left_behind:
  "machine_step l s s' \<Longrightarrow> l \<noteq> Resync \<Longrightarrow> mcOld s = [] \<Longrightarrow> mcOld s' = []"
  by (cases rule: machine_step.cases) auto

text \<open>Runs with one tick.\<close>

lemma one_tick_run:
  "machine_run ls s s' \<Longrightarrow> ls = [Tick items] \<Longrightarrow>
     (\<And>s0 s1. machine_run [] s s0 \<Longrightarrow> machine_step (Tick items) s0 s1 \<Longrightarrow> I s1) \<Longrightarrow>
     (\<And>s1 s2. I s1 \<Longrightarrow> machine_step Local s1 s2 \<Longrightarrow> I s2) \<Longrightarrow> I s'"
proof (induction rule: machine_run.induct)
  case (moves ls s s1 l s2)
  show ?case
  proof (cases "l = Local")
    case True
    have "I s1" by (rule moves.IH) (use moves.prems True in auto)
    with moves.prems(3) moves.hyps(2) True show ?thesis by blast
  next
    case False
    with moves.prems(1) have "ls = []" "l = Tick items" by simp_all
    with moves.prems(2) moves.hyps show ?thesis by blast
  qed
qed simp

section \<open>Running the machine\<close>

text \<open>The moves of a scheduler, with the order of a map where one is walked.\<close>

datatype move = Poll "string list" | Receive "string list" | Process

fun poll_move :: "string list \<Rightarrow> machine \<Rightarrow> poller \<Rightarrow> machine option" where
  "poll_move ks s (InItems a (w # ws) l) =
     Some (s\<lparr>mcWatch := assign a w (mcWatch s), mcLoop := AtItem a w ws (filed l w)\<rparr>)"
| "poll_move ks s (InItems a [] l) =
     (if range_order (names (mcWatch s)) ks then Some (s\<lparr>mcLoop := InNames (Suc a) ks l\<rparr>) else None)"
| "poll_move ks s (AtItem a w ws l) =
     (if item_sends w (mcWatch s) \<and> \<not> ready s then None
      else Some (s\<lparr>mcWatch := announce a w (mcWatch s), mcLoop := InItems a ws l\<rparr>))"
| "poll_move ks s (InNames b (j # js) l) =
     Some (case fmlookup (names (mcWatch s)) j of
             None \<Rightarrow> s\<lparr>mcLoop := InNames b js l\<rparr>
           | Some w \<Rightarrow> s\<lparr>mcWatch := assign b w (mcWatch s), mcLoop := AtName b j js l\<rparr>)"
| "poll_move ks s (InNames b [] l) = Some (s\<lparr>mcLoop := Sleeping\<rparr>)"
| "poll_move ks s (AtName b j js l) =
     (if fmlookup l j \<noteq> None then Some (s\<lparr>mcLoop := InNames b js l\<rparr>)
      else if ready s then Some (s\<lparr>mcWatch := retract b j (mcWatch s), mcLoop := InNames b js l\<rparr>)
      else None)"
| "poll_move ks s p = None"

fun perform :: "move \<Rightarrow> machine \<Rightarrow> machine option" where
  "perform (Poll ks) s = poll_move ks s (mcLoop s)"
| "perform (Receive ks) s =
     (if mcTaken s < length (sent_events (mcWatch s)) \<and> range_order (infStore (mcInf s)) ks
      then Some (s\<lparr>mcTaken := Suc (mcTaken s),
             mcInf := snd (sink (deref (mcWatch s)) ks (call_of (sent_events (mcWatch s) ! mcTaken s)) (mcInf s))\<rparr>)
      else None)"
| "perform Process s =
     (case infBatch (mcInf s) of
        d # ds \<Rightarrow>
          (let (store, ns) = apply_delta (deref (mcWatch s)) d (infStore (mcInf s))
           in Some (s\<lparr>mcInf := (mcInf s)\<lparr>infStore := store, infBatch := ds, infLog := infLog (mcInf s) @ ns\<rparr>\<rparr>))
      | [] \<Rightarrow>
          (case Fifo_Pop (infFifo (mcInf s)) of
             (None, f) \<Rightarrow> None
           | (Some ds, f) \<Rightarrow> Some (s\<lparr>mcInf := (mcInf s)\<lparr>infFifo := f, infBatch := ds\<rparr>\<rparr>)))"

fun performs :: "move list \<Rightarrow> machine \<Rightarrow> machine option" where
  "performs [] s = Some s"
| "performs (mv # mvs) s = (case perform mv s of None \<Rightarrow> None | Some s' \<Rightarrow> performs mvs s')"

lemma poll_move_step: "poll_move ks s (mcLoop s) = Some s' \<Longrightarrow> machine_step Local s s'"
  by (cases "(ks, s, mcLoop s)" rule: poll_move.cases)
    (auto split: if_splits option.splits intro: machine_step.intros)

lemma perform_step:
  assumes "perform mv s = Some s'"
  shows "machine_step Local s s'"
proof (cases mv)
  case (Poll ks)
  with assms poll_move_step show ?thesis by simp
next
  case (Receive ks)
  with assms have r: "mcTaken s < length (sent_events (mcWatch s))" "range_order (infStore (mcInf s)) ks"
    and s': "s' = s\<lparr>mcTaken := Suc (mcTaken s),
        mcInf := snd (sink (deref (mcWatch s)) ks (call_of (sent_events (mcWatch s) ! mcTaken s)) (mcInf s))\<rparr>"
    by (auto split: if_splits)
  show ?thesis unfolding s' by (rule machine_step.receive [OF r prod.collapse [symmetric]])
next
  case Process
  show ?thesis
  proof (cases "infBatch (mcInf s)")
    case Nil
    with assms Process obtain ds f where "Fifo_Pop (infFifo (mcInf s)) = (Some ds, f)"
      "s' = s\<lparr>mcInf := (mcInf s)\<lparr>infFifo := f, infBatch := ds\<rparr>\<rparr>"
      by (auto split: prod.splits option.splits)
    with machine_step.inform [OF loop_pops [OF Nil]] show ?thesis by blast
  next
    case (Cons d ds)
    obtain store ns where a: "apply_delta (deref (mcWatch s)) d (infStore (mcInf s)) = (store, ns)" by fastforce
    with assms Process Cons have
      "s' = s\<lparr>mcInf := (mcInf s)\<lparr>infStore := store, infBatch := ds, infLog := infLog (mcInf s) @ ns\<rparr>\<rparr>" by simp
    with machine_step.inform [OF loop_processes [OF Cons a]] show ?thesis by blast
  qed
qed

lemma performs_run: "performs mvs s1 = Some s2 \<Longrightarrow> machine_run ls s s1 \<Longrightarrow> machine_run ls s s2"
proof (induction mvs arbitrary: s1)
  case (Cons mv mvs)
  then obtain s' where p: "perform mv s1 = Some s'" "performs mvs s' = Some s2" by (auto split: option.splits)
  have "machine_run ls s s'" using moves [OF Cons.prems(2) perform_step [OF p(1)]] by simp
  with Cons.IH p(2) show ?case by blast
qed simp

definition tick_now :: "Workflow list \<Rightarrow> machine \<Rightarrow> machine" where
  "tick_now items s = s\<lparr>mcWatch := (mcWatch s)\<lparr>nextCell := Suc (Suc (nextCell (mcWatch s)))\<rparr>,
     mcLoop := InItems (nextCell (mcWatch s)) items fmempty\<rparr>"

lemma tick_now_run:
  "machine_run ls s s1 \<Longrightarrow> mcLoop s1 = Sleeping \<Longrightarrow> machine_run (ls @ [Tick items]) s (tick_now items s1)"
  using moves [OF _ tick [of s1 items]] by (simp add: tick_now_def)

section \<open>The start\<close>

lemma start_cells:
  "fmlookup (fmap_of_list (enumerate 0 items)) q = (if q < length items then Some (items ! q) else None)"
proof -
  have "map_of (enumerate n items) q = (if n \<le> q \<and> q < n + length items then Some (items ! (q - n)) else None)" for n
    by (induction items arbitrary: n) (auto simp: nth_Cons')
  then show ?thesis by (simp add: fmlookup_of_list)
qed

lemma machine_start_simps [simp]:
  "mcLoop (machine_start items) = Sleeping" "mcTaken (machine_start items) = 0"
  "unread (machine_start items) = []" "names (mcWatch (machine_start items)) = fmempty"
  "nextCell (mcWatch (machine_start items)) = length items"
  "fmlookup (cells (mcWatch (machine_start items))) q = (if q < length items then Some (items ! q) else None)"
  "sent_events (mcWatch (machine_start items)) = []" "mcOld (machine_start items) = []"
  "mcInf (machine_start items) = first_list (deref (mcWatch (machine_start items))) [0..<length items]"
  by (simp_all add: machine_start_def unread_def watch_start_def NewThirdPartyWatcher_def newFakeWorkflows_def
      Let_def start_cells)

lemma machine_start_wf: "machine_wf (machine_start items)"
proof -
  have "holds_only (good_delta allocated (mcWatch (machine_start items))) (mcInf (machine_start items))"
    unfolding machine_start_simps(9) by (rule first_list_only) (simp add: good_delta_def allocated_def)
  then have "pointers allocated (machine_start items)" by (simp add: pointers_def first_list_frame)
  then show ?thesis by (simp add: machine_wf_def apart_def all_reach_def fmpred_iff)
qed

end
