(* ===== verification/Staleness.thy ===== *)
theory Staleness
  imports Delivery
begin

text \<open>
  How the cache of workflows goes wrong, over the machine of theory Delivery and thus for every
  interleaving: a workflow that was deleted while no watch looked is never removed, and a poll brings
  at most one workflow into the cache, because all its events carry the address of one variable.
\<close>

section \<open>What the watch never saw\<close>

definition object_key :: "Workflow \<Rightarrow> string" where
  "object_key w = MetaNamespaceKeyFunc (wfMeta w)"

definition safe :: "string \<Rightarrow> wstate \<Rightarrow> nat \<Rightarrow> bool" where
  "safe k ws q \<longleftrightarrow> (case fmlookup (cells ws) q of None \<Rightarrow> False | Some w \<Rightarrow> object_key w \<noteq> k)"

definition survivor :: "string \<Rightarrow> nat \<Rightarrow> wstate \<Rightarrow> DeltaType \<Rightarrow> nat \<Rightarrow> bool" where
  "survivor k p ws t q \<longleftrightarrow> safe k ws q \<or> q = p \<and> t \<noteq> Deleted"

fun avoids :: "string \<Rightarrow> nat \<Rightarrow> wstate \<Rightarrow> poller \<Rightarrow> bool" where
  "avoids k p ws (InItems a items l) = (p < a \<and> (\<forall>w \<in> set items. object_key w \<noteq> k))"
| "avoids k p ws (AtItem a w items l) = (p < a \<and> object_key w \<noteq> k \<and> (\<forall>w \<in> set items. object_key w \<noteq> k))"
| "avoids k p ws (InNames b ks l) = (p < b)"
| "avoids k p ws (AtName b j ks l) = (p < b \<and> safe k ws b)"
| "avoids k p ws q = True"

text \<open>A goroutine left behind writes neither to the workflow's variable nor the workflow itself.\<close>

definition old_avoids :: "string \<Rightarrow> nat \<Rightarrow> left_behind \<Rightarrow> bool" where
  "old_avoids k p z \<longleftrightarrow>
     p \<notin> set (reach (snd z)) \<and> (\<forall>w \<in> pending (snd z). object_key w \<noteq> k)
     \<and> fmpred (\<lambda>j w. object_key w \<noteq> k) (fst z)"

lemma old_avoids_step:
  assumes "old_step z s z' s'" and "old_avoids k p z"
  shows "old_avoids k p z'" and "safe k s q \<Longrightarrow> safe k s' q"
    and "fmlookup (cells s) p = Some w \<Longrightarrow> fmlookup (cells s') p = Some w"
proof -
  show "old_avoids k p z'"
    using old_step_effect [OF assms(1)] assms(2) by (auto simp: old_avoids_def)
  show "safe k s' q" if "safe k s q"
  proof -
    have "fmlookup (cells s) q \<noteq> None" using that by (auto simp: safe_def split: option.splits)
    with old_step_frame(4) [OF assms(1)] obtain v where v: "fmlookup (cells s') q = Some v" by blast
    with old_step_frame(6) [OF assms(1) v] that assms(2) show ?thesis
      by (auto simp: safe_def old_avoids_def fmpred_iff)
  qed
  show "fmlookup (cells s') p = Some w" if "fmlookup (cells s) p = Some w"
    using old_step_frame(5) [OF assms(1)] that assms(2) by (simp add: old_avoids_def)
qed

lemma avoids_left_behind:
  "avoids k p ws q \<Longrightarrow> fmpred (\<lambda>j w. object_key w \<noteq> k) m \<Longrightarrow> old_avoids k p (m, q)"
  by (cases q) (auto simp: old_avoids_def)

definition stuck :: "string \<Rightarrow> nat \<Rightarrow> Workflow \<Rightarrow> machine \<Rightarrow> bool" where
  "stuck k p w0 s \<longleftrightarrow>
     machine_wf s \<and> fmlookup (cells (mcWatch s)) p = Some w0 \<and> object_key w0 = k
     \<and> fmpred (\<lambda>j w. object_key w \<noteq> k) (names (mcWatch s))
     \<and> avoids k p (mcWatch s) (mcLoop s) \<and> list_all (old_avoids k p) (mcOld s) \<and> pointers (survivor k p) s
     \<and> fmlookup (infStore (mcInf s)) k = Some p"

lemma stuck_step:
  assumes step: "machine_step l s s'" and inv: "stuck k p w0 s"
    and lists: "\<And>items. l = Tick items \<Longrightarrow> \<forall>w \<in> set items. object_key w \<noteq> k"
  shows "stuck k p w0 s'"
proof -
  from inv have wfs: "machine_wf s" and c0: "fmlookup (cells (mcWatch s)) p = Some w0" and k0: "object_key w0 = k"
    and nm: "\<And>j w. fmlookup (names (mcWatch s)) j = Some w \<Longrightarrow> object_key w \<noteq> k"
    and av: "avoids k p (mcWatch s) (mcLoop s)" and oa: "list_all (old_avoids k p) (mcOld s)" and pt: "pointers (survivor k p) s"
    and st: "fmlookup (infStore (mcInf s)) k = Some p"
    by (auto simp: stuck_def fmpred_iff)
  have pn: "p < nextCell (mcWatch s)" using wfs c0 by (simp add: machine_wf_def fmpred_iff)
  have old: "old_avoids k p z'" "safe k (mcWatch s) q \<Longrightarrow> safe k ws' q" "fmlookup (cells ws') p = Some w0"
    if "mcOld s = zs1 @ z # zs2" "old_step z (mcWatch s) z' ws'" for zs1 z zs2 z' ws' q
    using old_avoids_step [OF that(2), of k p] oa that(1) c0 by simp_all
  have safe_mono: "safe k (mcWatch s) q \<Longrightarrow> safe k (mcWatch s') q" for q
    using step
  proof (cases rule: machine_step.cases)
    case (old_moves zs1 z zs2 z' ws')
    then show "safe k (mcWatch s) q \<Longrightarrow> ?thesis" using old(2) [OF old_moves(3,4)] by simp
  qed (use av nm in \<open>auto simp: safe_def\<close>)
  have av': "avoids k p (mcWatch s') (mcLoop s')"
    using step
  proof (cases rule: machine_step.cases)
    case (old_moves zs1 z zs2 z' ws')
    then show ?thesis using old(2) [OF old_moves(3,4)] av by (cases "mcLoop s") auto
  qed (use av nm pn lists in \<open>auto simp: safe_def\<close>)
  have oa': "list_all (old_avoids k p) (mcOld s')"
    using step
  proof (cases rule: machine_step.cases)
    case (old_moves zs1 z zs2 z' ws')
    then show ?thesis using old(1) [OF old_moves(3,4)] oa by simp
  next
    case resync
    then show ?thesis using avoids_left_behind [OF av] nm oa by (simp add: fmpred_iff)
  qed (use oa in simp_all)
  have c0': "fmlookup (cells (mcWatch s')) p = Some w0"
    using step
  proof (cases rule: machine_step.cases)
    case (old_moves zs1 z zs2 z' ws')
    then show ?thesis using old(3) [OF old_moves(3,4)] by simp
  qed (use c0 av in auto)
  have nm': "object_key w \<noteq> k" if w: "fmlookup (names (mcWatch s')) j = Some w" for j w
    using step
  proof (cases rule: machine_step.cases)
    case (old_moves zs1 z zs2 z' ws')
    then show ?thesis using old_step_frame(2) [OF old_moves(4)] nm w by simp
  qed (use nm av w in \<open>auto split: if_splits\<close>)
  have pt': "pointers (survivor k p) s'"
  proof (rule pointers_step [OF step pt])
    fix e assume e: "e \<in> set (unread s')"
    show "e \<in> set (unread s) \<or> survivor k p (mcWatch s') (delta_type (evType e)) (evObject e)"
    proof (rule step_unread [OF step wfs])
      fix a w ws lm
      assume *: "mcLoop s = AtItem a w ws lm" "mcWatch s' = announce a w (mcWatch s)"
        "unread s' = unread s @ item_events a (names (mcWatch s)) w" "fmlookup (cells (mcWatch s)) a = Some w"
      then have "safe k (mcWatch s') a" using av by (simp add: safe_def)
      with * e item_events_object show ?thesis by (auto simp: survivor_def)
    next
      fix b j ks lm w
      assume *: "mcLoop s = AtName b j ks lm" "mcWatch s' = retract b j (mcWatch s)"
        "unread s' = [\<lparr>evType = EvDeleted, evObject = b, evSeen = w\<rparr>]"
      then have "safe k (mcWatch s') b" using av by (simp add: safe_def)
      with * e show ?thesis by (auto simp: survivor_def)
    qed (use e in auto)
  qed (use safe_mono in \<open>auto simp: survivor_def\<close>)
  have "fmlookup (infStore (mcInf s')) k = Some p"
    using step
  proof (cases rule: machine_step.cases)
    case (receive ks err inf')
    with sink_frame [OF receive(5)] st show ?thesis by simp
  next
    case (resync ks err inf' ws)
    with sink_frame [OF resync(5)] st show ?thesis by simp
  next
    case (inform inf')
    have h: "holds_only (good_delta (survivor k p) (mcWatch s)) (mcInf s)" using pt by (simp add: pointers_def)
    have "fmlookup (fst (apply_delta (deref (mcWatch s)) d (infStore (mcInf s)))) k = Some p"
      if d: "good_delta (survivor k p) (mcWatch s) d" for d
    proof -
      from d obtain t x where x: "d = (t, Object x)" "survivor k p (mcWatch s) t x"
        by (cases d) (auto simp: good_delta_def split: event_obj.splits)
      show ?thesis
      proof (cases "safe k (mcWatch s) x")
        case True
        then have "MetaNamespaceKeyFunc (deref (mcWatch s) x) \<noteq> k"
          by (auto simp: safe_def deref_def object_key_def split: option.splits)
        with st show ?thesis by (simp add: x(1) apply_delta_Object)
      next
        case False
        with x have "x = p" "t \<noteq> Deleted" by (auto simp: survivor_def)
        moreover have "MetaNamespaceKeyFunc (deref (mcWatch s) p) = k" using c0 k0 by (simp add: deref_def object_key_def)
        ultimately show ?thesis by (simp add: x(1) apply_delta_Object)
      qed
    qed
    with internal_only(2) [OF inform(3) h] st inform(2) show ?thesis by auto
  qed (use st in simp_all)
  with machine_wf_step [OF step wfs] c0' k0 nm' av' oa' pt' show ?thesis by (auto simp: stuck_def fmpred_iff)
qed

lemma stuck_run:
  "machine_run ls s s' \<Longrightarrow> stuck k p w0 s \<Longrightarrow>
     (\<And>items. Tick items \<in> set ls \<Longrightarrow> \<forall>w \<in> set items. object_key w \<noteq> k) \<Longrightarrow> stuck k p w0 s'"
proof (induction rule: machine_run.induct)
  case (moves ls s s1 l s2)
  have sub: "set ls \<subseteq> set (if l = Local then ls else ls @ [l])" by auto
  have "stuck k p w0 s1" by (rule moves.IH [OF moves.prems(1)]) (use moves.prems(2) sub in blast)
  then show ?case by (rule stuck_step [OF moves.hyps(2)]) (use moves.prems(2) in auto)
qed simp


lemma pop_nothing: "fItems f = fmempty \<Longrightarrow> Fifo_Pop f \<noteq> (Some ds, f')"
proof -
  have "fItems f = fmempty \<Longrightarrow> pop_loop q f \<noteq> (Some ds, f')" for q
    by (induction q arbitrary: f) (auto simp: Let_def)
  then show "fItems f = fmempty \<Longrightarrow> Fifo_Pop f \<noteq> (Some ds, f')" by (simp add: Fifo_Pop_def)
qed

lemma at_rest_stays:
  assumes "machine_step Local s s'" and "at_rest s"
  shows False
proof -
  from assms(2) have r: "mcLoop s = Sleeping" "mcOld s = []" "unread s = []" "fItems (infFifo (mcInf s)) = fmempty"
    "infBatch (mcInf s) = []" by (simp_all add: at_rest_def)
  from assms(1) show False
  proof (cases rule: machine_step.cases)
    case (receive ks err inf')
    with r(3) show ?thesis by (simp add: unread_def)
  next
    case (inform inf')
    from inform(2) r(4,5) pop_nothing show ?thesis by (cases rule: informer_step.cases) auto
  qed (use r in simp_all)
qed

lemma at_rest_run: "machine_run ls s s' \<Longrightarrow> ls = [] \<Longrightarrow> at_rest s \<Longrightarrow> s' = s"
  by (induction rule: machine_run.induct) (auto split: if_splits dest: at_rest_stays)

section \<open>One poll brings one workflow\<close>

definition only_address :: "nat \<Rightarrow> nat delta \<Rightarrow> bool" where
  "only_address a d \<longleftrightarrow> (case snd d of Object q \<Rightarrow> fst d \<noteq> Deleted \<longrightarrow> q = a | _ \<Rightarrow> False)"

definition brings :: "machine \<Rightarrow> Workflow list \<Rightarrow> machine \<Rightarrow> bool" where
  "brings s0 items s \<longleftrightarrow>
     machine_wf s \<and> mcOld s = [] \<and> polling (mcWatch s0) items (mcWatch s) (mcLoop s)
     \<and> (\<forall>e \<in> set (unread s). evType e \<noteq> EvDeleted \<longrightarrow> evObject e = nextCell (mcWatch s0))
     \<and> holds_only (only_address (nextCell (mcWatch s0))) (mcInf s)
     \<and> (\<forall>k q. fmlookup (infStore (mcInf s)) k = Some q \<longrightarrow>
          fmlookup (infStore (mcInf s0)) k = Some q \<or> q = nextCell (mcWatch s0))"

lemma brings_start:
  assumes "at_rest s" and "machine_step (Tick items) s s1"
  shows "brings s items s1"
proof -
  have wf: "machine_wf s1" using assms machine_wf_step by (auto simp: at_rest_def)
  from assms(2) show ?thesis
  proof (cases rule: machine_step.cases)
    case tick
    with assms(1) wf show ?thesis
      by (auto simp: brings_def at_rest_def unread_def holds_only_def poll_start_def)
  qed
qed

lemma brings_local:
  assumes inv: "brings s0 items s" and step: "machine_step Local s s'"
  shows "brings s0 items s'"
proof -
  let ?a = "nextCell (mcWatch s0)"
  from inv have wfs: "machine_wf s" and lb: "mcOld s = []" and pl: "polling (mcWatch s0) items (mcWatch s) (mcLoop s)"
    and u: "\<And>e. e \<in> set (unread s) \<Longrightarrow> evType e \<noteq> EvDeleted \<Longrightarrow> evObject e = ?a"
    and h: "holds_only (only_address ?a) (mcInf s)"
    and st: "\<And>k q. fmlookup (infStore (mcInf s)) k = Some q \<Longrightarrow> fmlookup (infStore (mcInf s0)) k = Some q \<or> q = ?a"
    by (auto simp: brings_def)
  have u': "evObject e = ?a" if e: "e \<in> set (unread s')" "evType e \<noteq> EvDeleted" for e
    by (rule step_unread [OF step wfs]) (use e u pl item_events_object in auto)
  have "holds_only (only_address ?a) (mcInf s') \<and> (\<forall>k q. fmlookup (infStore (mcInf s')) k = Some q \<longrightarrow>
      fmlookup (infStore (mcInf s0)) k = Some q \<or> q = ?a)"
    using step
  proof (cases rule: machine_step.cases)
    case (receive ks err inf')
    let ?e = "sent_events (mcWatch s) ! mcTaken s"
    have "?e \<in> set (unread s)" using receive(2) by (simp add: unread_def Cons_nth_drop_Suc [symmetric])
    then have "only_address ?a (delta_of (call_of ?e))"
      using u [of ?e] by (cases "evType ?e") (simp_all add: only_address_def)
    with call_of_delta [of ?e] sink_only [OF receive(4) h] have "holds_only (only_address ?a) inf'" by blast
    with sink_frame [OF receive(4)] st receive(1) show ?thesis by simp
  next
    case (inform inf')
    have proc: "fmlookup (infStore (mcInf s0)) k = Some q \<or> q = ?a"
      if d: "only_address ?a d" and l: "fmlookup (fst (apply_delta (deref (mcWatch s)) d (infStore (mcInf s)))) k = Some q"
      for d k q
    proof -
      from d obtain t x where x: "d = (t, Object x)" "t \<noteq> Deleted \<longrightarrow> x = ?a"
        by (cases d) (auto simp: only_address_def split: event_obj.splits)
      with l st show ?thesis by (auto simp: apply_delta_Object split: if_splits)
    qed
    have "fmlookup (infStore (mcInf s0)) k = Some q \<or> q = ?a" if "fmlookup (infStore inf') k = Some q" for k q
      using internal_only(2) [OF inform(2) h] st proc that by metis
    with internal_only(1) [OF inform(2) h] inform(1) show ?thesis by simp
  qed (use h st lb in simp_all)
  with machine_wf_step [OF step wfs] polling_step [OF step pl lb] none_left_behind [OF step _ lb] u' show ?thesis by (auto simp: brings_def)
qed

lemma items_loop_cells:
  "items_loop a items (l, s) = (l', s') \<Longrightarrow> q \<noteq> a \<Longrightarrow> fmlookup (cells s') q = fmlookup (cells s) q"
  by (induction items arbitrary: l s) (auto simp del: items_loop.simps(2) simp: items_loop_Cons)

lemma poll_cells:
  assumes "poll_ok items ks s" and "q \<noteq> Suc (nextCell s)" and "items = [] \<or> q \<noteq> nextCell s"
  shows "fmlookup (cells (poll items ks s)) q = fmlookup (cells s) q"
proof -
  obtain l s1 where loop: "items_loop (nextCell s) items (fmempty, poll_start s) = (l, s1)" by fastforce
  have d: "distinct ks" using assms(1) by (simp add: poll_ok_def range_order_distinct)
  have "poll items ks s = gone_loop (Suc (nextCell s)) l ks s1" using loop by (simp add: poll_def poll_start_def)
  with gone_loop_spec [OF d, of "Suc (nextCell s)" l s1] assms(2)
  have "fmlookup (cells (poll items ks s)) q = fmlookup (cells s1) q" by simp
  also have "\<dots> = fmlookup (cells (poll_start s)) q"
  proof (cases "items = []")
    case True
    with loop show ?thesis by simp
  next
    case False
    with assms(3) items_loop_cells [OF loop] show ?thesis by simp
  qed
  finally show ?thesis by (simp add: poll_start_def)
qed

text \<open>
  C15. A poll brings at most one workflow into the cache.  Whatever the poll found new or changed, and
  however the reflector and the loop interleave with it: what the manager reads afterwards under any
  key is what it read before the poll, or the last workflow of the list, under whatever key.
\<close>

theorem poll_brings_only_last:
  assumes "at_rest s" and "machine_run [Tick items] s s'" and "mcLoop s' = Sleeping"
    and "cache_reads s' k = Some w"
  shows "cache_reads s k = Some w \<or> items \<noteq> [] \<and> w = last items"
proof -
  let ?a = "nextCell (mcWatch s)"
  have b: "brings s items s'"
  proof (rule one_tick_run [OF assms(2) refl])
    fix s0 s1 assume "machine_run [] s s0" and t: "machine_step (Tick items) s0 s1"
    then have "s0 = s" using at_rest_run assms(1) by blast
    with t brings_start [OF assms(1)] show "brings s items s1" by blast
  qed (rule brings_local)
  then obtain ks where p: "poll_ok items ks (mcWatch s)" "mcWatch s' = poll items ks (mcWatch s)"
    using assms(3) by (auto simp: brings_def)
  from assms(4) obtain q where q: "fmlookup (infStore (mcInf s')) k = Some q" "fmlookup (cells (mcWatch s')) q = Some w"
    by (auto simp: cache_reads_def split: option.splits)
  have small: "fmlookup (cells (mcWatch s)) j \<noteq> None \<Longrightarrow> j < ?a" for j
    using assms(1) by (auto simp: at_rest_def machine_wf_def fmpred_iff)
  show ?thesis
  proof (cases "fmlookup (infStore (mcInf s)) k = Some q")
    case True
    then have "fmlookup (cells (mcWatch s)) q \<noteq> None"
      using assms(1) by (auto simp: at_rest_def machine_wf_def pointers_def allocated_def)
    with small have "q < ?a" by blast
    with poll_cells [OF p(1), of q] p(2) q(2) True show ?thesis by (simp add: cache_reads_def)
  next
    case False
    with b q(1) have qa: "q = ?a" by (auto simp: brings_def)
    show ?thesis
    proof (cases "items = []")
      case True
      with poll_cells [OF p(1), of q] p(2) q(2) qa small [of ?a] show ?thesis by auto
    next
      case False
      with poll_spec(3) [OF p(1)] p(2) q(2) qa show ?thesis by simp
    qed
  qed
qed

section \<open>Examples\<close>

text \<open>The first list holds one workflow, and its deletion happens before the first poll.\<close>

definition listed_once :: "machine option" where
  "listed_once = performs [Process, Process] (machine_start [named_workflow ''a''])"

lemma listed_once_rest:
  "case listed_once of None \<Rightarrow> False | Some s \<Rightarrow>
     mcLoop s = Sleeping \<and> mcOld s = [] \<and> unread s = [] \<and> range_order (fItems (infFifo (mcInf s))) [] \<and> infBatch (mcInf s) = []
     \<and> range_order (names (mcWatch s)) [] \<and> range_order (infStore (mcInf s)) [''default/a'']
     \<and> fmlookup (infStore (mcInf s)) ''default/a'' = Some 0 \<and> fmlookup (cells (mcWatch s)) 0 = Some (named_workflow ''a'')"
  by code_simp

lemma range_order_none: "range_order m [] \<Longrightarrow> m = fmempty"
  using range_order_mem [of m "[]"] by (auto intro!: fmap_ext simp flip: not_None_eq)


text \<open>Two new workflows in one poll, the first of them processed before the second is found.\<close>

definition found_two :: "machine option" where
  "found_two = performs ([Poll [], Poll [], Receive [], Process, Process, Poll [], Poll [], Receive [''default/a''],
       Poll [''a'', ''b'']] @ replicate 5 (Poll []) @ [Process, Process])
     (tick_now [named_workflow ''a'', named_workflow ''b''] (machine_start []))"

lemma found_two_rest:
  "case found_two of None \<Rightarrow> False | Some s \<Rightarrow>
     mcLoop s = Sleeping \<and> cache_reads s ''default/a'' \<noteq> None \<and> cache_reads s ''default/b'' \<noteq> None"
  by code_simp

lemma machine_start_empty: "at_rest (machine_start [])" "cache_reads (machine_start []) k = None"
proof -
  have "range_order (fItems (infFifo (mcInf (machine_start [])))) []" "infBatch (mcInf (machine_start [])) = []"
    by code_simp+
  with range_order_none machine_start_wf [of "[]"] show "at_rest (machine_start [])"
    by (simp add: at_rest_def)
  show "cache_reads (machine_start []) k = None" by (simp add: cache_reads_def first_list_frame)
qed

lemma poll_brings_only_last_witness:
  "\<exists>s. found_two = Some s \<and> cache_reads s ''default/a'' = Some (named_workflow ''b'')
     \<and> cache_reads s ''default/b'' = Some (named_workflow ''b'')"
proof -
  let ?l = "[named_workflow ''a'', named_workflow ''b'']"
  from found_two_rest obtain s x y where f: "found_two = Some s" and r: "mcLoop s = Sleeping"
    and c: "cache_reads s ''default/a'' = Some x" "cache_reads s ''default/b'' = Some y"
    by (auto split: option.splits)
  have "machine_run ([] @ [Tick ?l]) (machine_start []) s"
    by (rule performs_run [OF f [unfolded found_two_def] tick_now_run [OF stays]]) simp
  then have run: "machine_run [Tick ?l] (machine_start []) s" by simp
  note p = poll_brings_only_last [OF machine_start_empty(1) run r]
  from p [OF c(1)] p [OF c(2)] c machine_start_empty(2) have "x = named_workflow ''b''" "y = named_workflow ''b''"
    by simp_all
  with c f show ?thesis by blast
qed

end
