(* ===== verification/OneWorkflow.thy ===== *)
theory OneWorkflow
  imports Delivery
begin

text \<open>
  What the delivery of workflows does right: as long as the server holds at most one workflow, and
  always the same one, the cache follows it, in every interleaving.  All objects then have one key,
  so that reading a variable late does no harm, and no variable is assigned twice.
\<close>

section \<open>Keys are all that counts\<close>

definition same_key :: "('o \<Rightarrow> ObjectMeta) \<Rightarrow> ('o \<Rightarrow> ObjectMeta) \<Rightarrow> 'o \<Rightarrow> bool" where
  "same_key meta meta' x \<longleftrightarrow> MetaNamespaceKeyFunc (meta x) = MetaNamespaceKeyFunc (meta' x)"

lemma queueAction_cong:
  "same_key meta meta' x \<Longrightarrow>
     queueActionLocked meta t (Object x) f = queueActionLocked meta' t (Object x) f"
  by (simp add: queueActionLocked_def KeyOf_def same_key_def)

lemma resync_cong:
  "(\<And>k x. fmlookup s k = Some x \<Longrightarrow> same_key meta meta' x) \<Longrightarrow> Fifo_Resync meta s ks f = Fifo_Resync meta' s ks f"
proof (induction ks arbitrary: f)
  case (Cons k ks)
  show ?case
  proof (cases "fmlookup s k")
    case None
    with Cons show ?thesis by (simp add: Store_GetByKey_def)
  next
    case (Some x)
    have "Fifo_Resync meta s ks f1 = Fifo_Resync meta' s ks f1" for f1
      by (rule Cons.IH) (rule Cons.prems)
    with queueAction_cong [OF Cons.prems [OF Some], of Sync f] Some show ?thesis
      by (simp add: Store_GetByKey_def split: prod.split option.split)
  qed
qed simp

lemma replace_new_cong:
  "(\<And>x. x \<in> set items \<Longrightarrow> same_key meta meta' x) \<Longrightarrow> replace_new meta items keys f = replace_new meta' items keys f"
proof (induction items arbitrary: keys f)
  case (Cons x xs)
  have "same_key meta meta' x" using Cons.prems by simp
  with queueAction_cong [OF this, of Sync f] Cons.IH Cons.prems show ?case
    by (simp add: KeyOf_def \<open>same_key meta meta' x\<close> [unfolded same_key_def] split: option.split prod.split)
qed simp

fun touches :: "'o store \<Rightarrow> 'o reflector_call \<Rightarrow> 'o set" where
  "touches s (CallAdd x) = {x}"
| "touches s (CallUpdate x) = {x}"
| "touches s (CallDelete x) = {x}"
| "touches s (CallReplace xs) = set xs"
| "touches s CallResync = {x. \<exists>k. fmlookup s k = Some x}"

lemma replace_gone_cong: "replace_gone meta known keys ks f = replace_gone meta' known keys ks f"
proof (induction ks arbitrary: f)
  case (Cons k ks)
  have "queueActionLocked meta Deleted (DeletedFinalStateUnknown k obj) f =
      queueActionLocked meta' Deleted (DeletedFinalStateUnknown k obj) f" for obj f
    by (simp add: queueActionLocked_def KeyOf_def)
  with Cons show ?case by (simp split: option.split prod.split)
qed simp

lemma sink_cong:
  assumes "\<And>x. x \<in> touches (infStore st) c \<Longrightarrow> same_key meta meta' x"
  shows "sink meta ks c st = sink meta' ks c st"
proof (cases c)
  case (CallDelete x)
  with assms have "same_key meta meta' x" by simp
  then have "Fifo_Delete meta (infStore st) (Object x) f = Fifo_Delete meta' (infStore st) (Object x) f" for f
    using queueAction_cong [of meta meta' x] by (simp add: Fifo_Delete_def KeyOf_def same_key_def Let_def)
  with CallDelete show ?thesis by simp
next
  case (CallReplace xs)
  have n: "replace_new meta xs [] f = replace_new meta' xs [] f" for f
    using assms CallReplace by (intro replace_new_cong) simp
  have g: "replace_gone meta = replace_gone meta'" by (intro ext) (rule replace_gone_cong)
  have "Fifo_Replace meta (infStore st) ks xs f = Fifo_Replace meta' (infStore st) ks xs f" for f
    unfolding Fifo_Replace_def n g ..
  with CallReplace show ?thesis by simp
next
  case CallResync
  have "Fifo_Resync meta (infStore st) ks f = Fifo_Resync meta' (infStore st) ks f" for f
    by (rule resync_cong) (use assms CallResync in auto)
  with CallResync show ?thesis by simp
qed (use assms in \<open>simp_all add: Fifo_Add_def Fifo_Update_def queueAction_cong\<close>)

definition same_delta :: "('o \<Rightarrow> ObjectMeta) \<Rightarrow> ('o \<Rightarrow> ObjectMeta) \<Rightarrow> 'o delta \<Rightarrow> bool" where
  "same_delta meta meta' d \<longleftrightarrow> (case snd d of Object x \<Rightarrow> same_key meta meta' x | _ \<Rightarrow> True)"

lemma apply_delta_cong:
  assumes "same_delta meta meta' d"
  shows "apply_delta meta d s = apply_delta meta' d s"
proof (cases d)
  case (Pair t obj)
  show ?thesis
  proof (cases obj)
    case (Object x)
    with assms Pair have k: "MetaNamespaceKeyFunc (meta x) = MetaNamespaceKeyFunc (meta' x)"
      by (simp add: same_delta_def same_key_def)
    show ?thesis
      unfolding Pair Object
      by (cases t) (simp_all add: k Store_Get_def Store_Update_def Store_Add_def store_drop_def cong: option.case_cong)
  qed (cases t; simp add: Pair store_drop_def)+
qed

lemma internal_cong:
  assumes "informer_step meta Internal st st'" and "holds_only (same_delta meta meta') st"
  shows "informer_step meta' Internal st st'"
  using assms(1)
proof (cases rule: informer_step.cases)
  case (loop_pops ds f)
  then show ?thesis by (simp add: informer_step.loop_pops)
next
  case (loop_processes d ds s ns)
  with assms(2) have "same_delta meta meta' d" by (simp add: holds_only_def)
  from apply_delta_cong [OF this] loop_processes(3) have "apply_delta meta' d (infStore st) = (s, ns)" by simp
  then show ?thesis unfolding loop_processes(1) by (rule informer_step.loop_processes [OF loop_processes(2)])
qed

lemma first_list_cong:
  "(\<And>x. x \<in> set items \<Longrightarrow> same_key meta meta' x) \<Longrightarrow> first_list meta items = first_list meta' items"
  unfolding first_list_def by (rule arg_cong [of _ _ snd], rule sink_cong) (simp add: NewInformer_def)

section \<open>The invariant\<close>

text \<open>The one workflow of the server, in all its versions.\<close>

definition version :: "string \<Rightarrow> string \<Rightarrow> Workflow \<Rightarrow> bool" where
  "version k nm w \<longleftrightarrow> MetaNamespaceKeyFunc (wfMeta w) = k \<and> Name (wfMeta w) = nm"

fun single :: "string \<Rightarrow> string \<Rightarrow> wstate \<Rightarrow> poller \<Rightarrow> bool" where
  "single k nm ws (InItems a items l) =
     (length items \<le> 1 \<and> list_all (version k nm) items \<and> (items \<noteq> [] \<longrightarrow> fmlookup (cells ws) a = None)
      \<and> fmlookup (cells ws) (Suc a) = None)"
| "single k nm ws (AtItem a w items l) = (items = [] \<and> version k nm w \<and> fmlookup (cells ws) (Suc a) = None)"
| "single k nm ws (InNames b ks l) = (set ks \<subseteq> {nm} \<and> distinct ks \<and> (ks \<noteq> [] \<longrightarrow> fmlookup (cells ws) b = None))"
| "single k nm ws (AtName b j ks l) = (j = nm \<and> ks = [])"
| "single k nm ws p = True"

lemma single_frame:
  "single k nm ws p \<Longrightarrow> (\<And>q. q \<in> set (reach p) \<Longrightarrow> fmlookup (cells ws') q = fmlookup (cells ws) q) \<Longrightarrow>
     single k nm ws' p"
  by (cases p) auto

text \<open>The same for the goroutines left behind.\<close>

definition old_single :: "ObjectMeta \<Rightarrow> wstate \<Rightarrow> left_behind \<Rightarrow> bool" where
  "old_single m ws z \<longleftrightarrow>
     single (MetaNamespaceKeyFunc m) (Name m) ws (snd z)
     \<and> fmpred (\<lambda>j w. j = Name m \<and> version (MetaNamespaceKeyFunc m) (Name m) w) (fst z)"

lemma old_single_step:
  assumes "old_step z s z' s'" and "old_single m s z"
  shows "old_single m s' z'"
    and "fmlookup (cells s) q \<noteq> None \<Longrightarrow> fmlookup (cells s') q = fmlookup (cells s) q"
    and "fmlookup (cells s') q = Some w \<Longrightarrow>
           fmlookup (cells s) q = Some w \<or> version (MetaNamespaceKeyFunc m) (Name m) w"
proof -
  show "old_single m s' z'"
    using assms(1)
  proof (cases rule: old_step.cases)
    case (old_items_done nm ks a l)
    have "set ks \<subseteq> {Name m}"
      using assms(2) old_items_done range_order_mem [OF old_items_done(4)] by (auto simp: old_single_def fmpred_iff)
    with assms(2) old_items_done range_order_distinct [OF old_items_done(4)] show ?thesis
      by (simp add: old_single_def)
  next
    case (old_name nm k w b ks l)
    with assms(2) show ?thesis by (cases ks) (auto simp: old_single_def)
  qed (use assms(2) in \<open>auto simp: old_single_def\<close>)
  show "fmlookup (cells s) q \<noteq> None \<Longrightarrow> fmlookup (cells s') q = fmlookup (cells s) q"
    using assms by (cases rule: old_step.cases) (auto simp: old_single_def)
  have "w \<in> pending (snd z) \<Longrightarrow> version (MetaNamespaceKeyFunc m) (Name m) w"
    using assms(2) by (cases "snd z") (auto simp: old_single_def list_all_iff)
  then show "fmlookup (cells s') q = Some w \<Longrightarrow>
      fmlookup (cells s) q = Some w \<or> version (MetaNamespaceKeyFunc m) (Name m) w"
    using old_step_frame(6) [OF assms(1)] assms(2) by (auto simp: old_single_def fmpred_iff)
qed

definition told :: "ObjectMeta \<Rightarrow> machine \<Rightarrow> nat \<Rightarrow> bool" where
  "told m s p \<longleftrightarrow>
     (case unread s of
        [] \<Rightarrow> settled (\<lambda>_. m) (mcInf s) (MetaNamespaceKeyFunc m) = Some p
      | e # es \<Rightarrow> evType e \<noteq> EvDeleted \<and> evObject e = p)"

lemma told_same: "unread s' = unread s \<Longrightarrow> mcInf s' = mcInf s \<Longrightarrow> told m s' p = told m s p"
  by (simp add: told_def split: list.split)

definition follows :: "ObjectMeta \<Rightarrow> machine \<Rightarrow> bool" where
  "follows m s \<longleftrightarrow>
     machine_wf s
     \<and> fmpred (\<lambda>q. version (MetaNamespaceKeyFunc m) (Name m)) (cells (mcWatch s))
     \<and> fmpred (\<lambda>j w. j = Name m \<and> version (MetaNamespaceKeyFunc m) (Name m) w) (names (mcWatch s))
     \<and> single (MetaNamespaceKeyFunc m) (Name m) (mcWatch s) (mcLoop s)
     \<and> list_all (old_single m (mcWatch s)) (mcOld s)
     \<and> informer_ok (\<lambda>_. m) (mcInf s)
     \<and> (\<forall>w. fmlookup (names (mcWatch s)) (Name m) = Some w \<longrightarrow>
          (\<exists>p. fmlookup (cells (mcWatch s)) p = Some w \<and> told m s p))"

lemma followsD:
  assumes "follows m s"
  shows "machine_wf s" "informer_ok (\<lambda>_. m) (mcInf s)" "pointers allocated s"
    and "single (MetaNamespaceKeyFunc m) (Name m) (mcWatch s) (mcLoop s)"
    and "fmlookup (cells (mcWatch s)) q = Some w \<Longrightarrow> version (MetaNamespaceKeyFunc m) (Name m) w"
    and "fmlookup (names (mcWatch s)) j = Some w \<Longrightarrow> j = Name m \<and> version (MetaNamespaceKeyFunc m) (Name m) w"
    and "fmlookup (names (mcWatch s)) (Name m) = Some w \<Longrightarrow>
          \<exists>p. fmlookup (cells (mcWatch s)) p = Some w \<and> told m s p"
    and "list_all (old_single m (mcWatch s)) (mcOld s)" and "apart s"
  using assms unfolding follows_def fmpred_iff machine_wf_def by blast+

lemma follows_keys:
  assumes "follows m s" and "allocated (mcWatch s) t q"
  shows "same_key (deref (mcWatch s)) (\<lambda>_. m) q"
  using assms by (auto simp: follows_def same_key_def fmpred_iff version_def allocated_def deref_def)

text \<open>The informer's own steps, as those of an informer all of whose objects have the one key.\<close>

lemma follows_receives:
  assumes "follows m s" and "mcTaken s < length (sent_events (mcWatch s))"
    and "sink (deref (mcWatch s)) ks (call_of (sent_events (mcWatch s) ! mcTaken s)) (mcInf s) = (err, inf')"
  shows "sink (\<lambda>_. m) ks (call_of (sent_events (mcWatch s) ! mcTaken s)) (mcInf s) = (err, inf')"
proof -
  let ?e = "sent_events (mcWatch s) ! mcTaken s"
  have "?e \<in> set (unread s)" using assms(2) by (simp add: unread_def Cons_nth_drop_Suc [symmetric])
  then have "allocated (mcWatch s) t (evObject ?e)" for t
    using followsD(3) [OF assms(1)] by (auto simp: pointers_def allocated_def)
  with follows_keys [OF assms(1)]
  have "x \<in> touches (infStore (mcInf s)) (call_of ?e) \<Longrightarrow> same_key (deref (mcWatch s)) (\<lambda>_. m) x" for x
    by (cases "evType ?e") auto
  from sink_cong [OF this] assms(3) show ?thesis by simp
qed

lemma follows_resyncs:
  assumes "follows m s" and "sink (deref (mcWatch s)) ks CallResync (mcInf s) = (err, inf')"
  shows "sink (\<lambda>_. m) ks CallResync (mcInf s) = (err, inf')"
proof -
  have "x \<in> touches (infStore (mcInf s)) CallResync \<Longrightarrow> same_key (deref (mcWatch s)) (\<lambda>_. m) x" for x
    using follows_keys [OF assms(1), of Sync x] followsD(3) [OF assms(1)] by (auto simp: pointers_def)
  then have "sink (deref (mcWatch s)) ks CallResync (mcInf s) = sink (\<lambda>_. m) ks CallResync (mcInf s)"
    by (rule sink_cong)
  with assms(2) show ?thesis by (simp only:)
qed

lemma follows_internal:
  assumes "follows m s" and "informer_step (deref (mcWatch s)) Internal (mcInf s) inf'"
  shows "informer_step (\<lambda>_. m) Internal (mcInf s) inf'"
proof (rule internal_cong [OF assms(2)])
  have "holds_only (good_delta allocated (mcWatch s)) (mcInf s)"
    using followsD(3) [OF assms(1)] by (simp add: pointers_def)
  then show "holds_only (same_delta (deref (mcWatch s)) (\<lambda>_. m)) (mcInf s)"
    by (rule holds_only_mono)
      (use follows_keys [OF assms(1)] in \<open>auto simp: good_delta_def same_delta_def split: event_obj.splits\<close>)
qed

lemma follows_informer_ok:
  assumes step: "machine_step l s s'" and inv: "follows m s"
  shows "informer_ok (\<lambda>_. m) (mcInf s')"
  using step
proof (cases rule: machine_step.cases)
  case (receive ks err inf')
  from informer_step_ok [OF reflector_calls [OF receive(4) follows_receives [OF inv receive(3,5)]] followsD(2) [OF inv]] receive(2)
  show ?thesis by simp
next
  case (inform inf')
  from informer_step_ok [OF follows_internal [OF inv inform(3)] followsD(2) [OF inv]] inform(2) show ?thesis by simp
next
  case (resync ks err inf' ws)
  from informer_step_ok [OF reflector_calls [OF resync(4) follows_resyncs [OF inv resync(5)]] followsD(2) [OF inv]] resync(2)
  show ?thesis by simp
qed (use followsD(2) [OF inv] in simp_all)

text \<open>The goroutine assigns each of its variables once, and only to versions of the workflow.\<close>

lemma follows_loop:
  assumes step: "machine_step l s s'" and inv: "follows m s"
    and lists: "\<And>items. l = Tick items \<Longrightarrow> length items \<le> 1 \<and> list_all (version (MetaNamespaceKeyFunc m) (Name m)) items"
  shows "single (MetaNamespaceKeyFunc m) (Name m) (mcWatch s') (mcLoop s')"
  using step
proof (cases rule: machine_step.cases)
  case (tick items)
  have "fmlookup (cells (mcWatch s)) q = None" if "nextCell (mcWatch s) \<le> q" for q
    using followsD(1) [OF inv] that
    by (cases "fmlookup (cells (mcWatch s)) q") (auto simp: machine_wf_def fmpred_iff dest: leD)
  with tick lists show ?thesis by auto
next
  case (items_done a lm ks)
  have "set ks \<subseteq> {Name m}" using followsD(6) [OF inv] range_order_mem [OF items_done(4)] by auto
  with items_done followsD(4) [OF inv] range_order_distinct [OF items_done(4)] show ?thesis by simp
next
  case (next_name b j ks lm w)
  with followsD(4) [OF inv] show ?thesis by (cases ks) auto
next
  case (old_moves zs1 z zs2 z' ws')
  have "fmlookup (cells ws') q = fmlookup (cells (mcWatch s)) q" if "q \<in> set (reach (mcLoop s))" for q
    using apart_old [OF followsD(9) [OF inv] old_moves(3), of q] old_step_frame(5) [OF old_moves(4), of q] that by blast
  with single_frame [OF followsD(4) [OF inv]] old_moves(2) show ?thesis by simp
qed (use followsD(4) [OF inv] in auto)

lemma follows_old:
  assumes step: "machine_step l s s'" and inv: "follows m s"
  shows "list_all (old_single m (mcWatch s')) (mcOld s')"
proof -
  note old = followsD(8) [OF inv] and ap = followsD(9) [OF inv]
  have frame: "old_single m ws' z" if "old_single m (mcWatch s) z"
    and "\<And>q. q \<in> set (reach (snd z)) \<Longrightarrow> fmlookup (cells ws') q = fmlookup (cells (mcWatch s)) q" for ws' z
    using that single_frame unfolding old_single_def by blast
  have own: "list_all (old_single m ws') (mcOld s)"
    if "\<And>q. q \<notin> set (reach (mcLoop s)) \<Longrightarrow> fmlookup (cells ws') q = fmlookup (cells (mcWatch s)) q" for ws'
    unfolding list_all_iff
  proof
    fix z assume z: "z \<in> set (mcOld s)"
    then obtain zs1 zs2 where "mcOld s = zs1 @ z # zs2" by (meson split_list)
    with apart_old [OF ap this] that frame z old show "old_single m ws' z" unfolding list_all_iff by blast
  qed
  show ?thesis
    using step
  proof (cases rule: machine_step.cases)
    case (old_moves zs1 z zs2 z' ws')
    have z: "old_single m (mcWatch s) z" using old old_moves(3) by simp
    have "old_single m ws' y" if y: "y \<in> set (zs1 @ zs2)" for y
      by (rule frame) (use y old old_moves(3) apart_old [OF ap old_moves(3)] old_step_frame(5) [OF old_moves(4)]
        in \<open>auto simp: list_all_iff\<close>)
    with old_single_step(1) [OF old_moves(4) z] old_moves(2) show ?thesis by (simp add: list_all_iff)
  next
    case resync
    have "list_all (old_single m (mcWatch s')) (mcOld s)" using resync own [of "mcWatch s'"] by simp
    moreover have "old_single m (mcWatch s') (names (mcWatch s), mcLoop s)"
      using followsD(4,6) [OF inv] single_frame [of _ _ "mcWatch s" "mcLoop s" "mcWatch s'"] resync
      by (auto simp: old_single_def fmpred_iff)
    ultimately show ?thesis using resync by simp
  qed (use own in auto)
qed

lemma follows_versions:
  assumes step: "machine_step l s s'" and inv: "follows m s"
  shows "fmlookup (cells (mcWatch s')) q = Some w \<Longrightarrow> version (MetaNamespaceKeyFunc m) (Name m) w"
    and "fmlookup (names (mcWatch s')) j = Some w \<Longrightarrow> j = Name m \<and> version (MetaNamespaceKeyFunc m) (Name m) w"
proof -
  have "(fmlookup (cells (mcWatch s')) q = Some w \<longrightarrow> version (MetaNamespaceKeyFunc m) (Name m) w)
     \<and> (fmlookup (names (mcWatch s')) j = Some w \<longrightarrow> j = Name m \<and> version (MetaNamespaceKeyFunc m) (Name m) w)"
    using step
  proof (cases rule: machine_step.cases)
    case (old_moves zs1 z zs2 z' ws')
    have "old_single m (mcWatch s) z" using followsD(8) [OF inv] old_moves(3) by simp
    from old_single_step(3) [OF old_moves(4) this] old_step_frame(2) [OF old_moves(4)] old_moves(2) followsD(5,6) [OF inv]
    show ?thesis by (simp, metis)
  qed (use followsD(4-6) [OF inv] in \<open>auto simp: version_def split: if_splits\<close>)
  then show "fmlookup (cells (mcWatch s')) q = Some w \<Longrightarrow> version (MetaNamespaceKeyFunc m) (Name m) w"
    "fmlookup (names (mcWatch s')) j = Some w \<Longrightarrow> j = Name m \<and> version (MetaNamespaceKeyFunc m) (Name m) w"
    by simp_all
qed

lemma follows_announce:
  assumes inv: "follows m s" and loop: "mcLoop s = AtItem a v ws lm"
    and ready: "item_sends v (mcWatch s) \<Longrightarrow> ready s"
    and s': "s' = s\<lparr>mcWatch := announce a v (mcWatch s), mcLoop := InItems a ws lm\<rparr>"
  shows "\<exists>p. fmlookup (cells (mcWatch s')) p = Some v \<and> told m s' p"
proof -
  have v: "version (MetaNamespaceKeyFunc m) (Name m) v" "fmlookup (cells (mcWatch s)) a = Some v"
    using followsD(1,4) [OF inv] loop by (simp_all add: machine_wf_def)
  have sent: "sent_events (mcWatch s') = sent_events (mcWatch s) @ item_events a (names (mcWatch s)) v"
    using s' announce_sent [OF v(2)] by simp
  show ?thesis
  proof (cases "item_sends v (mcWatch s)")
    case True
    with ready have "ready s" by blast
    with sent s' have "unread s' = item_events a (names (mcWatch s)) v" by (simp add: unread_def ready_def)
    moreover obtain e es where e: "item_events a (names (mcWatch s)) v = e # es"
      using True item_sends_events by (meson neq_Nil_conv)
    moreover have "evObject e = a \<and> evType e \<noteq> EvDeleted"
      by (rule item_events_object [of _ a "names (mcWatch s)" v]) (simp add: e)
    ultimately show ?thesis using s' v(2) by (intro exI [of _ a]) (simp add: told_def)
  next
    case False
    then have "fmlookup (names (mcWatch s)) (Name m) = Some v"
      using v(1) by (auto simp: item_sends_def version_def split: option.splits)
    with followsD(7) [OF inv] obtain p where "fmlookup (cells (mcWatch s)) p = Some v" "told m s p" by blast
    moreover have "item_events a (names (mcWatch s)) v = []" using False item_sends_events by blast
    then have "told m s' p = told m s p" using sent s' by (intro told_same) (simp_all add: unread_def)
    ultimately show ?thesis using s' by auto
  qed
qed

lemma follows_told:
  assumes step: "machine_step l s s'" and inv: "follows m s"
    and w: "fmlookup (names (mcWatch s')) (Name m) = Some w"
  shows "\<exists>p. fmlookup (cells (mcWatch s')) p = Some w \<and> told m s' p"
proof -
  note td = followsD(7) [OF inv] and ok = followsD(2) [OF inv] and sg = followsD(4) [OF inv]
  have same: ?thesis
    if "mcInf s' = mcInf s" "unread s' = unread s" "names (mcWatch s') = names (mcWatch s)"
      "\<And>p. fmlookup (cells (mcWatch s)) p \<noteq> None \<Longrightarrow> fmlookup (cells (mcWatch s')) p = fmlookup (cells (mcWatch s)) p"
  proof -
    from td w that(3) obtain p where "fmlookup (cells (mcWatch s)) p = Some w" "told m s p" by auto
    with that told_same [of s' s m p] show ?thesis by (intro exI [of _ p]) auto
  qed
  from step show ?thesis
  proof (cases rule: machine_step.cases)
    case (next_item a v ws lm)
    with sg show ?thesis by (intro same) (auto simp: unread_def)
  next
    case (next_name b j ks lm v)
    with sg show ?thesis by (intro same) (auto simp: unread_def)
  next
    case (at_item a v ws lm)
    have "Name (wfMeta v) = Name m" using sg at_item(3) by (simp add: version_def)
    with w at_item(2) have "w = v" by simp
    with follows_announce [OF inv at_item(3,4,2)] show ?thesis by blast
  next
    case (receive ks err inf')
    let ?e = "sent_events (mcWatch s) ! mcTaken s"
    from receive w td obtain p where p: "fmlookup (cells (mcWatch s)) p = Some w" "told m s p" by auto
    have u: "unread s = ?e # unread s'" using receive(2,3) by (simp add: unread_def Cons_nth_drop_Suc)
    with followsD(1) [OF inv] have u': "unread s' = []" by (simp add: machine_wf_def)
    from informer_step_effect [OF ok reflector_calls [OF receive(4) follows_receives [OF inv receive(3,5)]]] u p(2)
    have "settled (\<lambda>_. m) inf' (MetaNamespaceKeyFunc m) = Some p"
      by (cases "evType ?e") (simp_all add: told_def)
    with p u' receive(2) show ?thesis by (auto simp: told_def)
  next
    case (inform inf')
    with td w obtain p where p: "fmlookup (cells (mcWatch s)) p = Some w" "told m s p" by auto
    have "unread s' = unread s" using inform(2) by (simp add: unread_def)
    with informer_step_effect [OF ok follows_internal [OF inv inform(3)]] inform(2) have "told m s' p = told m s p"
      by (simp add: told_def split: list.split)
    with p inform(2) show ?thesis by auto
  next
    case (at_name_gone b j ks lm)
    with sg w show ?thesis by simp
  next
    case (resync ks err inf' ws)
    with w show ?thesis by simp
  next
    case (old_moves zs1 z zs2 z' ws')
    have "old_single m (mcWatch s) z" using followsD(8) [OF inv] old_moves(3) by simp
    with old_moves old_step_frame(1,2) [OF old_moves(4)] old_single_step(2) [OF old_moves(4)] show ?thesis
      by (intro same) (auto simp: unread_def)
  qed ((rule same; simp add: unread_def)+)
qed

lemma follows_step:
  assumes "machine_step l s s'" and "follows m s"
    and "\<And>items. l = Tick items \<Longrightarrow> length items \<le> 1 \<and> list_all (version (MetaNamespaceKeyFunc m) (Name m)) items"
  shows "follows m s'"
  unfolding follows_def fmpred_iff
  using machine_wf_step [OF assms(1) followsD(1) [OF assms(2)]] follows_versions [OF assms(1,2)] follows_loop [OF assms]
    follows_informer_ok [OF assms(1,2)] follows_told [OF assms(1,2)] follows_old [OF assms(1,2)]
  by blast

lemma follows_run:
  "machine_run ls s s' \<Longrightarrow> follows m s \<Longrightarrow>
     (\<And>items. Tick items \<in> set ls \<Longrightarrow>
        length items \<le> 1 \<and> list_all (version (MetaNamespaceKeyFunc m) (Name m)) items) \<Longrightarrow> follows m s'"
proof (induction rule: machine_run.induct)
  case (moves ls s s1 l s2)
  have sub: "set ls \<subseteq> set (if l = Local then ls else ls @ [l])" by auto
  have "follows m s1" by (rule moves.IH [OF moves.prems(1)]) (use moves.prems(2) sub in blast)
  then show ?case by (rule follows_step [OF moves.hyps(2)]) (use moves.prems(2) in auto)
qed simp

section \<open>From the start\<close>

lemma machine_start_follows:
  assumes "list_all (version (MetaNamespaceKeyFunc m) (Name m)) items"
  shows "follows m (machine_start items)"
proof -
  let ?ws = "mcWatch (machine_start items)"
  have "first_list (deref ?ws) [0..<length items] = first_list (\<lambda>_. m) [0..<length items]"
    by (rule first_list_cong) (use assms in \<open>auto simp: same_key_def deref_def list_all_length version_def\<close>)
  then have "informer_ok (\<lambda>_. m) (mcInf (machine_start items))" using first_list_ok by simp
  with assms machine_start_wf [of items] show ?thesis
    by (auto simp: follows_def fmpred_iff list_all_length split: if_splits)
qed

text \<open>What a poll that finds one workflow leaves in the name map.\<close>

fun caught :: "Workflow \<Rightarrow> wstate \<Rightarrow> poller \<Rightarrow> bool" where
  "caught w ws (InItems a items l) =
     (items = [w] \<or> items = [] \<and> fmlookup (names ws) (Name (wfMeta w)) = Some w \<and> fmlookup l (Name (wfMeta w)) \<noteq> None)"
| "caught w ws (AtItem a v items l) = (v = w \<and> items = [] \<and> fmlookup l (Name (wfMeta w)) \<noteq> None)"
| "caught w ws (InNames b ks l) =
     (fmlookup (names ws) (Name (wfMeta w)) = Some w \<and> fmlookup l (Name (wfMeta w)) \<noteq> None)"
| "caught w ws (AtName b k ks l) =
     (fmlookup (names ws) (Name (wfMeta w)) = Some w \<and> fmlookup l (Name (wfMeta w)) \<noteq> None)"
| "caught w ws Sleeping = (fmlookup (names ws) (Name (wfMeta w)) = Some w)"
| "caught w ws Ended = False"

lemma caught_step:
  assumes "machine_step Local s s'" and "caught w (mcWatch s) (mcLoop s)"
  shows "caught w (mcWatch s') (mcLoop s')"
  using assms(1)
proof (cases rule: machine_step.cases)
  case (old_moves zs1 z zs2 z' ws')
  then show ?thesis using old_step_frame(2) [OF old_moves(3)] assms(2) by (cases "mcLoop s") simp_all
qed (use assms(2) in auto)

lemma last_tick:
  "machine_run ls s s' \<Longrightarrow> ls = ls0 @ [Tick [w]] \<Longrightarrow> caught w (mcWatch s') (mcLoop s')"
proof (induction rule: machine_run.induct)
  case (moves ls s s1 l s2)
  show ?case
  proof (cases "l = Local")
    case True
    with moves caught_step show ?thesis by simp
  next
    case False
    with moves.prems have "l = Tick [w]" by simp
    with moves.hyps(2) show ?thesis by (cases rule: machine_step.cases) auto
  qed
qed simp

text \<open>
  C16. With one workflow on the server the cache is right.  Let the first list and every poll hold at
  most that workflow, in whatever version, with any resyncs between and however the goroutines
  interleave: when the last poll found it and everything has been delivered and processed, the
  manager reads exactly the version of that poll.
\<close>

theorem single_workflow_followed:
  assumes "machine_run (ls @ [Tick [w]]) (machine_start items) s"
    and "\<And>l. Tick l \<in> set (ls @ [Tick [w]]) \<Longrightarrow>
           length l \<le> 1 \<and> list_all (version (MetaNamespaceKeyFunc m) (Name m)) l"
    and "list_all (version (MetaNamespaceKeyFunc m) (Name m)) items"
    and "mcLoop s = Sleeping" and "unread s = []" and "idle (mcInf s)"
  shows "cache_reads s (MetaNamespaceKeyFunc m) = Some w"
proof -
  have f: "follows m s" using follows_run [OF assms(1) machine_start_follows [OF assms(3)]] assms(2) by blast
  have "version (MetaNamespaceKeyFunc m) (Name m) w" using assms(2) [of "[w]"] by simp
  with last_tick [OF assms(1) refl] assms(4) have "fmlookup (names (mcWatch s)) (Name m) = Some w"
    by (simp add: version_def)
  with f assms(5) obtain a where a: "fmlookup (cells (mcWatch s)) a = Some w"
    "settled (\<lambda>_. m) (mcInf s) (MetaNamespaceKeyFunc m) = Some a"
    by (auto simp: follows_def told_def)
  have "informer_ok (\<lambda>_. m) (mcInf s)" using f by (simp add: follows_def)
  with assms(6) view_idle [of "infFifo (mcInf s)" "\<lambda>_. m"] a(2)
  have "fmlookup (infStore (mcInf s)) (MetaNamespaceKeyFunc m) = Some a"
    by (simp add: settled_def idle_def informer_ok_def)
  with a(1) show ?thesis by (simp add: cache_reads_def)
qed

section \<open>Examples\<close>

text \<open>A workflow posted before the controller starts, changed before the first poll, then polled
while the first list is still being processed.\<close>

definition first_version :: Workflow where
  "first_version = named_workflow ''a''"

definition second_version :: Workflow where
  "second_version = AddCompleteCondition 7 first_version"

definition followed :: "machine option" where
  "followed = performs [Poll [], Poll [], Process, Receive [], Poll [''a''], Process, Poll [], Poll [], Poll [], Process, Process]
     (tick_now [second_version] (machine_start [first_version]))"

lemma followed_rest:
  "case followed of None \<Rightarrow> False | Some s \<Rightarrow> mcLoop s = Sleeping \<and> unread s = [] \<and> idle (mcInf s)"
  by code_simp

lemma single_workflow_followed_witness:
  "\<exists>s. followed = Some s \<and> cache_reads s ''default/a'' = Some second_version"
proof -
  from followed_rest obtain s where f: "followed = Some s"
    and r: "mcLoop s = Sleeping" "unread s = []" "idle (mcInf s)"
    by (auto split: option.splits)
  have "machine_run ([] @ [Tick [second_version]]) (machine_start [first_version]) s"
    by (rule performs_run [OF f [unfolded followed_def] tick_now_run [OF stays]]) simp
  moreover have "list_all (version ''default/a'' ''a'') [first_version]"
    "list_all (version ''default/a'' ''a'') [second_version]" by code_simp+
  moreover have "MetaNamespaceKeyFunc (sample_meta ''a'' None) = ''default/a''" "Name (sample_meta ''a'' None) = ''a''"
    by code_simp+
  ultimately have "cache_reads s ''default/a'' = Some second_version"
    using single_workflow_followed [of "[]" second_version "[first_version]" s "sample_meta ''a'' None"] r by simp
  with f show ?thesis by blast
qed

end
