(* ===== verification/Controller.thy ===== *)
theory Controller
  imports Contents Program
begin

text \<open>
  The running controller: the goroutines \<^verbatim>\<open>NewManager\<close> wires and \<^verbatim>\<open>Run\<close> starts
  (\<^verbatim>\<open>pkg/workflow/manager.go\<close>), interleaved.  Each informer is a reflector that calls the delta queue
  and a loop that changes the cache and then calls the handlers; the workers take a key, run a
  transition and hand the key back.  An informer may act between a worker's steps and between
  another informer's change of the cache and its handler.  A transition reads the job cache once per
  step of the workflow: each of these reads may be of any moment since the worker took the key.

  What holds of its runs is in the theories Wakeups, Rest, Waiting and Settled.
\<close>

section \<open>The controller\<close>

fun job_handler ::
  "(Job \<Rightarrow> Job \<Rightarrow> bool) \<Rightarrow> (Workflow \<Rightarrow> string list) \<Rightarrow> string list \<Rightarrow> Job notification \<Rightarrow>
   ('c, 'n) mstate \<Rightarrow> ('c, 'n) mstate option" where
  "job_handler eq so ks (OnAdd job) m = addJob so ks job m"
| "job_handler eq so ks (OnUpdate old cur) m = updateJob eq so ks old cur m"
| "job_handler eq so ks (OnDelete obj) m = deleteJob so ks obj m"

fun job_handlers where
  "job_handlers eq so ks [] m = Some m"
| "job_handlers eq so ks (n # ns) m =
     (case job_handler eq so ks n m of None \<Rightarrow> None | Some m' \<Rightarrow> job_handlers eq so ks ns m')"

text \<open>The informer of the jobs is the informer of theory Informer with these handlers.\<close>

lemma process_job_delta_informer:
  "process_job_delta eq so ks t obj m =
     (case apply_delta jobMeta (t, obj) (mJobs m) of
        (s, ns) \<Rightarrow> job_handlers eq so ks ns (m\<lparr>mJobs := s\<rparr>))"
  by (cases t; cases obj) (auto split: option.split)

text \<open>
  A worker is waiting, has taken a key, or has run the transition and will ask for the key again
  after a delay or not.  A worker with a key remembers whether the job store was synced when it took
  the key and the contents the job cache has had since.
\<close>

datatype phase = Free | Got string bool "Job store list" | Ran string bool int

text \<open>What a transition started from and what it came to, for the theorems.\<close>

record ('c, 'n) visit =
  viEnv :: "'c tenv"
  viSynced1 :: bool
  viSynced2 :: bool
  viBefore :: "'c tstate \<times> 'n \<times> Workflow store"
  viResult :: "('c tstate \<times> 'n \<times> Workflow store) transition_result"

record ('c, 'n) controller =
  coQueue :: wqueue
  coState :: "'c tstate"
  coNet :: 'n
  coSlept :: "int list"
  coJobs :: "Job informer"
  coFlows :: "Workflow informer"
  coJobsTold :: nat
  coFlowsTold :: nat
  coPhase :: "nat \<Rightarrow> phase"
  coLast :: "string \<Rightarrow> ('c, 'n) visit option"

text \<open>The manager's state in it, and what the handlers may change of it.\<close>

definition mgr :: "('c, 'n) controller \<Rightarrow> ('c, 'n) mstate" where
  "mgr s = \<lparr>mQueue = coQueue s, mState = coState s, mNet = coNet s, mWorkflows = infStore (coFlows s),
     mJobs = infStore (coJobs s), mSlept = coSlept s\<rparr>"

definition put_back :: "('c, 'n) mstate \<Rightarrow> ('c, 'n) controller \<Rightarrow> ('c, 'n) controller" where
  "put_back m s = s\<lparr>coQueue := mQueue m, coState := mState m, coSlept := mSlept m\<rparr>"

definition NewController :: "'c \<Rightarrow> 'n \<Rightarrow> ('c, 'n) controller" where
  "NewController client net =
     (let m = NewManager client net
      in \<lparr>coQueue = mQueue m, coState = mState m, coNet = mNet m, coSlept = mSlept m,
          coJobs = NewInformer, coFlows = NewInformer, coJobsTold = 0, coFlowsTold = 0,
          coPhase = (\<lambda>i. Free), coLast = (\<lambda>k. None)\<rparr>)"

definition jobStoreSynced :: "('c, 'n) controller \<Rightarrow> bool" where
  "jobStoreSynced s \<longleftrightarrow> HasSynced (infFifo (coJobs s))"

fun seen_too :: "Job store \<Rightarrow> phase \<Rightarrow> phase" where
  "seen_too store (Got key b h) = Got key b (h @ [store])"
| "seen_too store p = p"

text \<open>The orders a transition uses are orders of the maps of the workflow it works on.\<close>

definition orders_given :: "Workflow store \<Rightarrow> string \<Rightarrow> 'c tenv \<Rightarrow> bool" where
  "orders_given store key env \<longleftrightarrow>
     (case fmlookup store key of
        None \<Rightarrow> True
      | Some w \<Rightarrow> range_order (wf_steps w) (teRange env) \<and> range_order (wf_steps w) (teStepOrder env)
                  \<and> selector_order (JobsSelector (Spec w)) (teLabelOrder env))"

lemma orders_given_obs: "orders_given store key (env\<lparr>teObs := f\<rparr>) = orders_given store key env"
  by (simp add: orders_given_def split: option.split)

text \<open>
  \<open>eq\<close> is \<^verbatim>\<open>api.Semantic.DeepEqual\<close> on jobs, \<open>upd\<close> the update handler.  The loop of an informer goes on
  when its handler has returned.
\<close>

inductive controller_step ::
  "(Job \<Rightarrow> Job \<Rightarrow> bool) \<Rightarrow> (Workflow \<Rightarrow> 'n \<Rightarrow> go_error option \<times> Workflow \<times> 'n) \<Rightarrow>
   ('c, 'n) controller \<Rightarrow> ('c, 'n) controller \<Rightarrow> bool" for eq upd where
  jobs_move: "informer_step jobMeta l (coJobs s) inf' \<Longrightarrow>
     (l = Internal \<Longrightarrow> coJobsTold s = length (infLog (coJobs s))) \<Longrightarrow>
     controller_step eq upd s (s\<lparr>coJobs := inf', coPhase := \<lambda>i. seen_too (infStore inf') (coPhase s i)\<rparr>)"
| jobs_tell: "coJobsTold s < length (infLog (coJobs s)) \<Longrightarrow> orders_ok so ks (mgr s) \<Longrightarrow>
     job_handler eq so ks (infLog (coJobs s) ! coJobsTold s) (mgr s) = Some m \<Longrightarrow>
     controller_step eq upd s ((put_back m s)\<lparr>coJobsTold := Suc (coJobsTold s)\<rparr>)"
| flows_move: "informer_step wfMeta l (coFlows s) inf' \<Longrightarrow>
     (l = Internal \<Longrightarrow> coFlowsTold s = length (infLog (coFlows s))) \<Longrightarrow>
     controller_step eq upd s (s\<lparr>coFlows := inf'\<rparr>)"
| flows_tell: "coFlowsTold s < length (infLog (coFlows s)) \<Longrightarrow>
     workflow_handler (infLog (coFlows s) ! coFlowsTold s) (mgr s) = m \<Longrightarrow>
     controller_step eq upd s ((put_back m s)\<lparr>coFlowsTold := Suc (coFlowsTold s)\<rparr>)"
| worker_gets: "coPhase s i = Free \<Longrightarrow> wq_Get (coQueue s) = (Item key, q) \<Longrightarrow>
     controller_step eq upd s
       (s\<lparr>coQueue := q, coPhase := (coPhase s)(i := Got key (jobStoreSynced s) [infStore (coJobs s)])\<rparr>)"
| worker_transits: "coPhase s i = Got key b h \<Longrightarrow>
     (\<And>x. obStore (teObs env x) \<in> set h \<and> range_order (obStore (teObs env x)) (obOrder (teObs env x))) \<Longrightarrow>
     (b \<longrightarrow> synced1) \<and> (synced1 \<longrightarrow> synced2) \<and> (synced2 \<longrightarrow> jobStoreSynced s)
       \<and> orders_given (infStore (coFlows s)) key env \<Longrightarrow>
     before = (coState s, coNet s, infStore (coFlows s)) \<Longrightarrow>
     transitionWorkflow env upd synced1 synced2 key before = Some r \<Longrightarrow> transState r = (st, n, store) \<Longrightarrow>
     controller_step eq upd s
       (s\<lparr>coState := st, coNet := n, coFlows := (coFlows s)\<lparr>infStore := store\<rparr>,
          coPhase := (coPhase s)(i := Ran key (requeue r) (requeueAfter r)),
          coLast := (coLast s)(key \<mapsto> \<lparr>viEnv = env, viSynced1 = synced1, viSynced2 = synced2,
                                         viBefore = before, viResult = r\<rparr>)\<rparr>)"
| worker_done: "coPhase s i = Ran key rq d \<Longrightarrow>
     m = (if rq then enqueueAfter key d (mgr s) else mgr s) \<Longrightarrow>
     controller_step eq upd s
       ((put_back m s)\<lparr>coQueue := wq_Done key (mQueue m), coPhase := (coPhase s)(i := Free)\<rparr>)"

text \<open>A run all of whose states satisfy \<open>Q\<close>.\<close>

inductive controller_run ::
  "(Job \<Rightarrow> Job \<Rightarrow> bool) \<Rightarrow> (Workflow \<Rightarrow> 'n \<Rightarrow> go_error option \<times> Workflow \<times> 'n) \<Rightarrow>
   (('c, 'n) controller \<Rightarrow> bool) \<Rightarrow> ('c, 'n) controller \<Rightarrow> ('c, 'n) controller \<Rightarrow> bool" for eq upd Q where
  run_start: "Q s \<Longrightarrow> controller_run eq upd Q s s"
| run_on: "controller_run eq upd Q s s1 \<Longrightarrow> controller_step eq upd s1 s2 \<Longrightarrow> Q s2 \<Longrightarrow> controller_run eq upd Q s s2"

section \<open>A round of a worker is three steps\<close>

lemma worker_round_steps:
  assumes "worker_round (transitionWorkflow env upd (jobStoreSynced s) (jobStoreSynced s)) (mgr s) = Round m"
    and "coPhase s i = Free"
    and "\<And>x. obStore (teObs env x) = infStore (coJobs s) \<and> range_order (infStore (coJobs s)) (obOrder (teObs env x))"
    and "\<And>key. orders_given (infStore (coFlows s)) key env"
  shows "\<exists>s1 s2 s3. controller_step eq upd s s1 \<and> controller_step eq upd s1 s2 \<and> controller_step eq upd s2 s3
     \<and> mgr s3 = m \<and> coPhase s3 = coPhase s"
proof -
  obtain res q1 where g: "wq_Get (coQueue s) = (res, q1)" by fastforce
  with assms(1) obtain key r where key: "res = Item key"
    and t: "transitionWorkflow env upd (jobStoreSynced s) (jobStoreSynced s) key (coState s, coNet s, infStore (coFlows s)) = Some r"
    by (auto simp: worker_round_def mgr_def split: get_result.splits option.splits)
  obtain st n store where r: "transState r = (st, n, store)" by (metis prod_cases3)
  define s1 where "s1 = s\<lparr>coQueue := q1, coPhase := (coPhase s)(i := Got key (jobStoreSynced s) [infStore (coJobs s)])\<rparr>"
  have 1: "controller_step eq upd s s1"
    unfolding s1_def using assms(2) g key by (intro worker_gets) simp_all
  let ?b = "(coState s1, coNet s1, infStore (coFlows s1))"
  define s2 where "s2 = s1\<lparr>coState := st, coNet := n, coFlows := (coFlows s1)\<lparr>infStore := store\<rparr>,
     coPhase := (coPhase s1)(i := Ran key (requeue r) (requeueAfter r)),
     coLast := (coLast s1)(key \<mapsto> \<lparr>viEnv = env, viSynced1 = jobStoreSynced s, viSynced2 = jobStoreSynced s,
       viBefore = ?b, viResult = r\<rparr>)\<rparr>"
  have syn: "jobStoreSynced s1 = jobStoreSynced s" by (simp add: s1_def jobStoreSynced_def)
  have ph: "coPhase s1 i = Got key (jobStoreSynced s) [infStore (coJobs s)]" by (simp add: s1_def)
  have t1: "transitionWorkflow env upd (jobStoreSynced s) (jobStoreSynced s) key ?b = Some r"
    using t by (simp add: s1_def)
  have 2: "controller_step eq upd s1 s2"
    unfolding s2_def
    by (rule worker_transits [OF ph _ _ refl t1 r]) (use assms(3,4) syn in \<open>simp_all add: s1_def jobStoreSynced_def\<close>)
  define m2 where "m2 = (if requeue r then enqueueAfter key (requeueAfter r) (mgr s2) else mgr s2)"
  define s3 where "s3 = (put_back m2 s2)\<lparr>coQueue := wq_Done key (mQueue m2), coPhase := (coPhase s2)(i := Free)\<rparr>"
  have 3: "controller_step eq upd s2 s3"
    unfolding s3_def by (rule worker_done [where d = "requeueAfter r"]) (simp_all add: s2_def m2_def)
  have m: "m = m2\<lparr>mQueue := wq_Done key (mQueue m2)\<rparr>"
    using assms(1) g key t r
    by (auto simp: worker_round_def m2_def s2_def s1_def mgr_def enqueueAfter_def Let_def split: option.splits)
  have "mgr s3 = m"
    by (simp add: m m2_def s3_def s2_def s1_def mgr_def put_back_def enqueueAfter_def Let_def)
  moreover have "coPhase s3 = coPhase s" using assms(2) by (auto simp: s3_def s2_def s1_def put_back_def)
  ultimately show ?thesis using 1 2 3 by blast
qed

section \<open>Running the controller\<close>

text \<open>What a scheduler chooses; \<open>moved\<close> is one step of an informer's loop.\<close>

datatype 'c act =
    JobCall "Job reflector_call" "string list"
  | JobMove
  | JobTell "Workflow \<Rightarrow> string list" "string list"
  | FlowCall "Workflow reflector_call" "string list"
  | FlowMove
  | FlowTell
  | Get nat
  | Transit nat bool bool "'c tenv" "string list"
  | Finish nat

definition moved :: "('o \<Rightarrow> ObjectMeta) \<Rightarrow> 'o informer \<Rightarrow> 'o informer option" where
  "moved meta st =
     (case infBatch st of
        d # ds \<Rightarrow> (let (s, ns) = apply_delta meta d (infStore st)
                   in Some (st\<lparr>infStore := s, infBatch := ds, infLog := infLog st @ ns\<rparr>))
      | [] \<Rightarrow> (case Fifo_Pop (infFifo st) of
                (None, f) \<Rightarrow> None
              | (Some ds, f) \<Rightarrow> Some (st\<lparr>infFifo := f, infBatch := ds\<rparr>)))"

lemma moved_step:
  assumes "moved meta st = Some st'"
  shows "informer_step meta Internal st st'"
proof (cases "infBatch st")
  case Nil
  with assms obtain ds f where "Fifo_Pop (infFifo st) = (Some ds, f)" "st' = st\<lparr>infFifo := f, infBatch := ds\<rparr>"
    by (auto simp: moved_def split: prod.splits option.splits)
  with loop_pops [OF Nil, of ds f] show ?thesis by blast
next
  case (Cons d ds)
  obtain s ns where a: "apply_delta meta d (infStore st) = (s, ns)" by fastforce
  with assms Cons have "st' = st\<lparr>infStore := s, infBatch := ds, infLog := infLog st @ ns\<rparr>" by (simp add: moved_def)
  with loop_processes [OF Cons a] show ?thesis by blast
qed

text \<open>A transition of this scheduler makes all its reads of the job cache at the same moment.\<close>

fun do_act ::
  "(Job \<Rightarrow> Job \<Rightarrow> bool) \<Rightarrow> (Workflow \<Rightarrow> 'n \<Rightarrow> go_error option \<times> Workflow \<times> 'n) \<Rightarrow> 'c act \<Rightarrow>
   ('c, 'n) controller \<Rightarrow> ('c, 'n) controller option" where
  "do_act eq upd (JobCall c ks) s =
     (if range_order (infStore (coJobs s)) ks
      then (let inf' = snd (sink jobMeta ks c (coJobs s))
            in Some (s\<lparr>coJobs := inf', coPhase := \<lambda>i. seen_too (infStore inf') (coPhase s i)\<rparr>))
      else None)"
| "do_act eq upd JobMove s =
     (if coJobsTold s = length (infLog (coJobs s))
      then map_option (\<lambda>inf'. s\<lparr>coJobs := inf', coPhase := \<lambda>i. seen_too (infStore inf') (coPhase s i)\<rparr>) (moved jobMeta (coJobs s))
      else None)"
| "do_act eq upd (JobTell so ks) s =
     (if coJobsTold s < length (infLog (coJobs s)) \<and> orders_ok so ks (mgr s)
      then map_option (\<lambda>m. (put_back m s)\<lparr>coJobsTold := Suc (coJobsTold s)\<rparr>)
             (job_handler eq so ks (infLog (coJobs s) ! coJobsTold s) (mgr s))
      else None)"
| "do_act eq upd (FlowCall c ks) s =
     (if range_order (infStore (coFlows s)) ks
      then Some (s\<lparr>coFlows := snd (sink wfMeta ks c (coFlows s))\<rparr>) else None)"
| "do_act eq upd FlowMove s =
     (if coFlowsTold s = length (infLog (coFlows s))
      then map_option (\<lambda>inf'. s\<lparr>coFlows := inf'\<rparr>) (moved wfMeta (coFlows s)) else None)"
| "do_act eq upd FlowTell s =
     (if coFlowsTold s < length (infLog (coFlows s))
      then Some ((put_back (workflow_handler (infLog (coFlows s) ! coFlowsTold s) (mgr s)) s)
                   \<lparr>coFlowsTold := Suc (coFlowsTold s)\<rparr>)
      else None)"
| "do_act eq upd (Get i) s =
     (case (coPhase s i, wq_Get (coQueue s)) of
        (Free, (Item key, q)) \<Rightarrow>
          Some (s\<lparr>coQueue := q, coPhase := (coPhase s)(i := Got key (jobStoreSynced s) [infStore (coJobs s)])\<rparr>)
      | _ \<Rightarrow> None)"
| "do_act eq upd (Transit i synced1 synced2 env ks) s =
     (case coPhase s i of
        Got key b h \<Rightarrow>
          (let env' = env\<lparr>teObs := \<lambda>x. (teObs env x)\<lparr>obStore := infStore (coJobs s), obOrder := ks\<rparr>\<rparr>;
               start = (coState s, coNet s, infStore (coFlows s))
           in if range_order (infStore (coJobs s)) ks \<and> infStore (coJobs s) \<in> set h
                \<and> (b \<longrightarrow> synced1) \<and> (synced1 \<longrightarrow> synced2) \<and> (synced2 \<longrightarrow> jobStoreSynced s)
                \<and> orders_given (infStore (coFlows s)) key env then
                (case transitionWorkflow env' upd synced1 synced2 key start of
                   None \<Rightarrow> None
                 | Some r \<Rightarrow>
                     (let (st, n, store) = transState r
                      in Some (s\<lparr>coState := st, coNet := n, coFlows := (coFlows s)\<lparr>infStore := store\<rparr>,
                           coPhase := (coPhase s)(i := Ran key (requeue r) (requeueAfter r)),
                           coLast := (coLast s)(key \<mapsto> \<lparr>viEnv = env', viSynced1 = synced1, viSynced2 = synced2,
                                                          viBefore = start, viResult = r\<rparr>)\<rparr>)))
              else None)
      | _ \<Rightarrow> None)"
| "do_act eq upd (Finish i) s =
     (case coPhase s i of
        Ran key rq d \<Rightarrow>
          (let m = (if rq then enqueueAfter key d (mgr s) else mgr s)
           in Some ((put_back m s)\<lparr>coQueue := wq_Done key (mQueue m), coPhase := (coPhase s)(i := Free)\<rparr>))
      | _ \<Rightarrow> None)"

fun do_acts where
  "do_acts eq upd Q [] s = (if Q s then Some s else None)"
| "do_acts eq upd Q (a # as) s =
     (if Q s then (case do_act eq upd a s of None \<Rightarrow> None | Some s' \<Rightarrow> do_acts eq upd Q as s') else None)"

lemma do_act_step:
  assumes "do_act eq upd a s = Some s'"
  shows "controller_step eq upd s s'"
proof (cases a)
  case (JobCall c ks)
  with assms have o: "range_order (infStore (coJobs s)) ks"
    and s': "s' = s\<lparr>coJobs := snd (sink jobMeta ks c (coJobs s)),
      coPhase := \<lambda>i. seen_too (infStore (snd (sink jobMeta ks c (coJobs s)))) (coPhase s i)\<rparr>"
    by (auto simp: Let_def simp del: sink.simps split: if_splits)
  show ?thesis unfolding s' by (rule jobs_move [OF reflector_calls [OF o prod.collapse [symmetric]]]) simp
next
  case JobMove
  with assms moved_step show ?thesis by (auto split: if_splits intro!: jobs_move)
next
  case (JobTell so ks)
  with assms show ?thesis by (auto split: if_splits intro!: jobs_tell)
next
  case (FlowCall c ks)
  with assms have o: "range_order (infStore (coFlows s)) ks" and s': "s' = s\<lparr>coFlows := snd (sink wfMeta ks c (coFlows s))\<rparr>"
    by (auto simp del: sink.simps split: if_splits)
  show ?thesis unfolding s' by (rule flows_move [OF reflector_calls [OF o prod.collapse [symmetric]]]) simp
next
  case FlowMove
  with assms moved_step show ?thesis by (auto split: if_splits intro!: flows_move)
next
  case FlowTell
  with assms show ?thesis by (auto split: if_splits intro!: flows_tell)
next
  case (Get i)
  with assms show ?thesis by (auto split: phase.splits prod.splits get_result.splits intro!: worker_gets)
next
  case (Transit i synced1 synced2 env ks)
  show ?thesis
  proof (cases "coPhase s i")
    case (Got key b h)
    let ?env = "env\<lparr>teObs := \<lambda>x. (teObs env x)\<lparr>obStore := infStore (coJobs s), obOrder := ks\<rparr>\<rparr>"
    let ?before = "(coState s, coNet s, infStore (coFlows s))"
    from assms Transit Got obtain r st n store where
      t: "transitionWorkflow ?env upd synced1 synced2 key ?before = Some r"
      and r: "transState r = (st, n, store)"
      and o: "range_order (infStore (coJobs s)) ks" "infStore (coJobs s) \<in> set h"
        "(b \<longrightarrow> synced1) \<and> (synced1 \<longrightarrow> synced2) \<and> (synced2 \<longrightarrow> jobStoreSynced s)
           \<and> orders_given (infStore (coFlows s)) key env"
      and s': "s' = s\<lparr>coState := st, coNet := n, coFlows := (coFlows s)\<lparr>infStore := store\<rparr>,
           coPhase := (coPhase s)(i := Ran key (requeue r) (requeueAfter r)),
           coLast := (coLast s)(key \<mapsto> \<lparr>viEnv = ?env, viSynced1 = synced1, viSynced2 = synced2,
                                          viBefore = ?before, viResult = r\<rparr>)\<rparr>"
      by (auto simp: Let_def split: if_splits option.splits prod.splits)
    show ?thesis unfolding s'
      by (rule worker_transits [OF Got _ _ refl t r]) (use o in \<open>simp_all add: orders_given_obs\<close>)
  qed (use assms Transit in simp_all)
next
  case (Finish i)
  show ?thesis
  proof (cases "coPhase s i")
    case (Ran key rq d)
    with assms Finish show ?thesis by (auto simp: Let_def intro!: worker_done)
  qed (use assms Finish in simp_all)
qed

lemma do_acts_run:
  "do_acts eq upd Q as s1 = Some s2 \<Longrightarrow> controller_run eq upd Q s s1 \<Longrightarrow> controller_run eq upd Q s s2"
proof (induction as arbitrary: s1)
  case (Cons a as)
  then obtain s' where d: "do_act eq upd a s1 = Some s'" "do_acts eq upd Q as s' = Some s2"
    by (auto split: if_splits option.splits)
  from d(2) have "Q s'" by (cases as) (auto split: if_splits)
  with Cons.IH [OF d(2)] run_on [OF Cons.prems(2) do_act_step [OF d(1)]] show ?case by blast
qed (simp split: if_splits)

lemma do_acts_start: "do_acts eq upd Q as s = Some s' \<Longrightarrow> Q s"
  by (cases as) (auto split: if_splits)

text \<open>Workers a schedule does not mention stay free.\<close>

fun of_workers :: "nat \<Rightarrow> 'c act \<Rightarrow> bool" where
  "of_workers n (Get i) = (i < n)"
| "of_workers n (Transit i synced1 synced2 env ks) = (i < n)"
| "of_workers n (Finish i) = (i < n)"
| "of_workers n a = True"

lemma do_act_free:
  assumes "do_act eq upd a s = Some s'" and "of_workers n a" and "n \<le> i" and "coPhase s i = Free"
  shows "coPhase s' i = Free"
  using assms
  by (cases a) (auto simp: put_back_def Let_def simp del: sink.simps
      split: if_splits phase.splits option.splits get_result.splits prod.splits)

lemma do_acts_free:
  "do_acts eq upd Q as s = Some s' \<Longrightarrow> list_all (of_workers n) as \<Longrightarrow> n \<le> i \<Longrightarrow> coPhase s i = Free \<Longrightarrow> coPhase s' i = Free"
proof (induction as arbitrary: s)
  case (Cons a as)
  then show ?case by (auto split: if_splits option.splits intro: do_act_free)
qed (simp split: if_splits)

end
