(* ===== verification/Wakeups.thy ===== *)
theory Wakeups
  imports Controller Liveness
begin

text \<open>
  No wakeup is lost, over the running controller of theory Controller: the invariant says of every
  unfinished workflow of the cache that its key is waiting in the queue, or a handler is about to put
  it there, or a worker has taken it and every read of the jobs it may do is good, or its last
  transition saw what is there now.
\<close>

section \<open>Notifications\<close>

fun event_key :: "('o \<Rightarrow> ObjectMeta) \<Rightarrow> 'o event_obj \<Rightarrow> string option" where
  "event_key meta (Object x) = Some (MetaNamespaceKeyFunc (meta x))"
| "event_key meta (DeletedFinalStateUnknown k x) = Some k"
| "event_key meta OtherObject = None"

fun note_key :: "('o \<Rightarrow> ObjectMeta) \<Rightarrow> 'o notification \<Rightarrow> string option" where
  "note_key meta (OnAdd x) = Some (MetaNamespaceKeyFunc (meta x))"
| "note_key meta (OnUpdate old x) = Some (MetaNamespaceKeyFunc (meta x))"
| "note_key meta (OnDelete obj) = event_key meta obj"

text \<open>An update the job handler does not react to.\<close>

fun unchanged :: "('o \<Rightarrow> 'o \<Rightarrow> bool) \<Rightarrow> 'o notification \<Rightarrow> bool" where
  "unchanged eq (OnUpdate old x) = eq old x"
| "unchanged eq n = False"

text \<open>A tombstone carries the object that was deleted.\<close>

fun sound_event :: "('o \<Rightarrow> ObjectMeta) \<Rightarrow> 'o event_obj \<Rightarrow> bool" where
  "sound_event meta (Object x) = True"
| "sound_event meta (DeletedFinalStateUnknown k x) = (case x of None \<Rightarrow> False | Some y \<Rightarrow> MetaNamespaceKeyFunc (meta y) = k)"
| "sound_event meta OtherObject = False"

definition sound_delta :: "('o \<Rightarrow> ObjectMeta) \<Rightarrow> 'o delta \<Rightarrow> bool" where
  "sound_delta meta d \<longleftrightarrow> sound_event meta (snd d) \<and> (fst d = Deleted \<or> (\<exists>x. snd d = Object x))"

fun sound_note :: "('o \<Rightarrow> ObjectMeta) \<Rightarrow> 'o notification \<Rightarrow> bool" where
  "sound_note meta (OnDelete obj) = sound_event meta obj"
| "sound_note meta n = True"

text \<open>What a notification says of the cache before and after.\<close>

fun tells :: "'o notification \<Rightarrow> 'o option \<Rightarrow> 'o option \<Rightarrow> bool" where
  "tells (OnAdd x) was now \<longleftrightarrow> now = Some x"
| "tells (OnUpdate old x) was now \<longleftrightarrow> was = Some old \<and> now = Some x"
| "tells (OnDelete obj) was now \<longleftrightarrow> now = None"

lemma apply_delta_tells:
  assumes "apply_delta meta d s = (s', ns)" and "sound_delta meta d"
  shows "\<exists>n k. ns = [n] \<and> sound_note meta n \<and> note_key meta n = Some k
     \<and> tells n (fmlookup s k) (fmlookup s' k) \<and> (\<forall>j. j \<noteq> k \<longrightarrow> fmlookup s' j = fmlookup s j)"
proof -
  obtain t obj where d: "d = (t, obj)" by fastforce
  show ?thesis
  proof (cases "t = Deleted")
    case True
    with assms d obtain k where "event_key meta obj = Some k" "KeyFunc meta obj = Inr k"
      by (cases obj) (simp_all add: sound_delta_def)
    with assms d True show ?thesis
      by (intro exI [of _ "OnDelete obj"] exI [of _ k]) (auto simp: sound_delta_def store_drop_def)
  next
    case False
    with assms(2) d obtain x where x: "obj = Object x" by (auto simp: sound_delta_def)
    with assms(1) d False have
      "apply_delta meta (t, Object x) s =
         (case Store_Get meta s x of
            Some old \<Rightarrow> (Store_Update meta x s, [OnUpdate old x])
          | None \<Rightarrow> (Store_Add meta x s, [OnAdd x]))"
      by (cases t) simp_all
    with assms(1) d x show ?thesis
      by (auto simp: Store_Get_def Store_GetByKey_def Store_Update_def Store_Add_def split: option.splits)
  qed
qed

section \<open>An informer with its tombstones in order\<close>

definition informer_good :: "('o \<Rightarrow> ObjectMeta) \<Rightarrow> 'o informer \<Rightarrow> bool" where
  "informer_good meta st \<longleftrightarrow> informer_ok meta st \<and> holds_only (sound_delta meta) st"

lemma informer_good_New: "informer_good meta NewInformer"
proof -
  have "holds_only (sound_delta meta) NewInformer" by (simp add: holds_only_def NewInformer_def NewDeltaFIFO_def)
  then show ?thesis by (simp add: informer_good_def informer_ok_New)
qed

lemma informer_good_step:
  assumes "informer_step meta l st st'" and "informer_good meta st"
  shows "informer_good meta st'"
proof -
  have ok: "informer_ok meta st" and h: "holds_only (sound_delta meta) st"
    using assms(2) by (simp_all add: informer_good_def)
  have keyed: "MetaNamespaceKeyFunc (meta x) = k" if "fmlookup (infStore st) k = Some x" for k x
    using ok that by (auto simp: informer_ok_def store_keyed_def fmpred_iff)
  have "holds_only (sound_delta meta) st'"
  proof (cases l)
    case Internal
    with assms(1) internal_only(1) [OF _ h] show ?thesis by blast
  next
    case (Call c)
    with assms(1) obtain ks err where r: "range_order (infStore st) ks" and k: "sink meta ks c st = (err, st')"
      by (auto elim: call_stepE)
    have "carries (sound_delta meta) (infStore st) c"
      using keyed by (cases c) (simp_all add: sound_delta_def fmpred_iff list_all_iff)
    with sink_holds [OF k h r] show ?thesis .
  qed
  with informer_step_ok [OF assms(1) ok] show ?thesis by (simp add: informer_good_def)
qed

text \<open>A step leaves cache and log alone, or changes the cache at one key and logs it.\<close>

lemma informer_moves:
  assumes "informer_step meta l st st'" and "informer_good meta st"
  obtains (quiet) "infStore st' = infStore st" "infLog st' = infLog st"
    | (news) n k where "l = Internal" "infLog st' = infLog st @ [n]" "sound_note meta n" "note_key meta n = Some k"
        "tells n (fmlookup (infStore st) k) (fmlookup (infStore st') k)"
        "\<And>j. j \<noteq> k \<Longrightarrow> fmlookup (infStore st') j = fmlookup (infStore st) j"
  using assms(1)
proof (cases rule: informer_step.cases)
  case (reflector_calls ks c err)
  with sink_frame [OF reflector_calls(3)] quiet show ?thesis by simp
next
  case (loop_pops ds f)
  with quiet show ?thesis by simp
next
  case (loop_processes d ds s ns)
  have "sound_delta meta d" using assms(2) loop_processes(3) by (simp add: informer_good_def holds_only_def)
  from apply_delta_tells [OF loop_processes(4) this] loop_processes(1,2) news show ?thesis by auto
qed

section \<open>What a transition does to the cache of workflows\<close>

lemma cached_after_facts:
  "IsFinished (cached_after w w') = IsFinished w"
  "MetaNamespaceKeyFunc (wfMeta (cached_after w w')) = MetaNamespaceKeyFunc (wfMeta w)"
  by (simp_all add: cached_after_def IsFinished_def Let_def set_statuses_def set_selector_def set_meta_labels_def
      MetaNamespaceKeyFunc_def)

lemma transition_cache:
  assumes "transitionWorkflow env upd a b key (st, n, store) = Some r" and "transState r = (st', n', store')"
  shows "store' = store \<or> (\<exists>w w'. fmlookup store key = Some w \<and> store' = fmupd key (cached_after w w') store)"
  using assms
  by (auto simp: transitionWorkflow_def workflowByKey_def Store_GetByKey_def Let_def
      split: option.splits if_splits prod.splits)

lemma transition_cache_lookup:
  assumes "transitionWorkflow env upd a b key (st, n, store) = Some r" and "transState r = (st', n', store')"
  shows "k \<noteq> key \<Longrightarrow> fmlookup store' k = fmlookup store k"
    and "fmlookup store' k = Some w' \<Longrightarrow>
           \<exists>w. fmlookup store k = Some w \<and> IsFinished w' = IsFinished w
             \<and> MetaNamespaceKeyFunc (wfMeta w') = MetaNamespaceKeyFunc (wfMeta w)"
  using transition_cache [OF assms] by (auto simp: cached_after_facts split: if_splits)

section \<open>Sane states\<close>

definition told_ok :: "('o \<Rightarrow> ObjectMeta) \<Rightarrow> nat \<Rightarrow> 'o informer \<Rightarrow> bool" where
  "told_ok meta told st \<longleftrightarrow>
     told \<le> length (infLog st) \<and> length (infLog st) \<le> Suc told
     \<and> (told < length (infLog st) \<longrightarrow> sound_note meta (infLog st ! told))"

text \<open>The notification whose handler has not returned yet.\<close>

definition untold :: "nat \<Rightarrow> 'o informer \<Rightarrow> 'o notification option" where
  "untold told st = (if told < length (infLog st) then Some (infLog st ! told) else None)"

lemma told_ok_untold: "told_ok meta told st \<Longrightarrow> untold told st = Some n \<Longrightarrow> sound_note meta n \<and> length (infLog st) = Suc told"
  by (auto simp: told_ok_def untold_def split: if_splits)

lemma told_ok_step:
  assumes "informer_step meta l st st'" and "informer_good meta st" and "told_ok meta told st"
    and "l = Internal \<Longrightarrow> told = length (infLog st)"
  shows "told_ok meta told st'"
  using assms(1,2) by (cases rule: informer_moves) (use assms(3,4) in \<open>auto simp: told_ok_def\<close>)

definition held_key :: "phase \<Rightarrow> string option" where
  "held_key p = (case p of Free \<Rightarrow> None | Got k b h \<Rightarrow> Some k | Ran k rq d \<Rightarrow> Some k)"

definition held :: "('c, 'n) controller \<Rightarrow> nat \<Rightarrow> string option" where
  "held s i = held_key (coPhase s i)"

definition visited :: "(Workflow \<Rightarrow> 'n \<Rightarrow> go_error option \<times> Workflow \<times> 'n) \<Rightarrow> string \<Rightarrow> ('c, 'n) visit \<Rightarrow> bool" where
  "visited upd k v \<longleftrightarrow>
     transitionWorkflow (viEnv v) upd (viSynced1 v) (viSynced2 v) k (viBefore v) = Some (viResult v)
     \<and> (viSynced1 v \<longrightarrow> viSynced2 v) \<and> orders_given (snd (snd (viBefore v))) k (viEnv v)"

definition sane :: "(Workflow \<Rightarrow> 'n \<Rightarrow> go_error option \<times> Workflow \<times> 'n) \<Rightarrow> ('c, 'n) controller \<Rightarrow> bool" where
  "sane upd s \<longleftrightarrow>
     wq_inv (coQueue s) \<and> held_inv (processing (coQueue s)) (held s) \<and> \<not> shuttingDown (coQueue s)
     \<and> informer_good jobMeta (coJobs s) \<and> told_ok jobMeta (coJobsTold s) (coJobs s)
     \<and> informer_good wfMeta (coFlows s) \<and> told_ok wfMeta (coFlowsTold s) (coFlows s)
     \<and> (\<forall>old w v. untold (coFlowsTold s) (coFlows s) = Some (OnUpdate old w) \<longrightarrow>
          fmlookup (infStore (coFlows s)) (MetaNamespaceKeyFunc (wfMeta w)) = Some v \<longrightarrow> IsFinished v = IsFinished w)
     \<and> (\<forall>k v. coLast s k = Some v \<longrightarrow> visited upd k v)"

lemma saneD:
  assumes "sane upd s"
  shows "wq_inv (coQueue s)" "held_inv (processing (coQueue s)) (held s)" "\<not> shuttingDown (coQueue s)"
    and "informer_good jobMeta (coJobs s)" "told_ok jobMeta (coJobsTold s) (coJobs s)"
    and "informer_good wfMeta (coFlows s)" "told_ok wfMeta (coFlowsTold s) (coFlows s)"
    and "untold (coFlowsTold s) (coFlows s) = Some (OnUpdate old w) \<Longrightarrow>
          fmlookup (infStore (coFlows s)) (MetaNamespaceKeyFunc (wfMeta w)) = Some v \<Longrightarrow> IsFinished v = IsFinished w"
    and "coLast s k = Some u \<Longrightarrow> visited upd k u"
  using assms unfolding sane_def by blast+

text \<open>What the handlers can do to the manager's state.\<close>

definition handled :: "('c, 'n) mstate \<Rightarrow> ('c, 'n) mstate \<Rightarrow> bool" where
  "handled m m' \<longleftrightarrow>
     (mQueue m' = mQueue m \<or> (\<exists>k. mQueue m' = wq_Add k (mQueue m))) \<and> mSlept m' = mSlept m"

lemma handled_enqueue: "handled m (enqueueWorkflow obj m)"
  by (auto simp: handled_def enqueueWorkflow_def split: sum.split)

lemma handled_job: "job_handler eq so ks n m = Some m' \<Longrightarrow> handled m m'"
proof (cases n)
  case (OnAdd job)
  assume h: "job_handler eq so ks n m = Some m'"
  then show ?thesis
    unfolding OnAdd
    by (auto simp: addJob_def Let_def handled_def enqueueWorkflow_def split: option.splits sum.splits prod.splits)
qed (auto simp: updateJob_def deleteJob_def Let_def handled_def enqueueWorkflow_def
    split: option.splits sum.splits prod.splits if_splits)

lemma handled_flow: "handled m (workflow_handler n m)"
  by (cases n; simp add: onAddWorkflow_def onUpdateWorkflow_def onDeleteWorkflow_def handled_enqueue)
    (simp add: handled_def)

lemma wq_Add_shuttingDown [simp]: "shuttingDown (wq_Add k q) = shuttingDown q"
  by (simp add: wq_Add_def Let_def)

lemma handled_queue:
  assumes "handled (mgr s) m" and "sane upd s"
  shows "wq_inv (mQueue m)" "held_inv (processing (mQueue m)) (held s)" "\<not> shuttingDown (mQueue m)"
    and "dirty (coQueue s) \<subseteq> dirty (mQueue m)"
proof -
  have "mQueue m = coQueue s \<or> (\<exists>k. mQueue m = wq_Add k (coQueue s))"
    using assms(1) by (simp add: handled_def mgr_def)
  then show "wq_inv (mQueue m)" "held_inv (processing (mQueue m)) (held s)" "\<not> shuttingDown (mQueue m)"
    "dirty (coQueue s) \<subseteq> dirty (mQueue m)"
    using saneD(1-3) [OF assms(2)] wq_inv_Add by (auto simp: wq.add_active wq.add_pending)
qed

lemma handled_enqueueAfter:
  "\<exists>m1. handled m m1 \<and> mQueue m1 = mQueue (enqueueAfter key d m) \<and> mState (enqueueAfter key d m) = mState m"
  by (intro exI [of _ "m\<lparr>mQueue := wq_Add key (mQueue m)\<rparr>"]) (auto simp: handled_def enqueueAfter_def Let_def)

lemma held_seen_too: "held_key (seen_too st p) = held_key p"
  by (cases p) (simp_all add: held_key_def)

lemma informer_good_cached:
  assumes "informer_good wfMeta st"
    and "\<And>k w'. fmlookup store k = Some w' \<Longrightarrow> \<exists>w. fmlookup (infStore st) k = Some w
           \<and> MetaNamespaceKeyFunc (wfMeta w') = MetaNamespaceKeyFunc (wfMeta w)"
  shows "informer_good wfMeta (st\<lparr>infStore := store\<rparr>)"
proof -
  have "store_keyed wfMeta store"
    using assms by (fastforce simp: informer_good_def informer_ok_def store_keyed_def fmpred_iff)
  with assms(1) show ?thesis by (auto simp: informer_good_def informer_ok_def holds_only_def split: sum.splits)
qed

lemma sane_step:
  assumes "controller_step eq upd s s'" and "sane upd s"
  shows "sane upd s'"
  using assms(1)
proof (cases rule: controller_step.cases)
  case (jobs_move l inf')
  have "held s' = held s" unfolding held_def jobs_move(1) by (simp add: held_seen_too fun_eq_iff held_def)
  with assms(2) informer_good_step [OF jobs_move(2)] told_ok_step [OF jobs_move(2) _ _ jobs_move(3)] jobs_move(1)
  show ?thesis by (simp add: sane_def)
next
  case (jobs_tell so ks m)
  have "length (infLog (coJobs s)) = Suc (coJobsTold s)"
    using saneD(5) [OF assms(2)] jobs_tell(2) by (simp add: told_ok_def)
  moreover have "held s' = held s" using jobs_tell(1) by (simp add: held_def [abs_def] put_back_def)
  ultimately show ?thesis
    using jobs_tell(1) handled_queue [OF handled_job [OF jobs_tell(4)] assms(2)] assms(2)
    by (simp add: sane_def put_back_def told_ok_def)
next
  case (flows_move l inf')
  have "IsFinished v = IsFinished w"
    if u: "untold (coFlowsTold s) inf' = Some (OnUpdate old w)"
      and v: "fmlookup (infStore inf') (MetaNamespaceKeyFunc (wfMeta w)) = Some v" for old w v
    using flows_move(2) saneD(6) [OF assms(2)]
  proof (cases rule: informer_moves)
    case quiet
    have "untold (coFlowsTold s) inf' = untold (coFlowsTold s) (coFlows s)" unfolding untold_def quiet(2) ..
    with u v saneD(8) [OF assms(2), of old w v] quiet(1) show ?thesis by simp
  next
    case (news n k)
    with flows_move(3) u have "n = OnUpdate old w" by (simp add: untold_def)
    with news v show ?thesis by auto
  qed
  moreover have "held s' = held s" using flows_move(1) by (simp add: held_def [abs_def])
  ultimately show ?thesis
    using assms(2) informer_good_step [OF flows_move(2)] told_ok_step [OF flows_move(2) _ _ flows_move(3)] flows_move(1)
    by (simp add: sane_def)
next
  case (flows_tell m)
  have "length (infLog (coFlows s)) = Suc (coFlowsTold s)"
    using saneD(7) [OF assms(2)] flows_tell(2) by (simp add: told_ok_def)
  moreover have "held s' = held s" using flows_tell(1) by (simp add: held_def [abs_def] put_back_def)
  moreover have "handled (mgr s) m" using handled_flow flows_tell(3) by blast
  ultimately show ?thesis
    using flows_tell(1) handled_queue [OF _ assms(2)] assms(2)
    by (simp add: sane_def put_back_def told_ok_def untold_def)
next
  case (worker_gets i key q)
  have h: "held s' = (held s)(i := Some key)" using worker_gets(1) by (auto simp: held_def held_key_def)
  have "held s i = None" using worker_gets(2) by (simp add: held_def held_key_def)
  then have "wq_step (coQueue s, held s) (q, (held s)(i := Some key))" using worker_gets(3) by (rule q_get)
  from wq.held_step [OF this saneD(1,2) [OF assms(2)]]
  have "wq_inv q \<and> held_inv (processing q) (held s')" by (simp add: h)
  moreover have "shuttingDown q = shuttingDown (coQueue s)"
    using worker_gets(3) by (auto simp: wq_Get_def split: list.splits if_splits)
  ultimately show ?thesis using worker_gets(1) assms(2) by (simp add: sane_def)
next
  case (worker_transits i key b h env synced1 synced2 before r st n store)
  have "held s' = held s" using worker_transits(1,2) by (auto simp: held_def held_key_def fun_eq_iff)
  note cache = transition_cache_lookup(2) [OF worker_transits(6) [unfolded worker_transits(5)] worker_transits(7)]
  have "informer_good wfMeta ((coFlows s)\<lparr>infStore := store\<rparr>)"
    by (rule informer_good_cached [OF saneD(6) [OF assms(2)]]) (use cache in blast)
  moreover have "IsFinished v = IsFinished w"
    if "untold (coFlowsTold s) (coFlows s) = Some (OnUpdate old w)"
      "fmlookup store (MetaNamespaceKeyFunc (wfMeta w)) = Some v" for old w v
    using cache [OF that(2)] saneD(8) [OF assms(2) that(1)] by auto
  moreover have "visited upd key \<lparr>viEnv = env, viSynced1 = synced1, viSynced2 = synced2, viBefore = before, viResult = r\<rparr>"
    using worker_transits(4-6) by (simp add: visited_def)
  ultimately show ?thesis
    using worker_transits(1) assms(2) \<open>held s' = held s\<close> by (simp add: sane_def told_ok_def untold_def)
next
  case (worker_done i key rq d m)
  obtain m1 where m1: "handled (mgr s) m1" "mQueue m1 = mQueue m"
    using worker_done(3) handled_enqueueAfter [of "mgr s" key d] by (auto simp: handled_def split: if_splits)
  note q = handled_queue [OF m1(1) assms(2), unfolded m1(2)]
  have h: "held s' = (held s)(i := None)" using worker_done(1) by (auto simp: held_def held_key_def put_back_def)
  have "held s i = Some key" using worker_done(2) by (simp add: held_def held_key_def)
  then have "wq_step (mQueue m, held s) (wq_Done key (mQueue m), (held s)(i := None))" by (rule q_done)
  from wq.held_step [OF this q(1,2)]
  have "wq_inv (wq_Done key (mQueue m)) \<and> held_inv (processing (wq_Done key (mQueue m))) (held s')" by (simp add: h)
  moreover have "shuttingDown (wq_Done key (mQueue m)) = shuttingDown (mQueue m)" by (simp add: wq_Done_def Let_def)
  ultimately show ?thesis using worker_done(1) q(3) assms(2) by (simp add: sane_def put_back_def)
qed

lemma sane_New: "sane upd (NewController client net)"
proof -
  have "held (NewController client net) = (\<lambda>i. None)"
    by (simp add: held_def [abs_def] held_key_def NewController_def Let_def)
  moreover have "infLog (NewInformer :: Job informer) = []" "infLog (NewInformer :: Workflow informer) = []"
    by (simp_all add: NewInformer_def)
  ultimately show ?thesis
    by (simp add: sane_def NewController_def NewManager_def Let_def wq_inv_New informer_good_New told_ok_def untold_def
        held_inv_def) (simp add: wq_New_def)
qed

section \<open>Attended workflows\<close>

text \<open>
  \<open>own\<close> says which workflow a job belongs to, by their keys.  Two job caches show a workflow the same
  jobs if they agree, up to \<open>eq\<close>, on the jobs that belong to it.
\<close>

definition same_jobs :: "(Job \<Rightarrow> Job \<Rightarrow> bool) \<Rightarrow> (string \<Rightarrow> string) \<Rightarrow> string \<Rightarrow> Job store \<Rightarrow> Job store \<Rightarrow> bool" where
  "same_jobs eq own k st st' \<longleftrightarrow> (\<forall>j. own j = k \<longrightarrow> rel_option eq (fmlookup st j) (fmlookup st' j))"

definition waking :: "(Job \<Rightarrow> Job \<Rightarrow> bool) \<Rightarrow> (string \<Rightarrow> string) \<Rightarrow> ('c, 'n) controller \<Rightarrow> string \<Rightarrow> bool" where
  "waking eq own s k \<longleftrightarrow>
     (\<exists>n j. untold (coJobsTold s) (coJobs s) = Some n \<and> note_key jobMeta n = Some j \<and> own j = k \<and> \<not> unchanged eq n)
     \<or> (\<exists>n. untold (coFlowsTold s) (coFlows s) = Some n \<and> note_key wfMeta n = Some k)"

definition store_left :: "('c, 'n) visit \<Rightarrow> Workflow store" where
  "store_left v = snd (snd (transState (viResult v)))"

definition up_to_date :: "(Job \<Rightarrow> Job \<Rightarrow> bool) \<Rightarrow> (string \<Rightarrow> string) \<Rightarrow> ('c, 'n) controller \<Rightarrow> string \<Rightarrow> ('c, 'n) visit \<Rightarrow> bool" where
  "up_to_date eq own s k v \<longleftrightarrow>
     (\<forall>x. same_jobs eq own k (obStore (teObs (viEnv v) x)) (infStore (coJobs s)))
     \<and> fmlookup (infStore (coFlows s)) k = fmlookup (store_left v) k
     \<and> (requeue (viResult v) \<longrightarrow> (\<exists>i d. coPhase s i = Ran k True d))"

definition caught_up :: "(Job \<Rightarrow> Job \<Rightarrow> bool) \<Rightarrow> (string \<Rightarrow> string) \<Rightarrow> ('c, 'n) controller \<Rightarrow> string \<Rightarrow> bool" where
  "caught_up eq own s k \<longleftrightarrow>
     (\<forall>i b h st. coPhase s i = Got k b h \<longrightarrow> st \<in> set h \<longrightarrow> same_jobs eq own k st (infStore (coJobs s)))
     \<and> ((\<exists>i b h. coPhase s i = Got k b h) \<or> (\<exists>v. coLast s k = Some v \<and> up_to_date eq own s k v))"

definition attended :: "(Job \<Rightarrow> Job \<Rightarrow> bool) \<Rightarrow> (string \<Rightarrow> string) \<Rightarrow> ('c, 'n) controller \<Rightarrow> string \<Rightarrow> bool" where
  "attended eq own s k \<longleftrightarrow> k \<in> dirty (coQueue s) \<or> waking eq own s k \<or> caught_up eq own s k"

text \<open>
  What is assumed of the jobs: the job of a notification is selected by the workflow it belongs to,
  if that is cached, and by no other.
\<close>

fun note_job :: "Job notification \<Rightarrow> Job option" where
  "note_job (OnAdd x) = Some x"
| "note_job (OnUpdate old x) = Some x"
| "note_job (OnDelete (Object x)) = Some x"
| "note_job (OnDelete (DeletedFinalStateUnknown k x)) = x"
| "note_job (OnDelete OtherObject) = None"

definition routed :: "(string \<Rightarrow> string) \<Rightarrow> ('c, 'n) controller \<Rightarrow> bool" where
  "routed own s \<longleftrightarrow>
     (case untold (coJobsTold s) (coJobs s) of
        None \<Rightarrow> True
      | Some n \<Rightarrow>
          (case note_job n of
             None \<Rightarrow> True
           | Some j \<Rightarrow> fmpred (\<lambda>k w. selects w j \<longleftrightarrow> own (MetaNamespaceKeyFunc (jobMeta j)) = k) (infStore (coFlows s))))"

lemma same_jobs_refl: "reflp eq \<Longrightarrow> same_jobs eq own k st st"
  by (auto simp: same_jobs_def option.rel_refl reflpD)

lemma same_jobs_trans:
  assumes "transp eq" and "same_jobs eq own k st1 st2" and "same_jobs eq own k st2 st3"
  shows "same_jobs eq own k st1 st3"
  using assms(2,3) transpD [OF option.rel_transp [OF assms(1)]] unfolding same_jobs_def by blast

lemma same_jobs_news:
  assumes "reflp eq" and "tells n (fmlookup st j) (fmlookup st' j)"
    and "\<And>i. i \<noteq> j \<Longrightarrow> fmlookup st' i = fmlookup st i" and "own j \<noteq> k \<or> unchanged eq n"
  shows "same_jobs eq own k st st'"
  unfolding same_jobs_def
proof (intro allI impI)
  fix i assume "own i = k"
  show "rel_option eq (fmlookup st i) (fmlookup st' i)"
  proof (cases "i = j")
    case True
    with assms(2,4) \<open>own i = k\<close> show ?thesis by (cases n) auto
  next
    case False
    with assms(1,3) show ?thesis by (auto simp: option.rel_refl reflpD)
  qed
qed

lemma held_Got: "coPhase s i = Got k b h \<Longrightarrow> held s i = Some k"
  by (simp add: held_def held_key_def)

lemma one_worker: "sane upd s \<Longrightarrow> held s i = Some k \<Longrightarrow> held s j = Some k \<Longrightarrow> i = j"
  by (auto simp: sane_def held_inv_def inj_on_def dom_def)

lemma caught_up_cong:
  assumes "infStore (coJobs s') = infStore (coJobs s)" and "coPhase s' = coPhase s" and "coLast s' = coLast s"
    and "fmlookup (infStore (coFlows s')) k = fmlookup (infStore (coFlows s)) k"
  shows "caught_up eq own s' k = caught_up eq own s k"
  unfolding caught_up_def up_to_date_def assms ..

section \<open>The handlers wake\<close>

lemma job_handler_wakes:
  assumes h: "job_handler eq so ks n m = Some m'" and o: "orders_ok so ks m" and "sound_note jobMeta n"
    and "\<not> unchanged eq n" and "note_key jobMeta n = Some i" and "\<not> shuttingDown (mQueue m)"
    and keyed: "store_keyed wfMeta (mWorkflows m)" and w: "fmlookup (mWorkflows m) (own i) = Some w"
    and routed: "\<And>j k w. note_job n = Some j \<Longrightarrow> fmlookup (mWorkflows m) k = Some w \<Longrightarrow>
           selects w j \<longleftrightarrow> own (MetaNamespaceKeyFunc (jobMeta j)) = k"
  shows "own i \<in> dirty (mQueue m')"
proof -
  obtain j where j: "note_job n = Some j" "MetaNamespaceKeyFunc (jobMeta j) = i"
    using assms(3,5) by (cases n rule: note_job.cases) (auto split: option.splits)
  obtain r where r: "getJobWorkflow so ks j m = Some r"
    using h j(1) assms(4) by (cases n rule: note_job.cases)
      (auto simp: addJob_def updateJob_def deleteJob_def Let_def split: option.splits)
  note found = getJobWorkflow_Some [OF o r]
  have "selects w j" using routed [OF j(1) w] j(2) by simp
  with found w obtain v where v: "r = Some v" by (cases r) auto
  with found obtain k where "selects v j" "fmlookup (mWorkflows m) k = Some v" by auto
  with routed [OF j(1)] j(2) have "fmlookup (mWorkflows m) (own i) = Some v" by auto
  then have "MetaNamespaceKeyFunc (wfMeta v) = own i" using keyed by (simp add: store_keyed_def fmpred_iff)
  moreover have "\<exists>m1. m' = enqueueWorkflow (Object v) m1 \<and> mQueue m1 = mQueue m"
  proof (cases n)
    case (OnAdd job)
    let ?m1 = "m\<lparr>mState := (mState m)\<lparr>exps :=
        snd (CreationObserved (exps (mState m)) (MetaNamespaceKeyFunc (wfMeta v)) (label_of j WorkflowStepLabelKey))\<rparr>\<rparr>"
    from OnAdd h j(1) r v have "m' = enqueueWorkflow (Object v) ?m1"
      by (simp add: addJob_def Let_def split: prod.splits)
    moreover have "mQueue ?m1 = mQueue m" by simp
    ultimately show ?thesis by blast
  next
    case (OnUpdate old job)
    with h j(1) r v assms(4) have "m' = enqueueWorkflow (Object v) m" by (simp add: updateJob_def)
    then show ?thesis by blast
  next
    case (OnDelete obj)
    with h j(1) r v have "m' = enqueueWorkflow (Object v) m"
      by (cases obj) (simp_all add: deleteJob_def)
    then show ?thesis by blast
  qed
  ultimately show ?thesis using assms(6) by (auto simp: enqueueWorkflow_Object wq.add_pending)
qed

lemma flow_handler_wakes:
  assumes "note_key wfMeta n = Some k" and "\<not> shuttingDown (mQueue m)"
    and "\<And>old w. n = OnUpdate old w \<Longrightarrow> \<not> IsFinished w"
  shows "k \<in> dirty (mQueue (workflow_handler n m))"
proof -
  have "\<exists>obj. workflow_handler n m = enqueueWorkflow obj m \<and> KeyFunc wfMeta obj = Inr k"
  proof (cases n)
    case (OnDelete obj)
    with assms(1) show ?thesis by (cases obj) (auto simp: onDeleteWorkflow_def)
  qed (use assms in \<open>auto simp: onAddWorkflow_def onUpdateWorkflow_def\<close>)
  with assms(2) show ?thesis by (auto simp: enqueueWorkflow_def wq.add_pending)
qed

section \<open>Every step keeps every workflow attended\<close>

lemma attended_jobs_move:
  assumes "informer_step jobMeta l (coJobs s) inf'" and "l = Internal \<Longrightarrow> coJobsTold s = length (infLog (coJobs s))"
    and s': "s' = s\<lparr>coJobs := inf', coPhase := \<lambda>i. seen_too (infStore inf') (coPhase s i)\<rparr>"
    and sane: "sane upd s" and eq: "reflp eq" "transp eq" and att: "attended eq own s k"
  shows "attended eq own s' k"
proof -
  have got: "\<exists>h. coPhase s i = Got k' b h \<and> h' = h @ [infStore inf']" if "coPhase s' i = Got k' b h'" for i k' b h'
    using that s' by (cases "coPhase s i") auto
  have up: "caught_up eq own s' k" if c: "caught_up eq own s k" and same: "same_jobs eq own k (infStore (coJobs s)) (infStore inf')"
  proof -
    have old: "same_jobs eq own k st (infStore inf')" if "coPhase s' i = Got k b h'" "st \<in> set h'" for i b h' st
    proof -
      from got [OF that(1)] obtain h where h: "coPhase s i = Got k b h" "h' = h @ [infStore inf']" by blast
      show ?thesis
      proof (cases "st \<in> set h")
        case True
        with c h(1) have "same_jobs eq own k st (infStore (coJobs s))" unfolding caught_up_def by blast
        then show ?thesis by (rule same_jobs_trans [OF eq(2) _ same])
      next
        case False
        with that(2) h(2) show ?thesis by (simp add: same_jobs_refl [OF eq(1)])
      qed
    qed
    have ran: "coPhase s' i = Ran k rq d \<longleftrightarrow> coPhase s i = Ran k rq d" for i rq d
      by (cases "coPhase s i") (simp_all add: s')
    have v: "up_to_date eq own s' k v" if "up_to_date eq own s k v" for v
      using that same_jobs_trans [OF eq(2) _ same] unfolding up_to_date_def ran by (auto simp: s')
    from c consider i b h where "coPhase s i = Got k b h" | v where "coLast s k = Some v" "up_to_date eq own s k v"
      unfolding caught_up_def by blast
    then have "(\<exists>i b h. coPhase s' i = Got k b h) \<or> (\<exists>v. coLast s' k = Some v \<and> up_to_date eq own s' k v)"
    proof cases
      case (1 i b h)
      then have "coPhase s' i = Got k b (h @ [infStore inf'])" by (simp add: s')
      then show ?thesis by blast
    next
      case (2 u)
      have "coLast s' k = Some u" using 2(1) by (simp add: s')
      with v [OF 2(2)] show ?thesis by blast
    qed
    moreover have "infStore (coJobs s') = infStore inf'" by (simp add: s')
    ultimately show ?thesis using old unfolding caught_up_def by simp
  qed
  from assms(1) saneD(4) [OF sane] show ?thesis
  proof (cases rule: informer_moves)
    case quiet
    have "untold (coJobsTold s) inf' = untold (coJobsTold s) (coJobs s)" unfolding untold_def quiet(2) ..
    then have "waking eq own s' k = waking eq own s k" by (simp add: waking_def s')
    with att up same_jobs_refl [OF eq(1)] quiet(1) s' show ?thesis by (auto simp: attended_def)
  next
    case (news n j)
    have told: "coJobsTold s = length (infLog (coJobs s))" using assms(2) news(1) by simp
    then have u: "untold (coJobsTold s) (coJobs s) = None" "untold (coJobsTold s) inf' = Some n"
      using news(2) by (simp_all add: untold_def)
    show ?thesis
    proof (cases "own j = k \<and> \<not> unchanged eq n")
      case True
      with u news(4) s' have "waking eq own s' k" by (auto simp: waking_def)
      then show ?thesis by (simp add: attended_def)
    next
      case False
      then have "same_jobs eq own k (infStore (coJobs s)) (infStore inf')"
        by (intro same_jobs_news [OF eq(1) news(5,6)]) auto
      with up have "caught_up eq own s k \<Longrightarrow> caught_up eq own s' k" by blast
      moreover have "waking eq own s k \<Longrightarrow> waking eq own s' k" using u by (simp add: waking_def s')
      ultimately show ?thesis using att s' by (auto simp: attended_def)
    qed
  qed
qed

lemma attended_flows_move:
  assumes "informer_step wfMeta l (coFlows s) inf'" and "l = Internal \<Longrightarrow> coFlowsTold s = length (infLog (coFlows s))"
    and s': "s' = s\<lparr>coFlows := inf'\<rparr>" and sane: "sane upd s"
    and att: "fmlookup (infStore inf') k = fmlookup (infStore (coFlows s)) k \<Longrightarrow> attended eq own s k"
  shows "attended eq own s' k"
  using assms(1) saneD(6) [OF sane]
proof (cases rule: informer_moves)
  case quiet
  have "untold (coFlowsTold s) inf' = untold (coFlowsTold s) (coFlows s)" unfolding untold_def quiet(2) ..
  then have "waking eq own s' k = waking eq own s k" by (simp add: waking_def s')
  moreover have "caught_up eq own s' k = caught_up eq own s k" by (rule caught_up_cong) (simp_all add: s' quiet(1))
  ultimately show ?thesis using att quiet(1) by (simp add: attended_def s')
next
  case (news n j)
  have told: "coFlowsTold s = length (infLog (coFlows s))" using assms(2) news(1) by simp
  then have u: "untold (coFlowsTold s) (coFlows s) = None" "untold (coFlowsTold s) inf' = Some n"
    using news(2) by (simp_all add: untold_def)
  show ?thesis
  proof (cases "j = k")
    case True
    with u news(4) s' have "waking eq own s' k" by (auto simp: waking_def)
    then show ?thesis by (simp add: attended_def)
  next
    case False
    then have same: "fmlookup (infStore inf') k = fmlookup (infStore (coFlows s)) k" using news(6) by simp
    then have "caught_up eq own s' k = caught_up eq own s k" by (intro caught_up_cong) (simp_all add: s')
    moreover have "waking eq own s k \<Longrightarrow> waking eq own s' k" using u by (auto simp: waking_def s')
    ultimately show ?thesis using att [OF same] s' by (auto simp: attended_def)
  qed
qed

lemma attended_gets:
  assumes free: "coPhase s i = Free" and get: "wq_Get (coQueue s) = (Item key, q)"
    and s': "s' = s\<lparr>coQueue := q, coPhase := (coPhase s)(i := Got key (jobStoreSynced s) [infStore (coJobs s)])\<rparr>"
    and sane: "sane upd s" and eq: "reflp eq" and att: "attended eq own s k"
  shows "attended eq own s' k"
proof -
  from wq.get_item [OF saneD(1) [OF sane] get] have key: "key \<notin> processing (coQueue s)"
    and d: "dirty q = dirty (coQueue s) - {key}" by auto
  have w: "waking eq own s' k = waking eq own s k" by (simp add: waking_def s')
  show ?thesis
  proof (cases "k = key")
    case True
    have "held s j \<noteq> Some key" for j using key saneD(2) [OF sane] by (auto simp: held_inv_def intro: ranI)
    then have only: "coPhase s j \<noteq> Got key b h" for j b h using held_Got by blast
    with True s' have "caught_up eq own s' k"
      using same_jobs_refl [OF eq] by (auto simp: caught_up_def split: if_splits)
    then show ?thesis by (simp add: attended_def)
  next
    case False
    have ph: "coPhase s' j = Got k b h \<longleftrightarrow> coPhase s j = Got k b h" "coPhase s' j = Ran k rq e \<longleftrightarrow> coPhase s j = Ran k rq e" for j b h rq e
      using False free s' by auto
    have "up_to_date eq own s' k v = up_to_date eq own s k v" for v
      unfolding up_to_date_def ph by (simp add: s')
    then have "caught_up eq own s' k = caught_up eq own s k"
      unfolding caught_up_def ph by (simp add: s')
    with att w d False s' show ?thesis by (auto simp: attended_def)
  qed
qed

lemma attended_transits:
  assumes got: "coPhase s i = Got key b h" and obs: "\<And>x. obStore (teObs (viEnv v) x) \<in> set h"
    and cache: "\<And>j. j \<noteq> key \<Longrightarrow> fmlookup (store_left v) j = fmlookup (infStore (coFlows s)) j"
    and s': "s' = s\<lparr>coState := st, coNet := n, coFlows := (coFlows s)\<lparr>infStore := store_left v\<rparr>,
          coPhase := (coPhase s)(i := Ran key (requeue (viResult v)) d), coLast := (coLast s)(key \<mapsto> v)\<rparr>"
    and sane: "sane upd s" and att: "attended eq own s k"
  shows "attended eq own s' k"
proof -
  have w: "waking eq own s' k = waking eq own s k" by (simp add: waking_def s' untold_def)
  have "caught_up eq own s' k" if c: "caught_up eq own s k"
  proof (cases "k = key")
    case True
    have hi: "held s i = Some key" using got by (simp add: held_def held_key_def)
    have "coPhase s' j \<noteq> Got key b' h'" for j b' h'
    proof
      assume g: "coPhase s' j = Got key b' h'"
      then have "held s j = Some key" "j \<noteq> i" using s' by (auto simp: held_def held_key_def split: if_splits)
      with one_worker [OF sane hi] show False by blast
    qed
    moreover have "up_to_date eq own s' k v"
      using c got obs True s' by (auto simp: up_to_date_def caught_up_def)
    ultimately show ?thesis using True s' by (auto simp: caught_up_def)
  next
    case False
    have ph: "coPhase s' j = Got k b h \<longleftrightarrow> coPhase s j = Got k b h" "coPhase s' j = Ran k rq e \<longleftrightarrow> coPhase s j = Ran k rq e" for j b h rq e
      using False got s' by auto
    have "up_to_date eq own s' k v = up_to_date eq own s k v" for v
      unfolding up_to_date_def ph using cache [OF False] by (simp add: s')
    with c False show ?thesis unfolding caught_up_def ph by (simp add: s')
  qed
  with att w s' show ?thesis by (auto simp: attended_def)
qed

lemma attended_done:
  assumes ran: "coPhase s i = Ran key rq d" and m: "m = (if rq then enqueueAfter key d (mgr s) else mgr s)"
    and s': "s' = (put_back m s)\<lparr>coQueue := wq_Done key (mQueue m), coPhase := (coPhase s)(i := Free)\<rparr>"
    and sane: "sane upd s" and att: "attended eq own s k"
  shows "attended eq own s' k"
proof -
  have d: "dirty (coQueue s') = (if rq then insert key (dirty (coQueue s)) else dirty (coQueue s))"
    using saneD(3) [OF sane] by (simp add: s' m wq.finish_pending enqueueAfter_def Let_def mgr_def wq.add_pending)
  have w: "waking eq own s' k = waking eq own s k" by (simp add: waking_def s' put_back_def)
  show ?thesis
  proof (cases "k = key \<and> rq")
    case True
    with d show ?thesis by (simp add: attended_def)
  next
    case False
    have hi: "held s i = Some key" using ran by (simp add: held_def held_key_def)
    have ph: "coPhase s' j = Got k b h \<longleftrightarrow> coPhase s j = Got k b h" for j b h
      using ran s' by (auto simp: put_back_def)
    have re: "coPhase s' j = Ran k True e \<longleftrightarrow> coPhase s j = Ran k True e" for j e
      using ran False s' by (auto simp: put_back_def)
    have "up_to_date eq own s' k v" if "up_to_date eq own s k v" for v
      using that unfolding up_to_date_def re by (auto simp: s' put_back_def)
    then have "caught_up eq own s k \<Longrightarrow> caught_up eq own s' k"
      unfolding caught_up_def ph by (auto simp: s' put_back_def)
    with att w d show ?thesis by (auto simp: attended_def)
  qed
qed

lemma attended_jobs_tell:
  assumes told: "coJobsTold s < length (infLog (coJobs s))" and o: "orders_ok so ks (mgr s)"
    and h: "job_handler eq so ks (infLog (coJobs s) ! coJobsTold s) (mgr s) = Some m"
    and s': "s' = (put_back m s)\<lparr>coJobsTold := Suc (coJobsTold s)\<rparr>"
    and sane: "sane upd s" and routed: "routed own s" and w: "fmlookup (infStore (coFlows s)) k = Some w"
    and att: "attended eq own s k"
  shows "attended eq own s' k"
proof -
  let ?n = "infLog (coJobs s) ! coJobsTold s"
  note q = handled_queue [OF handled_job [OF h] sane]
  have u: "untold (coJobsTold s) (coJobs s) = Some ?n" using told by (simp add: untold_def)
  have same: "caught_up eq own s' k = caught_up eq own s k" by (rule caught_up_cong) (simp_all add: s' put_back_def)
  from att consider "k \<in> dirty (coQueue s)" | "caught_up eq own s k"
    | n where "untold (coFlowsTold s) (coFlows s) = Some n" "note_key wfMeta n = Some k"
    | j where "note_key jobMeta ?n = Some j" "own j = k" "\<not> unchanged eq ?n"
    using u by (auto simp: attended_def waking_def)
  then show ?thesis
  proof cases
    case 1
    with q(4) s' show ?thesis by (auto simp: attended_def put_back_def)
  next
    case 2
    with same show ?thesis by (simp add: attended_def)
  next
    case (3 n)
    then have "waking eq own s' k" by (auto simp: waking_def s' put_back_def)
    then show ?thesis by (simp add: attended_def)
  next
    case (4 j)
    have "own j \<in> dirty (mQueue m)"
    proof (rule job_handler_wakes [OF h o _ 4(3,1)])
      show "sound_note jobMeta ?n" using told_ok_untold [OF saneD(5) [OF sane] u] by simp
      show "\<not> shuttingDown (mQueue (mgr s))" using saneD(3) [OF sane] by (simp add: mgr_def)
      show "store_keyed wfMeta (mWorkflows (mgr s))"
        using saneD(6) [OF sane] by (simp add: mgr_def informer_good_def informer_ok_def)
      show "fmlookup (mWorkflows (mgr s)) (own j) = Some w" using w 4(2) by (simp add: mgr_def)
      show "selects v x \<longleftrightarrow> own (MetaNamespaceKeyFunc (jobMeta x)) = i"
        if "note_job ?n = Some x" "fmlookup (mWorkflows (mgr s)) i = Some v" for x i v
        using routed u that by (auto simp: routed_def fmpred_iff mgr_def)
    qed
    with 4(2) s' show ?thesis by (simp add: attended_def put_back_def)
  qed
qed

lemma attended_flows_tell:
  assumes told: "coFlowsTold s < length (infLog (coFlows s))"
    and h: "workflow_handler (infLog (coFlows s) ! coFlowsTold s) (mgr s) = m"
    and s': "s' = (put_back m s)\<lparr>coFlowsTold := Suc (coFlowsTold s)\<rparr>"
    and sane: "sane upd s" and w: "fmlookup (infStore (coFlows s)) k = Some w" "\<not> IsFinished w"
    and att: "attended eq own s k"
  shows "attended eq own s' k"
proof -
  let ?n = "infLog (coFlows s) ! coFlowsTold s"
  have hd: "handled (mgr s) m" using handled_flow h by blast
  note q = handled_queue [OF hd sane]
  have u: "untold (coFlowsTold s) (coFlows s) = Some ?n" using told by (simp add: untold_def)
  have same: "caught_up eq own s' k = caught_up eq own s k" by (rule caught_up_cong) (simp_all add: s' put_back_def)
  from att consider "k \<in> dirty (coQueue s)" | "caught_up eq own s k" | "note_key wfMeta ?n = Some k"
    | n j where "untold (coJobsTold s) (coJobs s) = Some n" "note_key jobMeta n = Some j" "own j = k" "\<not> unchanged eq n"
    using u by (auto simp: attended_def waking_def)
  then show ?thesis
  proof cases
    case 1
    with q(4) s' show ?thesis by (auto simp: attended_def put_back_def)
  next
    case 2
    with same show ?thesis by (simp add: attended_def)
  next
    case 3
    have "\<not> IsFinished v" if "?n = OnUpdate old v" for old v
      using saneD(8) [OF sane u [unfolded that], of w] w 3 that by simp
    then have "k \<in> dirty (mQueue (workflow_handler ?n (mgr s)))"
      using saneD(3) [OF sane] by (intro flow_handler_wakes [OF 3]) (simp_all add: mgr_def)
    then show ?thesis using s' h by (simp add: attended_def put_back_def)
  next
    case (4 n j)
    then have "waking eq own s' k" unfolding waking_def s' put_back_def by auto
    then show ?thesis by (simp add: attended_def)
  qed
qed

definition awake :: "(Job \<Rightarrow> Job \<Rightarrow> bool) \<Rightarrow> (string \<Rightarrow> string) \<Rightarrow> ('c, 'n) controller \<Rightarrow> bool" where
  "awake eq own s \<longleftrightarrow> (\<forall>k w. fmlookup (infStore (coFlows s)) k = Some w \<longrightarrow> \<not> IsFinished w \<longrightarrow> attended eq own s k)"

lemma awake_step:
  assumes "controller_step eq upd s s'" and sane: "sane upd s" and "routed own s"
    and eq: "reflp eq" "transp eq" and aw: "awake eq own s"
  shows "awake eq own s'"
  unfolding awake_def
proof (intro allI impI)
  fix k w assume w: "fmlookup (infStore (coFlows s')) k = Some w" "\<not> IsFinished w"
  have att: "attended eq own s k" if "fmlookup (infStore (coFlows s)) k = Some v" "\<not> IsFinished v" for v
    using aw that by (simp add: awake_def)
  show "attended eq own s' k"
    using assms(1)
  proof (cases rule: controller_step.cases)
    case (jobs_move l inf')
    with w show ?thesis by (intro attended_jobs_move [OF jobs_move(2,3,1) sane eq] att [of w]) simp_all
  next
    case (jobs_tell so ks m)
    have v: "fmlookup (infStore (coFlows s)) k = Some w" using w(1) jobs_tell(1) by (simp add: put_back_def)
    show ?thesis by (rule attended_jobs_tell [OF jobs_tell(2-4,1) sane assms(3) v att [OF v w(2)]])
  next
    case (flows_move l inf')
    show ?thesis
      by (rule attended_flows_move [OF flows_move(2,3,1) sane]) (use w flows_move(1) att in simp_all)
  next
    case (flows_tell m)
    have v: "fmlookup (infStore (coFlows s)) k = Some w" using w(1) flows_tell(1) by (simp add: put_back_def)
    show ?thesis by (rule attended_flows_tell [OF flows_tell(2,3,1) sane v w(2) att [OF v w(2)]])
  next
    case (worker_gets i key q)
    with w show ?thesis by (intro attended_gets [OF worker_gets(2,3,1) sane eq(1)] att [of w]) simp_all
  next
    case (worker_transits i key b h env synced1 synced2 before r st n store)
    note cache = transition_cache_lookup [OF worker_transits(6) [unfolded worker_transits(5)] worker_transits(7)]
    let ?v = "\<lparr>viEnv = env, viSynced1 = synced1, viSynced2 = synced2, viBefore = before, viResult = r\<rparr>"
    have left: "store_left ?v = store" using worker_transits(7) by (simp add: store_left_def)
    from w worker_transits(1) cache(2) [of k w] obtain u
      where "fmlookup (infStore (coFlows s)) k = Some u" "\<not> IsFinished u" by auto
    note a = att [OF this]
    show ?thesis
    proof (rule attended_transits [OF worker_transits(2) _ _ _ sane a])
      show "obStore (teObs (viEnv ?v) x) \<in> set h" for x using worker_transits(3) by simp
      show "fmlookup (store_left ?v) j = fmlookup (infStore (coFlows s)) j" if "j \<noteq> key" for j
        using cache(1) [OF that] left by simp
      show "s' = s\<lparr>coState := st, coNet := n, coFlows := (coFlows s)\<lparr>infStore := store_left ?v\<rparr>,
          coPhase := (coPhase s)(i := Ran key (requeue (viResult ?v)) (requeueAfter r)), coLast := (coLast s)(key \<mapsto> ?v)\<rparr>"
        using worker_transits(1) left by simp
    qed
  next
    case (worker_done i key rq d m)
    have v: "fmlookup (infStore (coFlows s)) k = Some w" using w(1) worker_done(1) by (simp add: put_back_def)
    show ?thesis by (rule attended_done [OF worker_done(2,3,1) sane att [OF v w(2)]])
  qed
qed

lemma awake_run:
  "controller_run eq upd (routed own) s s' \<Longrightarrow> sane upd s \<Longrightarrow> awake eq own s \<Longrightarrow> reflp eq \<Longrightarrow> transp eq \<Longrightarrow>
     sane upd s' \<and> awake eq own s' \<and> routed own s'"
proof (induction rule: controller_run.induct)
  case (run_on s s1 s2)
  then have "sane upd s1" "awake eq own s1" "routed own s1" by simp_all
  with sane_step [OF run_on(2)] awake_step [OF run_on(2)] run_on show ?case by blast
qed simp

section \<open>No wakeup is lost\<close>

text \<open>Nothing waits in the queue, no worker has a key and no handler is under way.\<close>

definition nobody_busy :: "('c, 'n) controller \<Rightarrow> bool" where
  "nobody_busy s \<longleftrightarrow>
     wqQueue (coQueue s) = [] \<and> (\<forall>i. coPhase s i = Free)
     \<and> coJobsTold s = length (infLog (coJobs s)) \<and> coFlowsTold s = length (infLog (coFlows s))"

lemma last_transition_current:
  assumes "controller_run eq upd (routed own) (NewController client net) s"
    and "reflp eq" and "transp eq" and "nobody_busy s"
    and "fmlookup (infStore (coFlows s)) k = Some w" and "\<not> IsFinished w"
  shows "\<exists>v. coLast s k = Some v \<and> visited upd k v \<and> fmlookup (store_left v) k = Some w
     \<and> (\<forall>x. same_jobs eq own k (obStore (teObs (viEnv v) x)) (infStore (coJobs s)))
     \<and> \<not> requeue (viResult v) \<and> viSynced2 v"
proof -
  have "awake eq own (NewController client net)"
    by (simp add: awake_def NewController_def NewInformer_def Let_def)
  from awake_run [OF assms(1) sane_New this assms(2,3)] have sane: "sane upd s" and aw: "awake eq own s" by simp_all
  have free: "coPhase s i = Free" for i using assms(4) by (simp add: nobody_busy_def)
  have "processing (coQueue s) = {}"
    using saneD(2) [OF sane] free by (auto simp: held_inv_def held_def held_key_def ran_def)
  then have "dirty (coQueue s) = {}"
    using saneD(1) [OF sane] assms(4) by (simp add: wq_inv_def nobody_busy_def)
  moreover have "\<not> waking eq own s k" using assms(4) by (simp add: waking_def nobody_busy_def untold_def)
  ultimately have "caught_up eq own s k" using aw assms(5,6) by (auto simp: awake_def attended_def)
  with free obtain v where v: "coLast s k = Some v" "up_to_date eq own s k v" by (auto simp: caught_up_def)
  have vis: "visited upd k v" by (rule saneD(9) [OF sane v(1)])
  have left: "fmlookup (store_left v) k = Some w" and rq: "\<not> requeue (viResult v)"
    using v(2) assms(5) free by (simp_all add: up_to_date_def)
  have "viSynced2 v"
  proof (rule ccontr)
    assume ns: "\<not> viSynced2 v"
    with vis have ns1: "\<not> viSynced1 v" by (auto simp: visited_def)
    obtain st n store where b: "viBefore v = (st, n, store)" by (metis prod_cases3)
    have t: "transitionWorkflow (viEnv v) upd (viSynced1 v) (viSynced2 v) k (st, n, store) = Some (viResult v)"
      using vis b by (simp add: visited_def)
    obtain st' n' where "transState (viResult v) = (st', n', store_left v)"
      by (metis prod.collapse store_left_def)
    with transition_cache_lookup(2) [OF t this left] obtain u where "fmlookup store k = Some u" by blast
    with t ns ns1 have "viResult v = \<lparr>requeue = True, requeueAfter = requeueJobstoreNotSyncedTime, transErr = None,
        transState = (st, n, store)\<rparr>"
      by (simp add: transitionWorkflow_def workflowByKey_def Store_GetByKey_def preconditionsMet_def)
    with rq show False by simp
  qed
  with v vis left rq show ?thesis by (auto simp: up_to_date_def)
qed


section \<open>Examples\<close>

text \<open>
  A workflow and its two finished jobs arrive, a worker takes the key in between, and again after the
  jobs woke the workflow: the run ends with nobody busy.
\<close>

definition run_acts :: "call list act list" where
  "run_acts =
     [FlowCall (CallAdd (two_workflow fmempty)) [], FlowMove, FlowMove, JobCall (CallReplace [finished_job ''one'', finished_job ''two'']) [],
      FlowTell, JobMove, Get 0, JobMove,
      Transit 0 False False (sample_env no_jobs) [''default/mydag-one''], JobTell (\<lambda>_. [WorkflowUIDLabel]) [''default/mydag''],
      JobMove, JobMove, JobTell (\<lambda>_. [WorkflowUIDLabel]) [''default/mydag''], Finish 0,
      Get 1, Transit 1 True True (sample_env no_jobs) [''default/mydag-one'', ''default/mydag-two''], Finish 1]"

definition ran :: "(call list, unit) controller option" where
  "ran = do_acts (=) (\<lambda>w n. (None, w, n)) (routed (\<lambda>_. ''default/mydag'')) run_acts (NewController [] ())"

lemma ran_rest:
  "case ran of None \<Rightarrow> False | Some s \<Rightarrow>
     wqQueue (coQueue s) = [] \<and> coPhase s 0 = Free \<and> coPhase s 1 = Free
     \<and> coJobsTold s = length (infLog (coJobs s)) \<and> coFlowsTold s = length (infLog (coFlows s))
     \<and> (case fmlookup (infStore (coFlows s)) ''default/mydag'' of None \<Rightarrow> False | Some w \<Rightarrow> \<not> IsFinished w)"
  by code_simp

lemma schedule_nobody_busy:
  assumes "do_acts eq upd Q as (NewController client net) = Some s" and "list_all (of_workers n) as"
    and "\<forall>i < n. coPhase s i = Free" and "wqQueue (coQueue s) = []"
    and "coJobsTold s = length (infLog (coJobs s))" and "coFlowsTold s = length (infLog (coFlows s))"
  shows "nobody_busy s" and "controller_run eq upd Q (NewController client net) s"
proof -
  have "coPhase s i = Free" if "n \<le> i" for i
    by (rule do_acts_free [OF assms(1,2) that]) (simp add: NewController_def Let_def)
  then have "coPhase s i = Free" for i using assms(3) by (metis not_le)
  with assms(4-6) show "nobody_busy s" by (simp add: nobody_busy_def)
  show "controller_run eq upd Q (NewController client net) s"
    by (rule do_acts_run [OF assms(1)], rule run_start, rule do_acts_start [OF assms(1)])
qed

lemma ran_nobody_busy:
  assumes "ran = Some s"
  shows "nobody_busy s"
    and "controller_run (=) (\<lambda>w n. (None, w, n)) (routed (\<lambda>_. ''default/mydag'')) (NewController [] ()) s"
proof -
  have r: "wqQueue (coQueue s) = []" "coPhase s 0 = Free" "coPhase s 1 = Free"
      "coJobsTold s = length (infLog (coJobs s))" "coFlowsTold s = length (infLog (coFlows s))"
    using ran_rest unfolding assms option.case by blast+
  then have "\<forall>i < 2. coPhase s i = Free" by (simp add: less_2_cases_iff)
  with schedule_nobody_busy [OF assms [unfolded ran_def], of 2] r show "nobody_busy s"
    "controller_run (=) (\<lambda>w n. (None, w, n)) (routed (\<lambda>_. ''default/mydag'')) (NewController [] ()) s"
    by (simp_all add: run_acts_def)
qed


text \<open>
  The exception: the worker asks whether the job store is synced, the informer pops its last job, and
  the worker asks again.  The workflow is neither worked on nor queued, and nobody is busy.
\<close>

definition flip_acts :: "call list act list" where
  "flip_acts =
     [FlowCall (CallAdd (two_workflow fmempty)) [], FlowMove, FlowMove, FlowTell, JobCall (CallReplace [app_job]) [],
      Get 0, JobMove, Transit 0 False True (sample_env no_jobs) [], Finish 0]"

lemma sync_flip_forgets:
  "case do_acts (=) (\<lambda>w n. (None, w, n)) (routed (\<lambda>_. [])) flip_acts (NewController [] ()) of
     None \<Rightarrow> False
   | Some s \<Rightarrow>
       wqQueue (coQueue s) = [] \<and> coPhase s 0 = Free
       \<and> fmlookup (infStore (coFlows s)) ''default/mydag'' = Some (two_workflow fmempty)
       \<and> preconditionsMet True (two_workflow fmempty) \<and> ctl (coState s) = []"
  by code_simp

end
