(* ===== verification/Waiting.thy ===== *)
theory Waiting
  imports Wakeups
begin

text \<open>
  What a workflow waits for.  When nobody is busy, an unfinished workflow of the cache is waiting for
  something outside the controller, and this theory says for what: for the server to send back the
  update its last transition made, for a job to finish or to arrive in the cache - or for one of the
  things that never come: a job whose creation failed, a step with two jobs or one that cannot be
  referenced, an external reference.
\<close>

section \<open>A pass that changes nothing\<close>

text \<open>The creation of a job for the step may be refused.\<close>

definition refused :: "'c tenv \<Rightarrow> Workflow \<Rightarrow> string \<Rightarrow> JobTemplateSpec \<Rightarrow> bool" where
  "refused env w s t \<longleftrightarrow>
     (\<exists>c err c'. teCreateJob env (Namespace (wfMeta w)) t w s c = Some (Some err, c'))"

definition step_waits :: "'c tenv \<Rightarrow> Workflow \<Rightarrow> 'c tstate \<Rightarrow> string \<Rightarrow> WorkflowStep \<Rightarrow> bool" where
  "step_waits env w st s step \<longleftrightarrow>
     (case JobTemplate step of
        None \<Rightarrow> True
      | Some t \<Rightarrow>
          (case step_jobs env w s t of
             [] \<Rightarrow> step_expected env w st s \<or> refused env w s t
           | [job] \<Rightarrow> \<not> IsJobFinished job \<or> isl (teGetReference env job)
           | _ \<Rightarrow> True))"

lemma createJobForStep_expected:
  assumes "createJobForStep env w s step st = Some st'"
  shows "step_expected env w st x \<Longrightarrow> step_expected env w st' x"
    and "JobTemplate step = Some t \<Longrightarrow> step_expected env w st' s \<or> refused env w s t"
proof -
  let ?now = "obClock (teObs env s)" and ?key = "MetaNamespaceKeyFunc (wfMeta w)"
  consider "st' = st" "step_expected env w st s"
    | t c err where "JobTemplate step = Some t" "st' = st\<lparr>ctl := c\<rparr>"
        "teCreateJob env (Namespace (wfMeta w)) t w s (ctl st) = Some (Some err, c)"
    | c where "st' = st\<lparr>ctl := c, exps := ExpectCreation ?now (exps st) ?key s\<rparr>"
    using assms by (auto simp: createJobForStep_def Let_def step_expected_def split: if_splits option.splits)
  then have "(step_expected env w st x \<longrightarrow> step_expected env w st' x)
      \<and> (JobTemplate step = Some t \<longrightarrow> step_expected env w st' s \<or> refused env w s t)"
  proof cases
    case (2 t' c err)
    then show ?thesis by (auto simp: refused_def step_expected_def)
  qed (auto simp: expected_after)
  then show "step_expected env w st x \<Longrightarrow> step_expected env w st' x"
    and "JobTemplate step = Some t \<Longrightarrow> step_expected env w st' s \<or> refused env w s t" by blast+
qed

lemma process_step_expected:
  assumes "process_step env w s step st = Some (b, w', st')" and "fmlookup (wf_steps w) s = Some step"
    and "step_expected env w st x"
  shows "step_expected env w st' x"
proof (cases "JobTemplate step = None")
  case True
  with assms show ?thesis
    by (auto simp: process_step_def processExternalReferenceStep_def split: if_splits)
next
  case False
  with assms(1) have "processJobStep env w s step st = Some (b, w', st')" by (simp add: process_step_def)
  from this assms(2) show ?thesis
    by (cases rule: processJobStep_cases) (use assms(3) createJobForStep_expected(1) in auto)
qed

lemma quiet_step_waits:
  assumes p: "process_step env w s step st = Some (False, w', st')" and lk: "fmlookup (wf_steps w) s = Some step"
    and "open_step w s" and d: "DependenciesResolved step w"
  shows "step_waits env w st' s step"
proof (cases "JobTemplate step")
  case None
  then show ?thesis by (simp add: step_waits_def)
next
  case (Some t)
  with p have "processJobStep env w s step st = Some (False, w', st')" by (simp add: process_step_def)
  from this lk show ?thesis
  proof (cases rule: processJobStep_cases)
    case waiting
    with d show ?thesis by simp
  next
    case (create t')
    with createJobForStep_expected(2) [OF create(6)] show ?thesis by (simp add: step_waits_def)
  next
    case (update t' job)
    with assms(3) have "\<not> IsJobFinished job \<or> isl (teGetReference env job)"
      by (auto simp: updateStepStatus_def Let_def open_step_def step_phase_def status_phase_def
          split: sum.splits option.splits if_splits)
    with update show ?thesis by (simp add: step_waits_def)
  next
    case (many t')
    then show ?thesis by (auto simp: step_waits_def split: list.split)
  qed
qed

lemma quiet_loop_waits:
  assumes "steps_loop env (wf_steps w) ks (False, c, w, st) = Some (False, c', w', st')"
    and "distinct ks" and "s \<in> set ks"
    and s: "fmlookup (wf_steps w) s = Some step" "open_step w s" "DependenciesResolved step w"
  shows "step_waits env w st' s step"
proof -
  let ?P = "\<lambda>ks n v st1. distinct ks \<and> (\<not> n \<longrightarrow> v = w \<and> (s \<notin> set ks \<longrightarrow> step_waits env w st1 s step))
              \<and> wf_steps v = wf_steps w"
  have "?P [] False w' st'" using assms(1)
  proof (induction rule: steps_loop_induct [where P = "\<lambda>ks n _ v st1. ?P ks n v st1"])
    case init
    with assms(2,3) show ?case by simp
  next
    case (skip k rest n c v st1)
    with s show ?case by (auto simp: open_step_def)
  next
    case (process k rest n c v st1 step' b v1 st2)
    then have lk: "fmlookup (wf_steps v) k = Some step'" by simp
    note fr = process_step_frame [OF process(4) lk]
    then have "wf_steps v1 = wf_steps v" using status_frame_simps(2) by auto
    moreover have "step_waits env w st2 s step" if q: "\<not> b" "\<not> n" "s \<notin> set rest"
    proof (cases "k = s")
      case True
      with process q s have "process_step env w s step st1 = Some (False, v1, st2)" by simp
      from quiet_step_waits [OF this s] show ?thesis .
    next
      case False
      with process q have v: "v = w" "step_waits env w st1 s step" by auto
      with process_step_expected [OF process(4) lk] show ?thesis
        by (auto simp: step_waits_def split: option.splits list.splits)
    qed
    ultimately show ?case using process fr by auto
  qed
  then show ?thesis by simp
qed

lemma quiet_pass_waits:
  assumes "processSteps env w st = Some (False, w', st')" and "range_order (wf_steps w) (teRange env)"
    and "fmlookup (wf_steps w) s = Some step" "open_step w s" "DependenciesResolved step w"
  shows "step_waits env w st' s step"
proof -
  from assms(1) obtain c where "steps_loop env (wf_steps w) (teRange env) (False, True, w, st) = Some (False, c, w', st')"
    by (auto simp: processSteps_def split: option.splits if_splits)
  moreover have "s \<in> set (teRange env)" using assms(2,3) by (simp add: range_order_mem)
  ultimately show ?thesis
    using quiet_loop_waits range_order_distinct [OF assms(2)] assms(3-5) by blast
qed

text \<open>A whole pass that needs no update was over a workflow found valid before, or one found invalid.\<close>

lemma quiet_process:
  assumes "process env w st = Some (False, w', st')"
  obtains (works) "processSteps env w st = Some (False, w', st')" "w' = w"
    | (invalid) "w' = w" "st' = st" "map_get (Labels (wfMeta w)) workflowValidLabel = Some falseString"
proof -
  have "map_get (Labels (wfMeta w)) WorkflowUIDLabel \<noteq> None"
  proof
    assume "map_get (Labels (wfMeta w)) WorkflowUIDLabel = None"
    with assms show False by (simp add: process_def)
  qed
  then obtain ls where ls: "Labels (wfMeta w) = Some ls" "fmlookup ls WorkflowUIDLabel \<noteq> None"
    by (cases "Labels (wfMeta w)") auto
  note p = assms [unfolded process_cases [OF ls]]
  show thesis
  proof (cases "fmlookup ls workflowValidLabel = None \<or> fmlookup ls workflowValidLabel = Some falseString")
    case True
    with p have "fmlookup ls workflowValidLabel = Some falseString" "st' = st"
      and w': "w' = set_meta_labels (Some (fmupd workflowValidLabel falseString ls)) w"
      by (auto split: if_splits)
    moreover from this(1) have "fmupd workflowValidLabel falseString ls = ls"
      by (intro fmap_ext) simp
    with w' ls have "w' = w" by (simp add: set_meta_labels_def)
    ultimately show thesis using invalid ls by simp
  next
    case False
    with p have "processSteps env w st = Some (False, w', st')" by simp
    with processSteps_keeps [OF this] works show thesis by simp
  qed
qed

lemma cached_after_same: "cached_after w w = w"
  by (simp add: cached_after_def Let_def set_statuses_def set_selector_def set_meta_labels_def)

section \<open>The last transition of a workflow\<close>

text \<open>It worked, the pass asked for an update, and the server took it.\<close>

definition update_sent ::
  "(Workflow \<Rightarrow> 'n \<Rightarrow> go_error option \<times> Workflow \<times> 'n) \<Rightarrow> string \<Rightarrow> ('c, 'n) visit \<Rightarrow> bool" where
  "update_sent upd k v \<longleftrightarrow>
     (case viBefore v of (st, n, store) \<Rightarrow>
       (case workflowByKey store k of
          None \<Rightarrow> False
        | Some w \<Rightarrow>
            (case process (viEnv v) w st of
               Some (True, w', st') \<Rightarrow> fst (upd w' n) = None
             | _ \<Rightarrow> False)))"

text \<open>
  What a transition that does not ask to be run again has come to, if the workflow it leaves in the
  cache is neither finished nor paused.
\<close>

lemma visited_outcome:
  assumes v: "visited upd k v" and left: "fmlookup (store_left v) k = Some w"
    and "\<not> IsFinished w" "\<not> paused w" and rq: "\<not> requeue (viResult v)" and "viSynced1 v"
  obtains (sent) "update_sent upd k v"
    | (quiet) "process (viEnv v) w (fst (viBefore v)) = Some (False, w, fst (transState (viResult v)))"
        "range_order (wf_steps w) (teRange (viEnv v))"
proof -
  obtain st n store where b: "viBefore v = (st, n, store)" by (metis prod_cases3)
  obtain res where res: "viResult v = res" by blast
  obtain st' n' where r: "transState res = (st', n', store_left v)" by (metis prod.collapse store_left_def res)
  have t: "transitionWorkflow (viEnv v) upd True (viSynced2 v) k (st, n, store) = Some res"
    and o: "orders_given store k (viEnv v)"
    using v b assms(6) res by (auto simp: visited_def)
  from transition_cache_lookup(2) [OF t r left] obtain w0 where w0: "fmlookup store k = Some w0"
    and fin: "IsFinished w = IsFinished w0" by blast
  have rq': "\<not> requeue res" using rq res by simp
  have look: "workflowByKey store k = Some w0" using w0 by (simp add: workflowByKey_def Store_GetByKey_def)
  have unpaused: "\<not> paused w0"
  proof
    assume "paused w0"
    with t look have "transState res = (st, n, store)"
      by (auto simp: transitionWorkflow_def preconditionsMet_iff split: if_splits)
    with r w0 left have "w = w0" by simp
    with \<open>paused w0\<close> assms(4) show False by simp
  qed
  have pre: "preconditionsMet True w0" using unpaused fin assms(3) by (simp add: preconditionsMet_iff)
  obtain b w' st1 where p: "process (viEnv v) w0 st = Some (b, w', st1)"
    using t look pre by (cases "process (viEnv v) w0 st") (auto simp: transitionWorkflow_def)
  show thesis
  proof (cases b)
    case True
    with t look pre p rq' have "fst (upd w' n) = None"
      by (auto simp: transitionWorkflow_def Let_def split: prod.splits option.splits)
    with True b look p sent show thesis by (simp add: update_sent_def)
  next
    case False
    with p have "process (viEnv v) w0 st = Some (False, w', st1)" by simp
    then have "w' = w0" by (rule quiet_process) simp_all
    moreover have "res = \<lparr>requeue = False, requeueAfter = 0, transErr = None,
        transState = (st1, n, fmupd k (cached_after w0 w') store)\<rparr>"
      using t look pre p False by (simp add: transitionWorkflow_def Let_def)
    ultimately have s: "store_left v = fmupd k w0 store" "st' = st1" using r by (simp_all add: cached_after_same)
    then have "w = w0" using left by simp
    with p False \<open>w' = w0\<close> b r s(2) o w0 quiet res show thesis by (simp add: orders_given_def)
  qed
qed

section \<open>What a workflow waits for\<close>

lemma last_transition_waits:
  assumes "controller_run eq upd (routed own) (NewController client net) s"
    and "reflp eq" and "transp eq" and "nobody_busy s"
    and "fmlookup (infStore (coFlows s)) k = Some w" and "\<not> IsFinished w" and "\<not> paused w"
    and "map_get (Labels (wfMeta w)) workflowValidLabel \<noteq> Some falseString"
    and "acyclic (deps (wf_steps w))" and "no_missing_deps (wf_steps w)"
  shows "\<exists>v. coLast s k = Some v
     \<and> (\<forall>x. same_jobs eq own k (obStore (teObs (viEnv v) x)) (infStore (coJobs s)))
     \<and> (\<not> viSynced1 v \<or> update_sent upd k v
        \<or> (\<exists>x step. fmlookup (wf_steps w) x = Some step \<and> open_step w x \<and> DependenciesResolved step w
             \<and> step_waits (viEnv v) w (fst (transState (viResult v))) x step))"
proof -
  obtain v where v: "coLast s k = Some v" "visited upd k v" "fmlookup (store_left v) k = Some w"
    "\<not> requeue (viResult v)"
    and same: "\<forall>x. same_jobs eq own k (obStore (teObs (viEnv v) x)) (infStore (coJobs s))"
    using last_transition_current [OF assms(1-6)] by blast
  have "update_sent upd k v \<or> (\<exists>x step. fmlookup (wf_steps w) x = Some step \<and> open_step w x
      \<and> DependenciesResolved step w \<and> step_waits (viEnv v) w (fst (transState (viResult v))) x step)"
    if "viSynced1 v"
    using v(2,3) assms(6,7) v(4) that
  proof (cases rule: visited_outcome)
    case quiet
    from quiet(1) have p: "processSteps (viEnv v) w (fst (viBefore v)) = Some (False, w, fst (transState (viResult v)))"
      by (rule quiet_process) (use assms(8) in simp_all)
    have "open_steps w \<noteq> 0"
      using pass_finishes [OF p quiet(2)] assms(6) by auto
    then obtain s0 where "s0 \<in> fmdom' (wf_steps w)" "open_step w s0" by (auto simp: open_steps_def)
    with assms(9,10) obtain x step where "fmlookup (wf_steps w) x = Some step" "open_step w x" "DependenciesResolved step w"
      by (rule ready_step)
    with quiet_pass_waits [OF p quiet(2)] show ?thesis by blast
  qed simp
  with v(1) same show ?thesis by blast
qed


section \<open>Examples\<close>

text \<open>
  A validated workflow and the running job of its first step.  The first transition notes that the
  step runs and updates the server, the second one, woken by the watch, has nothing to do.
\<close>

definition marked :: "WorkflowStepStatus gomap \<Rightarrow> Workflow" where
  "marked sts = set_meta_labels (Some (fmap_of_list [(WorkflowUIDLabel, ''123''), (workflowValidLabel, trueString)]))
     (two_workflow sts)"

definition running_job :: Job where
  "running_job =
     \<lparr>jobMeta = sample_meta ''mydag-one'' (Some (getWorkflowJobLabelSet (marked fmempty) sample_template ''one'')),
      jobSpec = tmplSpec sample_template, jobConditions = []\<rparr>"

definition waiting_acts :: "call list act list" where
  "waiting_acts =
     [FlowCall (CallAdd (marked fmempty)) [], FlowMove, FlowMove, FlowTell,
      JobCall (CallReplace [running_job]) [], JobMove, JobMove, JobTell (\<lambda>_. [WorkflowUIDLabel]) [''default/mydag''],
      Get 0, Transit 0 True True (sample_env no_jobs) [''default/mydag-one''], Finish 0,
      FlowCall (CallUpdate (marked one_running)) [''default/mydag''], FlowMove, FlowMove, FlowTell,
      Get 0, Transit 0 True True (sample_env no_jobs) [''default/mydag-one''], Finish 0]"

definition waited_run :: "(call list, unit) controller option" where
  "waited_run = do_acts (=) (\<lambda>w n. (None, w, n)) (routed (\<lambda>_. ''default/mydag'')) waiting_acts (NewController [] ())"

lemma waited_rest:
  "case waited_run of None \<Rightarrow> False | Some s \<Rightarrow>
     wqQueue (coQueue s) = [] \<and> coPhase s 0 = Free
     \<and> coJobsTold s = length (infLog (coJobs s)) \<and> coFlowsTold s = length (infLog (coFlows s))
     \<and> fmlookup (infStore (coFlows s)) ''default/mydag'' = Some (marked one_running)
     \<and> (case coLast s ''default/mydag'' of None \<Rightarrow> False | Some v \<Rightarrow>
          viSynced1 v \<and> \<not> update_sent (\<lambda>w n. (None, w, n)) ''default/mydag'' v)"
  by code_simp


end
