(* ===== verification/Settled.thy ===== *)
theory Settled
  imports Waiting
begin

text \<open>
  The whole system at rest: if no creation of a job is refused, every job that was created has
  arrived in the cache, is alone and has finished, and the server has sent back every update, then a
  workflow that nobody is working on is complete.
\<close>

section \<open>The jobs a transition saw and the jobs there are\<close>

lemma Store_List_filter_length:
  "distinct ks \<Longrightarrow> length (filter P (Store_List s ks)) =
     card {k \<in> set ks. case fmlookup s k of None \<Rightarrow> False | Some x \<Rightarrow> P x}"
proof (induction ks)
  case (Cons k ks)
  let ?K = "\<lambda>ks. {k \<in> set ks. case fmlookup s k of None \<Rightarrow> False | Some x \<Rightarrow> P x}"
  have "?K (k # ks) = (if case fmlookup s k of None \<Rightarrow> False | Some x \<Rightarrow> P x then insert k (?K ks) else ?K ks)" by auto
  moreover have "k \<notin> ?K ks" using Cons.prems by simp
  ultimately show ?case using Cons by (auto split: option.split)
qed simp

lemma listed_alike:
  assumes same: "same_jobs eq own k st1 st2" and o: "range_order st1 ks1" "range_order st2 ks2"
    and own: "\<And>i j. fmlookup st1 i = Some j \<Longrightarrow> job_in_scope ns sel j \<Longrightarrow> own i = k"
      "\<And>i j. fmlookup st2 i = Some j \<Longrightarrow> job_in_scope ns sel j \<Longrightarrow> own i = k"
    and scope: "\<And>a b. eq a b \<Longrightarrow> job_in_scope ns sel a \<longleftrightarrow> job_in_scope ns sel b"
  shows "length (storeJobs_List (JobLister_Jobs st1 ns) ks1 sel) = length (storeJobs_List (JobLister_Jobs st2 ns) ks2 sel)"
    and "storeJobs_List (JobLister_Jobs st1 ns) ks1 sel = [a] \<Longrightarrow>
         storeJobs_List (JobLister_Jobs st2 ns) ks2 sel = [b] \<Longrightarrow> eq a b"
proof -
  let ?in = "\<lambda>st i. case fmlookup st i of None \<Rightarrow> False | Some x \<Rightarrow> job_in_scope ns sel x"
  have rel: "rel_option eq (fmlookup st1 i) (fmlookup st2 i)" if "own i = k" for i
    using same that by (simp add: same_jobs_def)
  have both: "?in st1 i = ?in st2 i" for i
  proof (cases "own i = k")
    case True
    with rel [OF True] scope show ?thesis by (auto simp: rel_option_iff split: option.splits)
  next
    case False
    with own show ?thesis by (auto split: option.splits)
  qed
  have all: "{i \<in> set ks. ?in st i} = {i. ?in st i}" if "range_order st ks" for st ks
    using range_order_mem [OF that] by (auto split: option.splits)
  have "{i \<in> set ks1. ?in st1 i} = {i \<in> set ks2. ?in st2 i}" unfolding all [OF o(1)] all [OF o(2)] by (simp only: both)
  then show "length (storeJobs_List (JobLister_Jobs st1 ns) ks1 sel) = length (storeJobs_List (JobLister_Jobs st2 ns) ks2 sel)"
    by (simp only: storeJobs_List_filter Store_List_filter_length [OF range_order_distinct [OF o(1)]]
        Store_List_filter_length [OF range_order_distinct [OF o(2)]])
  assume "storeJobs_List (JobLister_Jobs st1 ns) ks1 sel = [a]" "storeJobs_List (JobLister_Jobs st2 ns) ks2 sel = [b]"
  with storeJobs_List_set [OF o(1), of ns sel] storeJobs_List_set [OF o(2), of ns sel]
  have a: "\<exists>i. fmlookup st1 i = Some a" "job_in_scope ns sel a"
    and b: "\<And>i j. fmlookup st2 i = Some j \<Longrightarrow> job_in_scope ns sel j \<Longrightarrow> j = b" by auto
  then obtain i where i: "fmlookup st1 i = Some a" by blast
  with rel [of i] own(1) [OF i a(2)] obtain j where "fmlookup st2 i = Some j" "eq a j"
    by (auto simp: option_rel_Some1)
  with scope a(2) b show "eq a b" by blast
qed

section \<open>Behind every expectation is a job\<close>

text \<open>
  A job control that never refuses; \<open>jobs_of c\<close> are the workflow keys and steps it has created a job
  for.  Jobs can be referenced.
\<close>

definition keeps :: "('c \<Rightarrow> (string \<times> string) set) \<Rightarrow> 'c tenv \<Rightarrow> bool" where
  "keeps jobs_of env \<longleftrightarrow>
     (\<forall>ns t w s c r c'. teCreateJob env ns t w s c = Some (r, c') \<longrightarrow>
        r = None \<and> jobs_of c' = insert (MetaNamespaceKeyFunc (wfMeta w), s) (jobs_of c))
     \<and> (\<forall>job. \<not> isl (teGetReference env job))"

definition backed :: "('c \<Rightarrow> (string \<times> string) set) \<Rightarrow> 'c tstate \<Rightarrow> bool" where
  "backed jobs_of st \<longleftrightarrow>
     (\<forall>now k s. \<not> ExpectationsForStepSatisfied now (exps st) k s \<longrightarrow> (k, s) \<in> jobs_of (ctl st))"

text \<open>What a pass may do: create jobs, and expect only what it has created.\<close>

definition creates :: "('c \<Rightarrow> (string \<times> string) set) \<Rightarrow> 'c tstate \<Rightarrow> 'c tstate \<Rightarrow> bool" where
  "creates jobs_of st st' \<longleftrightarrow> (backed jobs_of st \<longrightarrow> backed jobs_of st') \<and> jobs_of (ctl st) \<subseteq> jobs_of (ctl st')"

lemma creates_refl [simp]: "creates jobs_of st st"
  by (simp add: creates_def)

lemma creates_trans: "creates jobs_of st st1 \<Longrightarrow> creates jobs_of st1 st2 \<Longrightarrow> creates jobs_of st st2"
  by (auto simp: creates_def)

lemma createJobForStep_creates:
  assumes "keeps jobs_of env" and "createJobForStep env w s step st = Some st'"
  shows "creates jobs_of st st'"
proof -
  let ?now = "obClock (teObs env s)" and ?key = "MetaNamespaceKeyFunc (wfMeta w)"
  show ?thesis
  proof (cases "ExpectationsForStepSatisfied ?now (exps st) ?key s")
    case False
    with assms(2) show ?thesis by (simp add: createJobForStep_def)
  next
    case True
    with assms(2) obtain t r c where c: "teCreateJob env (Namespace (wfMeta w)) t w s (ctl st) = Some (r, c)"
      and st': "st' = (if r = None then st\<lparr>ctl := c, exps := ExpectCreation ?now (exps st) ?key s\<rparr> else st\<lparr>ctl := c\<rparr>)"
      by (simp add: createJobForStep_def split: option.splits prod.splits)
    from assms(1) c have "r = None" "jobs_of c = insert (?key, s) (jobs_of (ctl st))" unfolding keeps_def by blast+
    with st' show ?thesis by (auto simp: creates_def backed_def exps.satisfied_expect)
  qed
qed

lemma process_step_creates_backed:
  assumes "keeps jobs_of env" and "process_step env w s step st = Some (b, w', st')" and "fmlookup (wf_steps w) s = Some step"
  shows "creates jobs_of st st'"
proof (cases "JobTemplate step = None")
  case True
  with assms(2) show ?thesis
    by (auto simp: process_step_def processExternalReferenceStep_def split: if_splits)
next
  case False
  with assms(2) have "processJobStep env w s step st = Some (b, w', st')" by (simp add: process_step_def)
  from this assms(3) show ?thesis
    by (cases rule: processJobStep_cases) (use createJobForStep_creates [OF assms(1)] in simp_all)
qed

lemma processSteps_creates_backed:
  assumes "keeps jobs_of env" and "processSteps env w st = Some (b, w', st')"
  shows "creates jobs_of st st'"
proof -
  from assms(2) obtain n c v where
    "steps_loop env (wf_steps w) (teRange env) (False, True, w, st) = Some (n, c, v, st')"
    by (auto simp: processSteps_def split: option.splits if_splits)
  then have "Spec v = Spec w \<and> creates jobs_of st st'"
  proof (induction rule: steps_loop_induct [where P = "\<lambda>_ _ _ u st1. Spec u = Spec w \<and> creates jobs_of st st1"])
    case (process k rest n c u st1 step b u1 st2)
    then have lk: "fmlookup (wf_steps u) k = Some step" by simp
    from process_step_frame [OF process(4) lk] have "status_frame u k u1" by simp
    from status_frame_simps(2) [OF this] process(1) process_step_creates_backed [OF assms(1) process(4) lk]
    show ?case by (auto intro: creates_trans)
  qed simp_all
  then show ?thesis by simp
qed

lemma process_creates_backed:
  assumes "keeps jobs_of env" and "process env w st = Some (b, w', st')"
  shows "creates jobs_of st st'"
  using assms(2) processSteps_creates_backed [OF assms(1)]
  by (auto simp: process_def Let_def split: if_splits option.splits)

lemma transition_creates_backed:
  assumes "keeps jobs_of env" and "transitionWorkflow env upd a b key (st, n, store) = Some r"
    and "transState r = (st', n', store')"
  shows "creates jobs_of st st'"
proof -
  have "creates jobs_of st (st\<lparr>exps := DeleteExpectations (exps st) key\<rparr>)"
    by (auto simp: creates_def backed_def exps.satisfied_forget)
  with assms(2,3) process_creates_backed [OF assms(1)] show ?thesis
    by (auto simp: transitionWorkflow_def Let_def split: option.splits if_splits prod.splits)
qed

lemma handler_creates_backed:
  "job_handler eq so ks n m = Some m' \<Longrightarrow> creates jobs_of (mState m) (mState m')"
  "creates jobs_of (mState m) (mState (workflow_handler l m))"
proof -
  show "creates jobs_of (mState m) (mState (workflow_handler l m))"
    by (cases l) (auto simp: onAddWorkflow_def onUpdateWorkflow_def onDeleteWorkflow_def enqueueWorkflow_def split: sum.splits)
  have obs: "creates jobs_of st (st\<lparr>exps := snd (CreationObserved (exps st) k s)\<rparr>)" for st k s
    by (auto simp: creates_def backed_def exps.satisfied_observed)
  show "job_handler eq so ks n m = Some m' \<Longrightarrow> creates jobs_of (mState m) (mState m')"
    using obs
    by (cases n) (auto simp: addJob_def updateJob_def deleteJob_def Let_def enqueueWorkflow_def case_prod_beta
        split: option.splits sum.splits if_splits)
qed

section \<open>Runs\<close>

text \<open>
  \<open>R\<close> holds of every state the job cache has had: then of all a transition saw.  And what was created
  before a workflow's last transition is still known.
\<close>

definition remembers ::
  "(Job store \<Rightarrow> bool) \<Rightarrow> ('c \<Rightarrow> (string \<times> string) set) \<Rightarrow> ('c, 'n) controller \<Rightarrow> ('c, 'n) visit \<Rightarrow> bool" where
  "remembers R jobs_of s v \<longleftrightarrow>
     (\<forall>x. R (obStore (teObs (viEnv v) x)) \<and> range_order (obStore (teObs (viEnv v) x)) (obOrder (teObs (viEnv v) x)))
     \<and> backed jobs_of (fst (transState (viResult v)))
     \<and> jobs_of (ctl (fst (transState (viResult v)))) \<subseteq> jobs_of (ctl (coState s))"

definition accounted ::
  "(Job store \<Rightarrow> bool) \<Rightarrow> ('c \<Rightarrow> (string \<times> string) set) \<Rightarrow> ('c, 'n) controller \<Rightarrow> bool" where
  "accounted R jobs_of s \<longleftrightarrow>
     R (infStore (coJobs s)) \<and> (\<forall>i key b h st. coPhase s i = Got key b h \<longrightarrow> st \<in> set h \<longrightarrow> R st)
     \<and> backed jobs_of (coState s) \<and> (\<forall>k v. coLast s k = Some v \<longrightarrow> remembers R jobs_of s v)"

lemma accountedD:
  assumes "accounted R jobs_of s"
  shows "R (infStore (coJobs s))" "coPhase s i = Got key b h \<Longrightarrow> st \<in> set h \<Longrightarrow> R st"
    "backed jobs_of (coState s)" "coLast s k = Some v \<Longrightarrow> remembers R jobs_of s v"
  using assms unfolding accounted_def by blast+

lemma remembers_mono:
  "remembers R jobs_of s v \<Longrightarrow> jobs_of (ctl (coState s)) \<subseteq> jobs_of (ctl (coState s')) \<Longrightarrow> remembers R jobs_of s' v"
  unfolding remembers_def by blast

text \<open>A step that makes no transition.\<close>

lemma accounted_other:
  assumes "accounted R jobs_of s" and "creates jobs_of (coState s) (coState s')" and "coLast s' = coLast s"
    and "infStore (coJobs s') = infStore (coJobs s)"
    and "\<And>i key b h. coPhase s' i = Got key b h \<Longrightarrow> coPhase s i = Got key b h \<or> h = [infStore (coJobs s)]"
  shows "accounted R jobs_of s'"
  unfolding accounted_def
proof (intro conjI allI impI)
  show "R (infStore (coJobs s'))" "backed jobs_of (coState s')"
    using assms(2,4) accountedD(1,3) [OF assms(1)] by (simp_all add: creates_def)
  show "R st" if "coPhase s' i = Got key b h" "st \<in> set h" for i key b h st
    using assms(5) [OF that(1)] that(2) accountedD(1,2) [OF assms(1)] by auto
  show "remembers R jobs_of s' v" if "coLast s' k = Some v" for k v
    by (rule remembers_mono [OF accountedD(4) [OF assms(1)]]) (use that assms(2,3) in \<open>simp_all add: creates_def\<close>)
qed

lemma accounted_step:
  assumes "controller_step eq upd s s'" and acc: "accounted R jobs_of s" and R: "R (infStore (coJobs s'))"
    and keeps: "\<And>k v. coLast s' k = Some v \<Longrightarrow> keeps jobs_of (viEnv v)"
  shows "accounted R jobs_of s'"
  using assms(1)
proof (cases rule: controller_step.cases)
  case (jobs_move l inf')
  have "R st" if g: "coPhase s' i = Got key b h" and st: "st \<in> set h" for i key b h st
  proof -
    from g jobs_move(1) obtain h0 where "coPhase s i = Got key b h0" "h = h0 @ [infStore inf']"
      by (cases "coPhase s i") auto
    with st R jobs_move(1) accountedD(2) [OF acc] show ?thesis by auto
  qed
  with R jobs_move(1) accountedD(3,4) [OF acc] show ?thesis by (auto simp: accounted_def remembers_def)
next
  case (jobs_tell so ks m)
  then show ?thesis
    using handler_creates_backed(1) [OF jobs_tell(4), of jobs_of]
    by (intro accounted_other [OF acc]) (simp_all add: put_back_def mgr_def)
next
  case (flows_move l inf')
  then show ?thesis by (intro accounted_other [OF acc]) simp_all
next
  case (flows_tell m)
  then show ?thesis
    using handler_creates_backed(2) [of jobs_of "mgr s" "infLog (coFlows s) ! coFlowsTold s"]
    by (intro accounted_other [OF acc]) (auto simp: put_back_def mgr_def)
next
  case (worker_gets i key q)
  then show ?thesis by (intro accounted_other [OF acc]) (auto split: if_splits)
next
  case (worker_transits i key b h env synced1 synced2 before r st n store)
  let ?v = "\<lparr>viEnv = env, viSynced1 = synced1, viSynced2 = synced2, viBefore = before, viResult = r\<rparr>"
  have last: "coLast s' = (coLast s)(key \<mapsto> ?v)" using worker_transits(1) by simp
  then have "keeps jobs_of env" using keeps [of key ?v] by simp
  from transition_creates_backed [OF this worker_transits(6) [unfolded worker_transits(5)] worker_transits(7)]
  have c: "creates jobs_of (coState s) (coState s')" "coState s' = st" using worker_transits(1) by simp_all
  have b: "backed jobs_of st" using c accountedD(3) [OF acc] by (simp add: creates_def)
  have new: "remembers R jobs_of s' ?v"
    using b c(2) worker_transits(3,7) accountedD(2) [OF acc worker_transits(2)] by (simp add: remembers_def)
  have "remembers R jobs_of s' v" if "coLast s' k = Some v" for k v
  proof (cases "k = key")
    case True
    with that last new show ?thesis by simp
  next
    case False
    with that last have "coLast s k = Some v" by simp
    from remembers_mono [OF accountedD(4) [OF acc this]] c(1) show ?thesis by (simp add: creates_def)
  qed
  moreover have "R st" if "coPhase s' j = Got k' b' h'" "st \<in> set h'" for j k' b' h' st
    using that worker_transits(1) accountedD(2) [OF acc] by (auto split: if_splits)
  ultimately show ?thesis using R b c(2) unfolding accounted_def by blast
next
  case (worker_done i key rq d m)
  have "mState m = coState s" using worker_done(3) handled_enqueueAfter [of "mgr s" key d]
    by (auto simp: mgr_def split: if_splits)
  with worker_done(1) show ?thesis
    by (intro accounted_other [OF acc]) (auto simp: put_back_def split: if_splits)
qed

lemma accounted_New: "R fmempty \<Longrightarrow> accounted R jobs_of (NewController client net)"
  by (simp add: accounted_def NewController_def NewManager_def NewInformer_def Let_def backed_def)

section \<open>A settled workflow is complete\<close>

lemma controller_run_mono:
  "controller_run eq upd Q s s' \<Longrightarrow> (\<And>s. Q s \<Longrightarrow> P s) \<Longrightarrow> controller_run eq upd P s s'"
  by (induction rule: controller_run.induct) (auto intro: controller_run.intros)

lemma run_end: "controller_run eq upd Q s s' \<Longrightarrow> Q s'"
  by (induction rule: controller_run.induct) simp_all

text \<open>What \<^verbatim>\<open>DeepEqual\<close> jobs have in common, as far as it matters.\<close>

definition alike :: "Job \<Rightarrow> Job \<Rightarrow> bool" where
  "alike a b \<longleftrightarrow> Namespace (jobMeta a) = Namespace (jobMeta b)
     \<and> entries (Labels (jobMeta a)) = entries (Labels (jobMeta b)) \<and> IsJobFinished a = IsJobFinished b"

definition step_selects :: "Workflow \<Rightarrow> string \<Rightarrow> JobTemplateSpec \<Rightarrow> Job \<Rightarrow> bool" where
  "step_selects w x t = job_in_scope (Namespace (wfMeta w)) (CreateWorkflowJobLabelSelector w t x)"

text \<open>The jobs the steps of \<open>w\<close> select belong to its key.\<close>

definition owned :: "(string \<Rightarrow> string) \<Rightarrow> string \<Rightarrow> Workflow \<Rightarrow> Job store \<Rightarrow> bool" where
  "owned own k w st \<longleftrightarrow>
     fmpred (\<lambda>i j. fmpred (\<lambda>x step. case JobTemplate step of None \<Rightarrow> True | Some t \<Rightarrow> step_selects w x t j \<longrightarrow> own i = k)
       (wf_steps w)) st"

definition jobs_now :: "('c, 'n) controller \<Rightarrow> Workflow \<Rightarrow> string \<Rightarrow> JobTemplateSpec \<Rightarrow> Job list" where
  "jobs_now s w x t =
     storeJobs_List (JobLister_Jobs (infStore (coJobs s)) (Namespace (wfMeta w))) (sorted_keys (infStore (coJobs s)))
       (CreateWorkflowJobLabelSelector w t x)"

text \<open>
  Every step is a job step; where one has its turn and a job was created for it or is there, that job
  is in the cache, alone and finished.
\<close>

definition jobs_finished :: "('c \<Rightarrow> (string \<times> string) set) \<Rightarrow> ('c, 'n) controller \<Rightarrow> string \<Rightarrow> Workflow \<Rightarrow> bool" where
  "jobs_finished jobs_of s k w \<longleftrightarrow>
     fmpred (\<lambda>x step. case JobTemplate step of
         None \<Rightarrow> False
       | Some t \<Rightarrow> open_step w x \<and> DependenciesResolved step w
            \<and> ((k, x) \<in> jobs_of (ctl (coState s)) \<or> jobs_now s w x t \<noteq> []) \<longrightarrow>
          (case jobs_now s w x t of [job] \<Rightarrow> IsJobFinished job | _ \<Rightarrow> False)) (wf_steps w)"

lemma seen_now:
  assumes "same_jobs eq own k st (infStore (coJobs s))" and "range_order st ks"
    and "owned own k w st" and "owned own k w (infStore (coJobs s))" and alike: "\<And>a b. eq a b \<Longrightarrow> alike a b"
    and "fmlookup (wf_steps w) x = Some step" "JobTemplate step = Some t"
    and seen: "storeJobs_List (JobLister_Jobs st (Namespace (wfMeta w))) ks (CreateWorkflowJobLabelSelector w t x) = js"
  shows "length js = length (jobs_now s w x t)" and "js = [a] \<Longrightarrow> jobs_now s w x t = [b] \<Longrightarrow> alike a b"
proof -
  have own: "own i = k" if "owned own k w f" "fmlookup f i = Some j"
    "job_in_scope (Namespace (wfMeta w)) (CreateWorkflowJobLabelSelector w t x) j" for f i j
    using that assms(6,7) by (auto simp: owned_def fmpred_iff step_selects_def split: option.splits)
  have scope: "eq a b \<Longrightarrow> job_in_scope ns sel a = job_in_scope ns sel b" for a b ns sel
    using alike by (simp add: job_in_scope_def alike_def)
  note l = listed_alike [OF assms(1,2) range_order_sorted_keys, of "Namespace (wfMeta w)" "CreateWorkflowJobLabelSelector w t x"]
  have "length (storeJobs_List (JobLister_Jobs st (Namespace (wfMeta w))) ks (CreateWorkflowJobLabelSelector w t x)) = length (jobs_now s w x t)"
    unfolding jobs_now_def by (rule l(1)) (fact own [OF assms(3)] own [OF assms(4)] scope)+
  with seen show "length js = length (jobs_now s w x t)" by simp
  show "alike a b" if "js = [a]" "jobs_now s w x t = [b]"
    by (rule alike, rule l(2)) (fact own [OF assms(3)] own [OF assms(4)] scope
        | simp only: seen that(1) that(2) [unfolded jobs_now_def])+
qed

lemma finished_not_waiting:
  assumes "jobs_finished jobs_of s k w" and x: "fmlookup (wf_steps w) x = Some step" "open_step w x" "DependenciesResolved step w"
    and v: "remembers (owned own k w) jobs_of s v" "keeps jobs_of (viEnv v)"
    and same: "\<And>y. same_jobs eq own k (obStore (teObs (viEnv v) y)) (infStore (coJobs s))"
    and "owned own k w (infStore (coJobs s))" and alike: "\<And>a b. eq a b \<Longrightarrow> alike a b"
    and key: "MetaNamespaceKeyFunc (wfMeta w) = k"
  shows "\<not> step_waits (viEnv v) w (fst (transState (viResult v))) x step"
proof
  let ?env = "viEnv v" and ?st = "fst (transState (viResult v))"
  assume waits: "step_waits ?env w ?st x step"
  have f: "case JobTemplate step of
         None \<Rightarrow> False
       | Some t \<Rightarrow> open_step w x \<and> DependenciesResolved step w
            \<and> ((k, x) \<in> jobs_of (ctl (coState s)) \<or> jobs_now s w x t \<noteq> []) \<longrightarrow>
          (case jobs_now s w x t of [job] \<Rightarrow> IsJobFinished job | _ \<Rightarrow> False)"
    using assms(1) x(1) unfolding jobs_finished_def fmpred_iff by blast
  then obtain t where t: "JobTemplate step = Some t"
    and fin: "(k, x) \<in> jobs_of (ctl (coState s)) \<or> jobs_now s w x t \<noteq> [] \<Longrightarrow> \<exists>job. jobs_now s w x t = [job] \<and> IsJobFinished job"
    using x(2,3) by (cases "JobTemplate step") (auto split: list.splits)
  have "owned own k w (obStore (teObs ?env x))" "range_order (obStore (teObs ?env x)) (obOrder (teObs ?env x))"
    using v(1) by (simp_all add: remembers_def)
  note seen = seen_now [OF same this(2,1) assms(8) alike x(1) t step_jobs_def [symmetric]]
  have refused: "\<not> refused ?env w x t" using v(2) unfolding refused_def keeps_def by blast
  have ref: "\<not> isl (teGetReference ?env job)" for job using v(2) by (simp add: keeps_def)
  show False
  proof (cases "jobs_now s w x t = []")
    case True
    then have "step_jobs ?env w x t = []" using seen(1) by simp
    with waits t refused have "step_expected ?env w ?st x" by (simp add: step_waits_def)
    with v(1) key have "(k, x) \<in> jobs_of (ctl (coState s))"
      by (auto simp: step_expected_def remembers_def backed_def)
    with fin True show False by simp
  next
    case False
    with fin obtain job where now: "jobs_now s w x t = [job]" and f: "IsJobFinished job" by blast
    with seen(1) obtain a where a: "step_jobs ?env w x t = [a]" by (auto simp: length_Suc_conv)
    with seen(2) now f have "IsJobFinished a" by (simp add: alike_def)
    with waits t a ref show False by (simp add: step_waits_def)
  qed
qed

lemma accounted_run:
  assumes "controller_run eq upd
      (\<lambda>s. routed own s \<and> R (infStore (coJobs s)) \<and> (\<forall>j v. coLast s j = Some v \<longrightarrow> keeps jobs_of (viEnv v)))
      (NewController client net) s"
  shows "accounted R jobs_of s \<and> sane upd s"
proof -
  have "accounted R jobs_of s' \<and> sane upd s'"
    if "controller_run eq upd
      (\<lambda>s. routed own s \<and> R (infStore (coJobs s)) \<and> (\<forall>j v. coLast s j = Some v \<longrightarrow> keeps jobs_of (viEnv v))) s0 s'"
      "s0 = NewController client net" for s0 s'
    using that
  proof (induction rule: controller_run.induct)
    case (run_start s)
    then have "R fmempty" by (simp add: NewController_def NewInformer_def Let_def)
    with run_start sane_New show ?case by (simp add: accounted_New)
  next
    case (run_on s s1 s2)
    then show ?case using accounted_step [OF run_on(2)] sane_step [OF run_on(2)] by blast
  qed
  with assms show ?thesis by blast
qed

text \<open>The cache still holds the version of the workflow its last transition started from.\<close>

definition cache_behind :: "string \<Rightarrow> Workflow \<Rightarrow> ('c, 'n) visit \<Rightarrow> bool" where
  "cache_behind k w v \<longleftrightarrow>
     (case workflowByKey (snd (snd (viBefore v))) k of
        None \<Rightarrow> False | Some w0 \<Rightarrow> ResourceVersion (wfMeta w) = ResourceVersion (wfMeta w0))"

lemma visited_behind:
  assumes "visited upd k v" and "fmlookup (store_left v) k = Some w"
  shows "cache_behind k w v"
proof -
  obtain st n store where b: "viBefore v = (st, n, store)" by (metis prod_cases3)
  have rv: "ResourceVersion (wfMeta (cached_after a c)) = ResourceVersion (wfMeta a)" for a c
    by (simp add: cached_after_def Let_def set_statuses_def set_selector_def set_meta_labels_def)
  from transition_cache [of "viEnv v" upd "viSynced1 v" "viSynced2 v" k st n store "viResult v"] assms b
  have "store_left v = store \<or> (\<exists>w0 w'. fmlookup store k = Some w0 \<and> store_left v = fmupd k (cached_after w0 w') store)"
    by (simp add: visited_def store_left_def) (metis prod.collapse)
  with assms(2) b rv show ?thesis
    by (auto simp: cache_behind_def workflowByKey_def Store_GetByKey_def)
qed


section \<open>Example\<close>

text \<open>A schedule all of whose transitions have an environment with a property keeps that of the visits.\<close>

fun env_ok :: "('c tenv \<Rightarrow> bool) \<Rightarrow> 'c act \<Rightarrow> bool" where
  "env_ok P (Transit i synced1 synced2 env ks) = (\<forall>f. P (env\<lparr>teObs := f\<rparr>))"
| "env_ok P a = True"

lemma do_act_visits:
  assumes "do_act eq upd a s = Some s'" and "env_ok P a" and "\<And>k v. coLast s k = Some v \<Longrightarrow> P (viEnv v)"
    and "coLast s' k = Some v"
  shows "P (viEnv v)"
proof (cases a)
  case (Transit i synced1 synced2 env ks)
  with assms show ?thesis
    by (auto simp: Let_def split: phase.splits if_splits option.splits prod.splits)
qed (use assms in \<open>auto simp: put_back_def Let_def simp del: sink.simps
      split: if_splits phase.splits option.splits get_result.splits prod.splits\<close>)

lemma do_acts_visits:
  "do_acts eq upd Q as s1 = Some s2 \<Longrightarrow> list_all (env_ok P) as \<Longrightarrow> (\<And>k v. coLast s1 k = Some v \<Longrightarrow> P (viEnv v)) \<Longrightarrow>
     controller_run eq upd (\<lambda>s. Q s \<and> (\<forall>k v. coLast s k = Some v \<longrightarrow> P (viEnv v))) s s1 \<Longrightarrow>
     controller_run eq upd (\<lambda>s. Q s \<and> (\<forall>k v. coLast s k = Some v \<longrightarrow> P (viEnv v))) s s2"
proof (induction as arbitrary: s1)
  case (Cons a as)
  then obtain s' where d: "do_act eq upd a s1 = Some s'" "do_acts eq upd Q as s' = Some s2"
    by (auto split: if_splits option.splits)
  have P: "P (viEnv v)" if "coLast s' k = Some v" for k v
    using do_act_visits [where P = P, OF d(1) _ Cons.prems(3) that] Cons.prems(2) by simp
  have "Q s'" using do_acts_start [OF d(2)] .
  with run_on [OF Cons.prems(4) do_act_step [OF d(1)]] P have
    "controller_run eq upd (\<lambda>s. Q s \<and> (\<forall>k v. coLast s k = Some v \<longrightarrow> P (viEnv v))) s s'" by blast
  with Cons.IH [OF d(2) _ P] Cons.prems(2) show ?case by simp
qed (simp split: if_splits)

text \<open>
  A workflow whose first step is complete and whose second step's job has finished is worked off in
  two rounds; the server sends every update back.
\<close>

definition listing_env :: "(string \<times> string) list tenv" where
  "listing_env =
     \<lparr>teCreateJob = \<lambda>ns t w s c. Some (None, (MetaNamespaceKeyFunc (wfMeta w), s) # c),
      teGetReference = \<lambda>_. Inr sample_reference, teValidateMeta = \<lambda>_. [], teNow = 7, teObs = (\<lambda>_. no_jobs),
      teLabelOrder = [WorkflowUIDLabel], teStepOrder = [''one'', ''two''], teRange = [''two'', ''one'']\<rparr>"

definition done_job :: "string \<Rightarrow> Job" where
  "done_job s =
     \<lparr>jobMeta = sample_meta (''mydag-'' @ s) (Some (getWorkflowJobLabelSet (marked fmempty) sample_template s)),
      jobSpec = tmplSpec sample_template, jobConditions = [\<lparr>jcType = JobComplete, jcStatus = ConditionTrue\<rparr>]\<rparr>"

definition round_acts :: "(string \<times> string) list act list" where
  "round_acts = [Get 0, Transit 0 True True listing_env [''default/mydag-two''], Finish 0]"

definition sent_back :: "Workflow \<Rightarrow> (string \<times> string) list act list" where
  "sent_back w = [FlowCall (CallUpdate w) [''default/mydag''], FlowMove, FlowMove, FlowTell]"

definition half_way :: Workflow where
  "half_way = marked (fmap_of_list [(''one'', \<lparr>Complete = True, Reference = sample_reference\<rparr>)])"

definition final_workflow :: Workflow where
  "final_workflow = with_rv (AddCompleteCondition 7 (marked all_done)) ''3''"

definition settled_acts :: "(string \<times> string) list act list" where
  "settled_acts =
     [FlowCall (CallAdd half_way) [], FlowMove, FlowMove, FlowTell,
      JobCall (CallReplace [done_job ''two'']) [], JobMove, JobMove, JobTell (\<lambda>_. [WorkflowUIDLabel]) [''default/mydag'']]
     @ round_acts @ sent_back (with_rv (marked all_done) ''2'') @ round_acts @ sent_back final_workflow"

definition settled_run :: "((string \<times> string) list, unit) controller option" where
  "settled_run = do_acts (=) (\<lambda>w n. (None, w, n)) (routed (\<lambda>_. ''default/mydag'')) settled_acts (NewController [] ())"

lemma settled_rest:
  "case settled_run of None \<Rightarrow> False | Some s \<Rightarrow>
     wqQueue (coQueue s) = [] \<and> coPhase s 0 = Free
     \<and> coJobsTold s = length (infLog (coJobs s)) \<and> coFlowsTold s = length (infLog (coFlows s))
     \<and> fmlookup (infStore (coFlows s)) ''default/mydag'' = Some final_workflow
     \<and> jobs_finished set s ''default/mydag'' final_workflow
     \<and> (case coLast s ''default/mydag'' of None \<Rightarrow> False | Some v \<Rightarrow>
          viSynced1 v \<and> \<not> cache_behind ''default/mydag'' final_workflow v)"
  by code_simp

lemma settled_controller_run:
  assumes "settled_run = Some s"
  shows "controller_run (=) (\<lambda>w n. (None, w, n))
     (\<lambda>s. routed (\<lambda>_. ''default/mydag'') s \<and> owned (\<lambda>_. ''default/mydag'') ''default/mydag'' final_workflow (infStore (coJobs s))
        \<and> (\<forall>j v. coLast s j = Some v \<longrightarrow> keeps set (viEnv v))) (NewController [] ()) s"
proof -
  note ran = assms [unfolded settled_run_def]
  have none: "coLast (NewController [] () :: ((string \<times> string) list, unit) controller) k = None" for k
    by (simp add: NewController_def Let_def)
  have "list_all (env_ok (keeps set)) settled_acts"
    by (simp add: settled_acts_def round_acts_def sent_back_def keeps_def listing_env_def)
  then have "controller_run (=) (\<lambda>w n. (None, w, n)) (\<lambda>s. routed (\<lambda>_. ''default/mydag'') s
        \<and> (\<forall>j v. coLast s j = Some v \<longrightarrow> keeps set (viEnv v))) (NewController [] ()) s"
    by (rule do_acts_visits [OF ran]) (use none do_acts_start [OF ran] in \<open>auto intro!: run_start\<close>)
  then show ?thesis
    by (rule controller_run_mono) (simp add: owned_def fmpred_iff split: option.split)
qed


end
