(* ===== verification/Rest.thy ===== *)
theory Rest
  imports Wakeups
begin

text \<open>
  The controller comes to rest.  Left alone - the reflectors call nothing, no transition asks to be
  run again - the loops of the informers, the handlers and the workers can only make as many steps as
  the work in front of them allows; and as long as there is work, one of them can go on, unless a
  handler or a transition panics.
\<close>

section \<open>Steps the controller makes by itself\<close>

fun stage :: "phase \<Rightarrow> nat" where
  "stage Free = 0"
| "stage (Got key b h) = 3"
| "stage (Ran key rq d) = 1"

text \<open>No transition has asked to be run again.\<close>

definition calm :: "('c, 'n) controller \<Rightarrow> bool" where
  "calm s \<longleftrightarrow> (\<forall>i key d. coPhase s i \<noteq> Ran key True d)"

text \<open>The steps of theory Controller in which a loop, a handler or a worker goes on.\<close>

inductive inner_step ::
  "(Job \<Rightarrow> Job \<Rightarrow> bool) \<Rightarrow> (Workflow \<Rightarrow> 'n \<Rightarrow> go_error option \<times> Workflow \<times> 'n) \<Rightarrow>
   ('c, 'n) controller \<Rightarrow> ('c, 'n) controller \<Rightarrow> bool" for eq upd where
  jobs_loop: "informer_step jobMeta Internal (coJobs s) inf' \<Longrightarrow> coJobsTold s = length (infLog (coJobs s)) \<Longrightarrow>
     inner_step eq upd s (s\<lparr>coJobs := inf', coPhase := \<lambda>i. seen_too (infStore inf') (coPhase s i)\<rparr>)"
| flows_loop: "informer_step wfMeta Internal (coFlows s) inf' \<Longrightarrow> coFlowsTold s = length (infLog (coFlows s)) \<Longrightarrow>
     inner_step eq upd s (s\<lparr>coFlows := inf'\<rparr>)"
| others_go: "controller_step eq upd s s' \<Longrightarrow> calm s \<Longrightarrow> calm s' \<Longrightarrow>
     coJobsTold s' \<noteq> coJobsTold s \<or> coFlowsTold s' \<noteq> coFlowsTold s
       \<or> (\<exists>i. stage (coPhase s' i) \<noteq> stage (coPhase s i)) \<Longrightarrow>
     inner_step eq upd s s'"

lemma inner_is_step: "inner_step eq upd s s' \<Longrightarrow> controller_step eq upd s s'"
  by (induction rule: inner_step.induct) (auto intro: controller_step.intros)

inductive inner_run ::
  "(Job \<Rightarrow> Job \<Rightarrow> bool) \<Rightarrow> (Workflow \<Rightarrow> 'n \<Rightarrow> go_error option \<times> Workflow \<times> 'n) \<Rightarrow> nat \<Rightarrow>
   ('c, 'n) controller \<Rightarrow> ('c, 'n) controller \<Rightarrow> bool" for eq upd where
  inner_none: "inner_run eq upd 0 s s"
| inner_more: "inner_run eq upd n s s1 \<Longrightarrow> inner_step eq upd s1 s2 \<Longrightarrow> inner_run eq upd (Suc n) s s2"

section \<open>How much work there is\<close>

definition stages :: "(nat \<Rightarrow> phase) \<Rightarrow> nat" where
  "stages ph = (\<Sum>i | ph i \<noteq> Free. stage (ph i))"

text \<open>
  An object in front of a loop, a notification, a waiting key and a worker with a key: each may turn
  into the next, and counts for more.
\<close>

definition remaining :: "('c, 'n) controller \<Rightarrow> nat" where
  "remaining s =
     6 * (work (coJobs s) + work (coFlows s))
     + 5 * ((length (infLog (coJobs s)) - coJobsTold s) + (length (infLog (coFlows s)) - coFlowsTold s))
     + 4 * card (dirty (coQueue s)) + stages (coPhase s)"

text \<open>What is needed to count, and that a worker with a key has seen the job cache.\<close>

definition countable_work :: "('c, 'n) controller \<Rightarrow> bool" where
  "countable_work s \<longleftrightarrow>
     finite (dirty (coQueue s)) \<and> finite {i. coPhase s i \<noteq> Free}
     \<and> (\<forall>i key b h. coPhase s i = Got key b h \<longrightarrow> h \<noteq> [] \<and> (b \<longrightarrow> jobStoreSynced s))"

lemma stages_update:
  assumes "finite {i. ph i \<noteq> Free}"
  shows "stages (ph(i := p)) + stage (ph i) = stages ph + stage p"
proof -
  let ?F = "insert i {i. ph i \<noteq> Free}"
  have wide: "stages f = (\<Sum>j \<in> ?F. stage (f j))" if "{j. f j \<noteq> Free} \<subseteq> ?F" for f
    unfolding stages_def by (rule sum.mono_neutral_left) (use assms that in auto)
  have "finite ?F" "i \<in> ?F" using assms by simp_all
  note split = sum.remove [OF this]
  have "stages (ph(i := p)) = stage p + (\<Sum>j \<in> ?F - {i}. stage (ph j))"
    by (subst wide) (auto simp: split intro!: sum.cong)
  moreover have "stages ph = stage (ph i) + (\<Sum>j \<in> ?F - {i}. stage (ph j))"
    by (subst wide) (auto simp: split)
  ultimately show ?thesis by simp
qed

lemma stage_seen_too: "stage (seen_too st p) = stage p"
  by (cases p) simp_all

lemma stages_seen_too: "stages (\<lambda>i. seen_too st (ph i)) = stages ph"
proof -
  have "seen_too st p \<noteq> Free \<longleftrightarrow> p \<noteq> Free" for p by (cases p) simp_all
  then show ?thesis by (simp add: stages_def stage_seen_too)
qed

lemma HasSynced_stays:
  assumes "informer_step meta l st st'" and "HasSynced (infFifo st)" and "informer_ok meta st"
  shows "HasSynced (infFifo st')"
  using assms(1)
proof (cases rule: informer_step.cases)
  case (reflector_calls ks c err)
  with grows_sink [OF reflector_calls(3)] assms(2) show ?thesis by (auto simp: HasSynced_def grows_def)
next
  case (loop_pops ds f)
  have "fifo_ok meta (infFifo st)" using assms(3) by (simp add: informer_ok_def)
  from Fifo_Pop_spec [OF this loop_pops(4)] assms(2) loop_pops(2) show ?thesis by (auto simp: HasSynced_def)
qed (use assms(2) in simp)

text \<open>What a handler adds to the queue.\<close>

lemma handled_dirty:
  assumes "handled (mgr s) m" and "finite (dirty (coQueue s))"
  shows "finite (dirty (mQueue m))" and "card (dirty (mQueue m)) \<le> Suc (card (dirty (coQueue s)))"
proof -
  have "mQueue m = coQueue s \<or> (\<exists>k. mQueue m = wq_Add k (coQueue s))"
    using assms(1) by (simp add: handled_def mgr_def)
  then have "\<exists>k. dirty (mQueue m) \<subseteq> insert k (dirty (coQueue s))"
    by (auto simp: wq_Add_def Let_def)
  then obtain k where sub: "dirty (mQueue m) \<subseteq> insert k (dirty (coQueue s))" by blast
  then show "finite (dirty (mQueue m))" using assms(2) finite_subset by blast
  have "card (dirty (mQueue m)) \<le> card (insert k (dirty (coQueue s)))"
    using sub assms(2) by (intro card_mono) simp_all
  then show "card (dirty (mQueue m)) \<le> Suc (card (dirty (coQueue s)))"
    using card_insert_le_m1 [of "Suc (card (dirty (coQueue s)))" "dirty (coQueue s)" k] assms(2)
    by (simp add: card_insert_if split: if_splits)
qed

lemma finite_phases:
  "finite {i. ph i \<noteq> Free} \<Longrightarrow> finite {j. (ph(i := p)) j \<noteq> Free}"
  by (rule finite_subset [of _ "insert i {i. ph i \<noteq> Free}"]) auto

lemma countable_work_step:
  assumes "controller_step eq upd s s'" and sane: "sane upd s" and c: "countable_work s"
  shows "countable_work s'"
proof -
  have ok: "informer_ok jobMeta (coJobs s)" using saneD(4) [OF sane] by (simp add: informer_good_def)
  have fd: "finite (dirty (coQueue s))" and fp: "finite {i. coPhase s i \<noteq> Free}"
    and got: "\<And>i key b h. coPhase s i = Got key b h \<Longrightarrow> h \<noteq> [] \<and> (b \<longrightarrow> jobStoreSynced s)"
    using c by (simp_all add: countable_work_def)
  show ?thesis using assms(1)
  proof (cases rule: controller_step.cases)
    case (jobs_move l inf')
    have "seen_too st p = Free \<longleftrightarrow> p = Free" for st p by (cases p) simp_all
    moreover have "jobStoreSynced s \<Longrightarrow> jobStoreSynced s'"
      using HasSynced_stays [OF jobs_move(2) _ ok] jobs_move(1) by (simp add: jobStoreSynced_def)
    moreover have "\<exists>h0. coPhase s i = Got key b h0 \<and> h \<noteq> []" if "coPhase s' i = Got key b h" for i key b h
      using that jobs_move(1) by (cases "coPhase s i") auto
    ultimately show ?thesis using fd fp got jobs_move(1) by (fastforce simp: countable_work_def)
  next
    case (jobs_tell so ks m)
    with handled_dirty(1) [OF handled_job [OF jobs_tell(4)] fd] c show ?thesis
      by (simp add: countable_work_def put_back_def jobStoreSynced_def)
  next
    case (flows_move l inf')
    with c show ?thesis by (simp add: countable_work_def jobStoreSynced_def)
  next
    case (flows_tell m)
    with handled_flow have "handled (mgr s) m" by blast
    with handled_dirty(1) [OF this fd] flows_tell(1) c show ?thesis
      by (simp add: countable_work_def put_back_def jobStoreSynced_def)
  next
    case (worker_gets i key q)
    have "dirty q \<subseteq> dirty (coQueue s)" using wq.get_item [OF saneD(1) [OF sane] worker_gets(3)] by auto
    then have "finite (dirty q)" using fd finite_subset by blast
    with worker_gets(1) finite_phases [OF fp] got show ?thesis
      by (auto simp: countable_work_def jobStoreSynced_def split: if_splits)
  next
    case (worker_transits i key b h env synced1 synced2 before r st n store)
    with finite_phases [OF fp] fd got show ?thesis
      by (auto simp: countable_work_def jobStoreSynced_def split: if_splits)
  next
    case (worker_done i key rq d m)
    obtain m1 where m1: "handled (mgr s) m1" "mQueue m1 = mQueue m"
      using worker_done(3) handled_enqueueAfter [of "mgr s" key d] by (auto simp: handled_def split: if_splits)
    have "finite (dirty (wq_Done key (mQueue m)))"
      using handled_dirty(1) [OF m1(1) fd] m1(2) by (simp add: wq.finish_pending)
    with worker_done(1) finite_phases [OF fp] got show ?thesis
      by (auto simp: countable_work_def put_back_def jobStoreSynced_def split: if_splits)
  qed
qed

section \<open>Every step leaves less\<close>

lemma loop_step_work:
  assumes "informer_step meta Internal st st'" and "informer_good meta st"
  shows "work st' < work st" and "length (infLog st') \<le> Suc (length (infLog st))"
    and "length (infLog st) \<le> length (infLog st')"
proof -
  show "work st' < work st" using internal_step_work assms by (auto simp: informer_good_def)
  show "length (infLog st') \<le> Suc (length (infLog st))" "length (infLog st) \<le> length (infLog st')"
    using assms by (cases rule: informer_moves; simp)+
qed

lemma inner_step_decreases:
  assumes "inner_step eq upd s s'" and sane: "sane upd s" and c: "countable_work s"
  shows "remaining s' < remaining s"
proof -
  have fd: "finite (dirty (coQueue s))" and fp: "finite {i. coPhase s i \<noteq> Free}"
    using c by (simp_all add: countable_work_def)
  show ?thesis using assms(1)
  proof (cases rule: inner_step.cases)
    case (jobs_loop inf')
    from loop_step_work [OF jobs_loop(2) saneD(4) [OF sane]] jobs_loop(1,3) show ?thesis
      by (simp add: remaining_def stages_seen_too)
  next
    case (flows_loop inf')
    from loop_step_work [OF flows_loop(2) saneD(6) [OF sane]] flows_loop(1,3) show ?thesis
      by (simp add: remaining_def)
  next
    case others_go
    from others_go(1) show ?thesis
    proof (cases rule: controller_step.cases)
      case (jobs_move l inf')
      with others_go(4) show ?thesis by (simp add: stage_seen_too)
    next
      case (jobs_tell so ks m)
      from handled_dirty(2) [OF handled_job [OF jobs_tell(4)] fd] jobs_tell(1,2) show ?thesis
        by (simp add: remaining_def put_back_def)
    next
      case (flows_move l inf')
      with others_go(4) show ?thesis by simp
    next
      case (flows_tell m)
      then have "handled (mgr s) m" using handled_flow by blast
      from handled_dirty(2) [OF this fd] flows_tell(1,2) show ?thesis
        by (simp add: remaining_def put_back_def)
    next
      case (worker_gets i key q)
      from wq.get_item [OF saneD(1) [OF sane] worker_gets(3)]
      have "key \<in> dirty (coQueue s)" "dirty q = dirty (coQueue s) - {key}" by auto
      then have "Suc (card (dirty q)) = card (dirty (coQueue s))" using fd by (metis card_Suc_Diff1)
      with stages_update [OF fp, of i "Got key (jobStoreSynced s) [infStore (coJobs s)]"] worker_gets(1,2)
      show ?thesis by (simp add: remaining_def)
    next
      case (worker_transits i key b h env synced1 synced2 before r st n store)
      have "work ((coFlows s)\<lparr>infStore := store\<rparr>) = work (coFlows s)" by (simp add: work_def)
      with stages_update [OF fp, of i "Ran key (requeue r) (requeueAfter r)"] worker_transits(1,2)
      show ?thesis by (simp add: remaining_def)
    next
      case (worker_done i key rq d m)
      with others_go(2) have "m = mgr s" by (cases rq) (auto simp: calm_def)
      with stages_update [OF fp, of i Free] worker_done(1,2) show ?thesis
        by (simp add: remaining_def put_back_def mgr_def wq.finish_pending)
    qed
  qed
qed

lemma inner_run_bounded:
  "inner_run eq upd n s s' \<Longrightarrow> sane upd s \<Longrightarrow> countable_work s \<Longrightarrow>
     sane upd s' \<and> countable_work s' \<and> n + remaining s' \<le> remaining s"
proof (induction rule: inner_run.induct)
  case (inner_more n s s1 s2)
  then have ok: "sane upd s1" "countable_work s1" "n + remaining s1 \<le> remaining s" by simp_all
  note step = inner_is_step [OF inner_more(2)]
  from sane_step [OF step ok(1)] countable_work_step [OF step ok(1,2)]
    inner_step_decreases [OF inner_more(2) ok(1,2)] ok(3)
  show ?case by simp
qed simp

section \<open>Somebody can go on\<close>

definition at_rest :: "('c, 'n) controller \<Rightarrow> bool" where
  "at_rest s \<longleftrightarrow> nobody_busy s \<and> idle (coJobs s) \<and> idle (coFlows s)"

text \<open>What a worker that has taken \<open>key\<close> may see in its transition.\<close>

definition may_see :: "('c, 'n) controller \<Rightarrow> string \<Rightarrow> bool \<Rightarrow> Job store list \<Rightarrow> 'c tenv \<Rightarrow> bool \<Rightarrow> bool \<Rightarrow> bool" where
  "may_see s key b h env synced1 synced2 \<longleftrightarrow>
     (\<forall>x. obStore (teObs env x) \<in> set h \<and> range_order (obStore (teObs env x)) (obOrder (teObs env x)))
     \<and> (b \<longrightarrow> synced1) \<and> (synced1 \<longrightarrow> synced2) \<and> (synced2 \<longrightarrow> jobStoreSynced s)
     \<and> orders_given (infStore (coFlows s)) key env"

text \<open>
  A job event meets a cached selector that cannot be converted, or every transition of a worker's key
  panics or asks to be run again, whatever it sees.
\<close>

definition held_up :: "(Workflow \<Rightarrow> 'n \<Rightarrow> go_error option \<times> Workflow \<times> 'n) \<Rightarrow> ('c, 'n) controller \<Rightarrow> bool" where
  "held_up upd s \<longleftrightarrow>
     (\<exists>n j. untold (coJobsTold s) (coJobs s) = Some n \<and> note_job n = Some j \<and> poisoned (mgr s) j)
     \<or> (\<exists>i key b h. coPhase s i = Got key b h
          \<and> (\<exists>env synced1 synced2. may_see s key b h env synced1 synced2)
          \<and> (\<forall>env synced1 synced2. may_see s key b h env synced1 synced2 \<longrightarrow>
               (case transitionWorkflow env upd synced1 synced2 key (coState s, coNet s, infStore (coFlows s)) of
                  None \<Rightarrow> True | Some r \<Rightarrow> requeue r)))"

lemma job_handler_None:
  assumes "job_handler eq so ks n m = None" and "orders_ok so ks m"
  shows "\<exists>j. note_job n = Some j \<and> poisoned m j"
  using assms(1) getJobWorkflow_None [OF assms(2)]
  by (cases n rule: note_job.cases)
    (auto simp: addJob_def updateJob_def deleteJob_def Let_def split: option.splits if_splits prod.splits)

lemma some_orders: "\<exists>so ks. orders_ok so ks m"
proof (intro exI)
  show "orders_ok (\<lambda>w. case JobsSelector (Spec w) of None \<Rightarrow> [] | Some sel \<Rightarrow> sorted_keys (entries (MatchLabels sel)))
      (sorted_keys (mWorkflows m)) m"
    by (auto simp: orders_ok_def selector_orders_def selector_order_def fmpred_iff split: option.split)
qed

lemma something_to_see:
  assumes "countable_work s" and "coPhase s i = Got key b h"
  shows "\<exists>env synced1 synced2. may_see s key b h (env :: 'c tenv) synced1 synced2"
proof -
  from assms have h: "hd h \<in> set h" and b: "b \<longrightarrow> jobStoreSynced s" by (auto simp: countable_work_def)
  let ?w = "the (fmlookup (infStore (coFlows s)) key)"
  let ?ob = "\<lparr>obClock = 0, obStore = hd h, obOrder = sorted_keys (hd h)\<rparr>"
  let ?env = "\<lparr>teCreateJob = \<lambda>_ _ _ _ _. None, teGetReference = \<lambda>_. Inl (Errorf []), teValidateMeta = \<lambda>_. [], teNow = 0,
    teObs = \<lambda>_. ?ob,
    teLabelOrder = (case JobsSelector (Spec ?w) of None \<Rightarrow> [] | Some sel \<Rightarrow> sorted_keys (entries (MatchLabels sel))),
    teStepOrder = sorted_keys (wf_steps ?w), teRange = sorted_keys (wf_steps ?w)\<rparr> :: 'c tenv"
  have "may_see s key b h ?env (jobStoreSynced s) (jobStoreSynced s)"
    using h b by (auto simp: may_see_def orders_given_def selector_order_def split: option.split)
  then show ?thesis by blast
qed

lemma calm_update:
  "calm s \<Longrightarrow> coPhase s' = (coPhase s)(i := p) \<Longrightarrow> (\<And>key d. p \<noteq> Ran key True d) \<Longrightarrow> calm s'"
  by (auto simp: calm_def)

lemma somebody_goes_on:
  assumes sane: "sane upd s" and c: "countable_work s" and calm: "calm s"
    and stuck: "\<And>s'. \<not> inner_step eq upd s s'"
  shows "at_rest s \<or> held_up upd s"
proof (rule disjCI)
  assume free: "\<not> held_up upd s"
  have no: False if "controller_step eq upd s s'" "calm s'" "coJobsTold s' \<noteq> coJobsTold s \<or> coFlowsTold s' \<noteq> coFlowsTold s
       \<or> (\<exists>i. stage (coPhase s' i) \<noteq> stage (coPhase s i))" for s'
    using others_go [OF that(1) calm that(2,3)] stuck by blast
  have go: False if "controller_step eq upd s s'" "coPhase s' = (coPhase s)(i := p)" "\<And>key d. p \<noteq> Ran key True d"
      "stage p \<noteq> stage (coPhase s i)" for s' i p
    using no [OF that(1) calm_update [OF calm that(2,3)]] that(2,4) by (metis fun_upd_same)
  have jt: "coJobsTold s = length (infLog (coJobs s))"
  proof (rule ccontr)
    assume "coJobsTold s \<noteq> length (infLog (coJobs s))"
    then have l: "coJobsTold s < length (infLog (coJobs s))" using saneD(5) [OF sane] by (simp add: told_ok_def)
    obtain so ks where o: "orders_ok so ks (mgr s)" using some_orders by blast
    have "job_handler eq so ks (infLog (coJobs s) ! coJobsTold s) (mgr s) \<noteq> None"
    proof
      assume "job_handler eq so ks (infLog (coJobs s) ! coJobsTold s) (mgr s) = None"
      from job_handler_None [OF this o] l have "held_up upd s" by (auto simp: held_up_def untold_def)
      with free show False ..
    qed
    then obtain m where h: "job_handler eq so ks (infLog (coJobs s) ! coJobsTold s) (mgr s) = Some m" by blast
    show False by (rule no [OF jobs_tell [OF l o h]]) (use calm in \<open>simp_all add: calm_def put_back_def\<close>)
  qed
  have ft: "coFlowsTold s = length (infLog (coFlows s))"
  proof (rule ccontr)
    assume "coFlowsTold s \<noteq> length (infLog (coFlows s))"
    then have l: "coFlowsTold s < length (infLog (coFlows s))" using saneD(7) [OF sane] by (simp add: told_ok_def)
    show False by (rule no [OF flows_tell [OF l refl]]) (use calm in \<open>simp_all add: calm_def put_back_def\<close>)
  qed
  have "idle (coJobs s)"
    using busy_steps [of jobMeta "coJobs s"] saneD(4) [OF sane] jobs_loop [OF _ jt] stuck
    unfolding informer_good_def by meson
  moreover have "idle (coFlows s)"
    using busy_steps [of wfMeta "coFlows s"] saneD(6) [OF sane] flows_loop [OF _ ft] stuck
    unfolding informer_good_def by meson
  moreover have phases: "coPhase s i = Free" for i
  proof (cases "coPhase s i")
    case (Got key b h)
    have "\<not> (\<forall>env synced1 synced2. may_see s key b h env synced1 synced2 \<longrightarrow>
               (case transitionWorkflow env upd synced1 synced2 key (coState s, coNet s, infStore (coFlows s)) of
                  None \<Rightarrow> True | Some r \<Rightarrow> requeue r))"
      using free Got something_to_see [OF c Got] unfolding held_up_def by blast
    then obtain env synced1 synced2 r where m: "may_see s key b h env synced1 synced2"
      and t: "transitionWorkflow env upd synced1 synced2 key (coState s, coNet s, infStore (coFlows s)) = Some r"
      and r: "\<not> requeue r" by (auto split: option.splits)
    obtain st n store where st: "transState r = (st, n, store)" by (metis prod_cases3)
    have False
    proof (rule go [OF worker_transits [OF Got _ _ refl t st]])
      show "obStore (teObs env x) \<in> set h \<and> range_order (obStore (teObs env x)) (obOrder (teObs env x))" for x
        using m by (simp add: may_see_def)
      show "(b \<longrightarrow> synced1) \<and> (synced1 \<longrightarrow> synced2) \<and> (synced2 \<longrightarrow> jobStoreSynced s)
         \<and> orders_given (infStore (coFlows s)) key env" using m by (simp add: may_see_def)
    qed (use r Got in auto)
    then show ?thesis ..
  next
    case (Ran key rq d)
    have False by (rule go [OF worker_done [OF Ran refl]]) (auto simp: put_back_def Ran)
    then show ?thesis ..
  qed
  moreover have "wqQueue (coQueue s) = []"
  proof (rule ccontr)
    assume "wqQueue (coQueue s) \<noteq> []"
    then obtain key q where g: "wq_Get (coQueue s) = (Item key, q)" by (cases "wqQueue (coQueue s)") (auto simp: wq_Get_def)
    show False by (rule go [OF worker_gets [OF phases [of 0] g]]) (auto simp: phases)
  qed
  ultimately show "at_rest s" using jt ft by (simp add: at_rest_def nobody_busy_def)
qed

section \<open>The controller comes to rest\<close>

lemma countable_work_New: "countable_work (NewController client net)"
  by (simp add: countable_work_def NewController_def NewManager_def Let_def wq_New_def)

lemma countable_work_run:
  "controller_run eq upd Q s0 s \<Longrightarrow> sane upd s0 \<Longrightarrow> countable_work s0 \<Longrightarrow> sane upd s \<and> countable_work s"
proof (induction rule: controller_run.induct)
  case (run_on s0 s1 s2)
  then have "sane upd s1" "countable_work s1" by simp_all
  with sane_step [OF run_on(2)] countable_work_step [OF run_on(2)] show ?case by blast
qed simp


text \<open>And at rest nothing moves.\<close>

lemma idle_still:
  assumes "idle st"
  shows "\<not> informer_step meta Internal st st'"
proof
  assume "informer_step meta Internal st st'"
  then show False by (cases rule: informer_step.cases) (use assms in \<open>simp_all add: idle_def Fifo_Pop_def\<close>)
qed

lemma at_rest_still:
  assumes "at_rest s"
  shows "\<not> inner_step eq upd s s'"
proof
  have free: "coPhase s i = Free" and q: "wqQueue (coQueue s) = []"
    and told: "coJobsTold s = length (infLog (coJobs s))" "coFlowsTold s = length (infLog (coFlows s))"
    and idle: "idle (coJobs s)" "idle (coFlows s)" for i
    using assms by (simp_all add: at_rest_def nobody_busy_def)
  assume "inner_step eq upd s s'"
  then show False
  proof (cases rule: inner_step.cases)
    case others_go
    from others_go(1) show False
    proof (cases rule: controller_step.cases)
      case (jobs_move l inf')
      with others_go(4) show False by (simp add: stage_seen_too)
    next
      case (flows_move l inf')
      with others_go(4) show False by simp
    qed (use free q told in \<open>simp_all add: wq_Get_def split: if_splits\<close>)
  qed (use idle idle_still in blast)+
qed

section \<open>Example\<close>

text \<open>
  A workflow has been announced to the delta queue and its loop may go on; and the run of theory
  Wakeups, in which everything has been worked off.
\<close>

definition announced :: "(call list, unit) controller option" where
  "announced = do_acts (=) (\<lambda>w n. (None, w, n)) (\<lambda>_. True)
     [FlowCall (CallAdd (two_workflow fmempty)) []] (NewController [] ())"

lemma announced_moves:
  "case announced of None \<Rightarrow> False | Some s \<Rightarrow>
     coFlowsTold s = length (infLog (coFlows s)) \<and> moved wfMeta (coFlows s) \<noteq> None"
  by code_simp

lemma ran_idle: "case ran of None \<Rightarrow> False | Some s \<Rightarrow> idle (coJobs s) \<and> idle (coFlows s)"
  by code_simp


end
