(* ===== verification/Spec2Isabelle.thy ===== *)
theory Spec2Isabelle
  imports Manager Watch Program Dax Liveness Interleaving Aliasing Restart Staleness OneWorkflow Settled Rest
begin

text \<open>
  A verification development for the workflow controller for Kubernetes in \<^verbatim>\<open>src/\<close> (Go).  A workflow
  is a set of named steps with dependencies; the controller creates a job for every step whose
  dependencies have completed, follows the jobs, and marks the workflow complete.

  \<^bold>\<open>How the program works.\<close>  \<^verbatim>\<open>main.go\<close> builds three clients, registers the third party resource
  "workflow" and starts the manager.  Two informers of the manager (\<^verbatim>\<open>pkg/workflow/manager.go\<close>) keep a
  cache of the workflows, fed by the polling watch of \<^verbatim>\<open>pkg/client/workflows.go\<close>, and a cache of the
  jobs.  Their handlers put the key of a workflow into a queue whenever it or one of its jobs
  changes; five workers take keys out of the queue and run a transition
  (\<^verbatim>\<open>pkg/workflow/transitioner.go\<close>) on each: set defaults and validate once
  (\<^verbatim>\<open>pkg/validation/validation.go\<close>), then look at every step, create its job
  (\<^verbatim>\<open>pkg/job/control.go\<close>) or copy the job's state into the step's status, and send the changed
  workflow to the server.  A cache of expectations (\<^verbatim>\<open>pkg/workflow/utils.go\<close>) keeps a step from
  creating a second job while the first is on its way into the cache.  \<^verbatim>\<open>dax-to-json\<close> is a separate
  program that makes a workflow of a DAX graph.

  \<^bold>\<open>Conventions.\<close>  A Go struct is a record with the source's fields, a map is a finite map
  (\<open>'v gomap\<close>), a map that may be nil an option of one (\<open>'v nilmap\<close>).  None is a panic where
  the function can panic; a returned error is a \<open>go_error\<close>, with its format string.  State is
  passed explicitly.  Go visits maps in an order of its own choice, anew each time: every loop over
  a map takes the order as an argument, and the theorems hold for every order (\<open>range_order\<close>).
  Code that is not part of this repository is an argument: the network, JSON and XML, the API
  server, Kubernetes' metadata validation, the clock, random numbers.  Strings are byte lists,
  times are nanoseconds as integers (with the saturation of \<^verbatim>\<open>time.Since\<close> where it is used).

  \<^bold>\<open>Theories.\<close>
  \<^item> Prelude, GoPath: maps, iteration orders, errors; \<^verbatim>\<open>path.Clean\<close> and \<^verbatim>\<open>path.Join\<close>.
  \<^item> Api: \<^verbatim>\<open>pkg/api\<close>, the workflow with its methods; the order of a step's phases.
  \<^item> Expectations: \<^verbatim>\<open>pkg/workflow/utils.go\<close>; locale \<open>expectation_cache\<close>; what the cache answers
    after any history of calls.
  \<^item> LabelSelectors: the vendored label selectors the program runs through.
  \<^item> TopoSort, Validation: \<^verbatim>\<open>pkg/validation\<close>; the sort accepts exactly the acyclic graphs over
    existing steps (with the fuel one more than the number of steps, which is proved never to run
    out); which specs and updates validation accepts.
  \<^item> Stores, Listers: the object cache (locale \<open>object_store\<close>) and \<^verbatim>\<open>pkg/client/cache/listers.go\<close>.
  \<^item> JobControl: \<^verbatim>\<open>pkg/job/control.go\<close>, real and fake (locale \<open>job_control\<close>).
  \<^item> Transitioner, Pass, Transition: \<^verbatim>\<open>pkg/workflow/transitioner.go\<close>; one pass over the steps; the
    retry loop (locale \<open>workflow_interface\<close> of theory Client, at most four updates) and the whole
    transition, with what it does to the maps it shares with the cache (\<open>cached_after\<close>).
  \<^item> Client, Watch: \<^verbatim>\<open>pkg/client\<close> and \<^verbatim>\<open>pkg/watch\<close>; URLs, requests, and the polling watch with an
    explicit store for the loop variables whose addresses it sends.
  \<^item> WorkQueue, Manager: the vendored work queue (locale \<open>work_queue\<close> and a step relation for any
    number of workers) and \<^verbatim>\<open>pkg/workflow/manager.go\<close>.
  \<^item> Program: \<^verbatim>\<open>main.go\<close> and the start of the manager.  Waiting for the server has no bound in the
    code and is a \<open>partial_function\<close>; it returns exactly if the server ever answers.
  \<^item> Dax: \<^verbatim>\<open>dax-to-json\<close>.
  \<^item> Liveness: sequences of passes; no step starts before its dependencies are complete, and a
    workflow without cycles completes.
  \<^item> Interleaving: a worker, the informer, the server and the clock interleaved at the points where
    the code can be interrupted; a step of the transitioner is a run of the machine; the code's
    order of reads can make two jobs for a step, the other order never does.
  \<^item> Aliasing: \<^verbatim>\<open>process\<close> once more on a heap in which the worker's copy of a workflow and the
    cached workflow share their maps; the heap run does what the value model of Pass says, and the
    cached workflow reads afterwards as \<open>cached_after\<close> of Transition says.
  \<^item> DeltaFifo, Informer: the delta queue of the informers (abstraction \<open>view\<close>: what the cache will
    hold), and an informer as a step relation of reflector and loop (locale \<open>event_sink\<close>); what every
    call makes the cache become, that the loop comes to rest, what \<^verbatim>\<open>HasSynced\<close> is worth.
  \<^item> Restart: why a step can get a second job after a restart.
  \<^item> Delivery, Staleness, OneWorkflow: the polling goroutines, the reflector and the loop of the
    workflow informer as one machine over the shared loop variables, with a scheduler to run it; how
    the cache of workflows goes wrong, and that it follows the server when there is one workflow.
  \<^item> Contents, Controller, Wakeups: the running manager, both informers with their handlers and any
    number of workers interleaved, with a scheduler to run it; a round of a worker is a run of it; no
    wakeup is lost.
  \<^item> Rest, Waiting, Settled: left alone the running controller comes to rest in a bounded number of
    steps; at rest every unfinished valid workflow waits for something outside the controller, which
    Waiting names; and where every job that was created has arrived, alone, and finished, and the
    cache is up to date, the workflow is complete.

  This theory adds what spans the components: a DAX graph that was converted and posted completes,
  and what one round of a worker, wired as the program wires it, can cost.

  \<^bold>\<open>Not modelled.\<close>  Logging and events to the recorder (but for the failed creation), HTTP and JSON
  themselves, resource versions, timeouts and error returns of the reflectors and the watch on jobs
  (the calls a reflector makes on the delta queue are modelled), deletion of jobs (the code never calls it), the parser of label selectors and the
  operators the program never builds, \<^verbatim>\<open>pastActiveDeadline\<close> beyond its constant, the web interface
  in JavaScript, scripts and examples.  Goroutines are not modelled inside a single lock-protected
  call; the maps a workflow shares with the cache are on a heap from \<^verbatim>\<open>process\<close> down (theory
  Aliasing); the retry loop, which writes a field of the worker's own copy, is modelled on values.
\<close>

section \<open>From a DAX graph to a completed workflow\<close>

lemma convert_step_count:
  assumes "convert intn mustParse scheduling args adag r = Some w"
  shows "card (fmdom' (wf_steps w)) \<le> length (daxJobs adag)"
proof -
  have "k \<in> (\<lambda>j. ToLower (jobID j)) ` set (daxJobs adag)" if "k \<in> fmdom' (wf_steps w)" for k
  proof -
    from that obtain step where "fmlookup (wf_steps w) k = Some step" by (auto simp: fmlookup_dom'_iff)
    with convert_lookup(1) [OF assms, of k] obtain j where "job_of adag k = Some j" by auto
    then have "j \<in> set (daxJobs adag) \<and> ToLower (jobID j) = k"
      by (auto simp: job_of_def find_Some_iff rev_nth)
    then show ?thesis by auto
  qed
  then have "fmdom' (wf_steps w) \<subseteq> (\<lambda>j. ToLower (jobID j)) ` set (daxJobs adag)" by auto
  then have "card (fmdom' (wf_steps w)) \<le> card ((\<lambda>j. ToLower (jobID j)) ` set (daxJobs adag))"
    by (intro card_mono) auto
  also have "\<dots> \<le> card (set (daxJobs adag))" by (rule card_image_le) simp
  also have "\<dots> \<le> length (daxJobs adag)" by (rule card_length)
  finally show ?thesis .
qed

text \<open>
  C14. A DAX graph without cycles whose parents are all jobs of it, converted, posted under any
  metadata and given its defaults, is worked off: after more served passes than it has jobs the
  workflow is complete, and at no time has a step started before its dependencies were.
\<close>

theorem dax_workflow_completes:
  assumes "convert intn mustParse scheduling args adag r = Some w"
    and "acyclic (dax_deps adag)" and "Range (dax_deps adag) \<subseteq> {d. job_of adag d \<noteq> None}"
    and "SetDefaults now (w\<lparr>wfMeta := m\<rparr>) = Some w0"
    and "passes n (w0, st) (w', st')" and "length (daxJobs adag) < n"
  shows "IsFinished w' \<and> statuses_ok w'"
proof -
  have "JobsSelector (Spec (w\<lparr>wfMeta := m\<rparr>)) = None" using convert_spec [OF assms(1)] by simp
  from SetDefaults_no_selector [OF this, of now] assms(4) have s: "wf_steps w0 = wf_steps w" by auto
  have d: "acyclic (deps (wf_steps w0))" "no_missing_deps (wf_steps w0)"
    using assms(2,3) by (simp_all add: s convert_deps [OF assms(1)] convert_closed [OF assms(1)])
  have "open_steps w0 \<le> card (fmdom' (wf_steps w0))"
    unfolding open_steps_def by (intro card_mono) auto
  also have "\<dots> \<le> length (daxJobs adag)" unfolding s by (rule convert_step_count [OF assms(1)])
  finally have "open_steps w0 < n" using assms(6) by simp
  with passes_measure [OF assms(5) d] have "IsFinished w'" by auto
  moreover have "statuses_ok w'"
    using passes_statuses_ok [OF assms(5)] SetDefaults_statuses_ok [OF assms(4)] by blast
  ultimately show ?thesis by simp
qed

section \<open>What one round of a worker costs\<close>

lemma process_step_creates:
  assumes "process_step env w s step st = Some (b, w', st')" and "fmlookup (wf_steps w) s = Some step"
    and one: "\<And>ns t v k c r c'. teCreateJob env ns t v k c = Some (r, c') \<Longrightarrow> count c' \<le> Suc (count c)"
  shows "count (ctl st') \<le> Suc (count (ctl st) :: nat)"
proof (cases "JobTemplate step = None")
  case True
  with assms(1) show ?thesis
    by (auto simp: process_step_def processExternalReferenceStep_def split: if_splits)
next
  case False
  with assms(1) have "processJobStep env w s step st = Some (b, w', st')" by (simp add: process_step_def)
  from this assms(2) show ?thesis
  proof (cases rule: processJobStep_cases)
    case (create t)
    then show ?thesis
      using one by (fastforce simp: createJobForStep_def Let_def split: if_splits option.splits prod.splits)
  qed simp_all
qed

lemma process_creates:
  assumes "process env w st = Some (b, w', st')"
    and one: "\<And>ns t v k c r c'. teCreateJob env ns t v k c = Some (r, c') \<Longrightarrow> count c' \<le> Suc (count c)"
  shows "count (ctl st') \<le> (count (ctl st) + length (teRange env) :: nat)"
proof -
  have loop: "count (ctl st2) \<le> count (ctl st1) + length ks"
    if "steps_loop env (wf_steps v) ks (n, c, v, st1) = Some (n', c', v', st2)" for v ks n c st1 n' c' v' st2
  proof -
    have "Spec v' = Spec v \<and> count (ctl st2) + length ([] :: string list) \<le> count (ctl st1) + length ks"
      using that
    proof (induction rule: steps_loop_induct [where P = "\<lambda>rest _ _ u st.
        Spec u = Spec v \<and> count (ctl st) + length rest \<le> count (ctl st1) + length ks"])
      case (process k rest n c u st1' step b u1 st2')
      then have lk: "fmlookup (wf_steps u) k = Some step" by simp
      from process_step_frame [OF process(4) lk] have "status_frame u k u1" by simp
      note frame = status_frame_simps(2) [OF this]
      have "count (ctl st2') \<le> Suc (count (ctl st1'))"
        using process(4) lk by (rule process_step_creates) (rule one)
      with frame process(1) show ?case by simp
    qed simp_all
    then show ?thesis by simp
  qed
  have steps: "count (ctl st2) \<le> count (ctl st1) + length (teRange env)"
    if "processSteps env v st1 = Some (b', v', st2)" for v st1 b' v' st2
    using that loop by (auto simp: processSteps_def split: option.splits if_splits)
  show ?thesis
    using assms(1) steps by (fastforce simp: process_def Let_def split: if_splits option.splits)
qed

text \<open>
  C20. One round of a worker, with everything wired as the program wires it: at most one job is
  created per step the pass visits, the server gets at most four updates and three reads, and no
  other workflow of the cache is touched.
\<close>

theorem controller_round_bounds:
  assumes "worker_round (NewTransitionerFor tp cd tpClient env synced1 synced2) m = Round m'"
    and "teCreateJob env = Control_CreateJob kc enc conv"
  shows "length (created (ctl (mState m'))) \<le> length (created (ctl (mState m))) + length (teRange env)
     \<and> length (net_puts (mNet m')) \<le> length (net_puts (mNet m)) + 4
     \<and> net_gets (mNet m') \<le> net_gets (mNet m) + 3
     \<and> (\<exists>key. \<forall>k. k \<noteq> key \<longrightarrow> fmlookup (mWorkflows m') k = fmlookup (mWorkflows m) k)"
proof -
  let ?upd = "updateWorkflowStatus (client_update tp cd tpClient) (client_get tp cd tpClient)"
  from assms(1) obtain key r st n store
    where t: "transitionWorkflow env ?upd synced1 synced2 key (mState m, mNet m, mWorkflows m) = Some r"
      and r: "transState r = (st, n, store)" and m': "mState m' = st" "mNet m' = n" "mWorkflows m' = store"
    by (auto simp: worker_round_def NewTransitionerFor_def enqueueAfter_def Let_def
        split: get_result.splits prod.splits option.splits)
  have one: "length (created c') \<le> Suc (length (created c))"
    if "teCreateJob env ns t v k c = Some (res, c')" for ns t v k c res c'
    using control.create_at_most_one [of kc enc conv ns t v k c res c'] that assms(2) by simp
  have net: "length (net_puts n2) \<le> length (net_puts n1) + 4 \<and> net_gets n2 \<le> net_gets n1 + 3"
    if "?upd w n1 = (err, w2, n2)" for w n1 err w2 n2
    using tp_client.updateWorkflowStatus_sent [OF that] unfolding sent_ok_def by auto
  show ?thesis
  proof (cases "\<exists>w b w' st'. workflowByKey (mWorkflows m) key = Some w \<and> preconditionsMet synced1 w
      \<and> process env w (mState m) = Some (b, w', st')")
    case True
    then obtain w b w' st' where w: "workflowByKey (mWorkflows m) key = Some w" "preconditionsMet synced1 w"
      and p: "process env w (mState m) = Some (b, w', st')" by blast
    obtain err w'' n' where u: "?upd w' (mNet m) = (err, w'', n')" by (cases "?upd w' (mNet m)") auto
    have "st = st'" "n = (if b then n' else mNet m)" "store = fmupd key (cached_after w w') (mWorkflows m)"
      using t r w p u by (auto simp: transitionWorkflow_def Let_def split: if_splits option.splits)
    with m' process_creates [OF p, of "\<lambda>c. length (created c)", OF one] net [OF u] show ?thesis
      by (auto intro!: exI [of _ key])
  next
    case False
    with t r have "ctl st = ctl (mState m)" "n = mNet m" "store = mWorkflows m"
      by (auto simp: transitionWorkflow_def Let_def split: if_splits option.splits)
    with m' show ?thesis by simp
  qed
qed

section \<open>Examples\<close>

text \<open>A round on a workflow that has its defaults: it is validated, its first step gets a job, the server an update.\<close>

definition round_codec :: codec where
  "round_codec = name_codec\<lparr>marshal := \<lambda>_. Inr ''mydag''\<rparr>"

definition round_start :: "(Control, string gomap net) mstate" where
  "round_start = \<lparr>mQueue = wq_Add ''default/mydag'' wq_New,
     mState = \<lparr>ctl = new_control, exps = NewWorkflowStepExpectations\<rparr>, mNet = new_net,
     mWorkflows = demo_store, mJobs = fmempty, mSlept = []\<rparr>"

definition round_done :: "(Control, string gomap net) mstate round_result" where
  "round_done = worker_round (NewTransitionerFor keeping_server round_codec local_client demo_env True True) round_start"

lemma round_counts:
  "(case round_done of Round m' \<Rightarrow> Some (length (created (ctl (mState m'))), length (net_puts (mNet m'))) | _ \<Rightarrow> None)
     = Some (1, 1)"
  by code_simp

lemma controller_round_bounds_witness:
  "\<exists>m'. round_done = Round m' \<and> length (created (ctl (mState m'))) = 1 \<and> length (net_puts (mNet m')) = 1
     \<and> net_gets (mNet m') \<le> net_gets new_net + 3"
proof -
  obtain m' where m': "round_done = Round m'" "length (created (ctl (mState m'))) = 1" "length (net_puts (mNet m')) = 1"
    using round_counts by (auto split: round_result.splits)
  have "teCreateJob demo_env = Control_CreateJob accept_job encode_name Inr" by (simp add: demo_env_def)
  from controller_round_bounds [OF m'(1) [unfolded round_done_def] this]
  have "net_gets (mNet m') \<le> net_gets (mNet round_start) + 3" by blast
  with m' show ?thesis by (intro exI [of _ m']) (simp add: round_start_def)
qed

text \<open>A graph of one job, which has finished by the time of the first pass.\<close>

definition single_dax :: Adag where
  "single_dax = \<lparr>daxJobs = [dax_job ''ID00''], Childs = [], ChildMap = None\<rparr>"

definition dax_posted :: Workflow where
  "dax_posted = the (SetDefaults 7 ((the (converted single_dax))\<lparr>wfMeta := sample_meta ''graph'' None\<rparr>))"

definition dax_template :: JobTemplateSpec where
  "dax_template = the (JobTemplate (the (fmlookup (wf_steps dax_posted) ''id00'')))"

definition dax_finished :: Job where
  "dax_finished =
     \<lparr>jobMeta = sample_meta ''graph-x1'' (Some (getWorkflowJobLabelSet dax_posted dax_template ''id00'')),
      jobSpec = tmplSpec dax_template, jobConditions = [\<lparr>jcType = JobComplete, jcStatus = ConditionTrue\<rparr>]\<rparr>"

definition dax_env :: "call list tenv" where
  "dax_env =
     (sample_env \<lparr>obClock = 0, obStore = fmupd ''default/graph-x1'' dax_finished fmempty, obOrder = [''default/graph-x1'']\<rparr>)
       \<lparr>teRange := [''id00'']\<rparr>"

lemma dax_runs:
  "converted single_dax = Some (the (converted single_dax))"
  "SetDefaults 7 ((the (converted single_dax))\<lparr>wfMeta := sample_meta ''graph'' None\<rparr>) = Some dax_posted"
  by code_simp+

lemma dax_posted_facts:
  "range_order (wf_steps dax_posted) [''id00'']"
  "map_option (\<lambda>step. (JobTemplate step, Dependencies step)) (fmlookup (wf_steps dax_posted) ''id00'') = Some (Some dax_template, [])"
  "step_jobs dax_env dax_posted ''id00'' dax_template = [dax_finished]"
  by code_simp+

lemma dax_only_step: "fmlookup (wf_steps dax_posted) s = Some step \<Longrightarrow> s = ''id00''"
  using range_order_mem [OF dax_posted_facts(1), of s] by simp

lemma dax_env_total: "control_total dax_env"
  by (simp add: control_total_def dax_env_def sample_env_def noted_def)

lemma dax_workflow_completes_witness:
  "\<exists>w' st'. passes 2 (dax_posted, sample_tstate) (w', st') \<and> IsFinished w' \<and> statuses_ok w'"
proof -
  obtain step where step: "fmlookup (wf_steps dax_posted) ''id00'' = Some step" "JobTemplate step = Some dax_template"
    "Dependencies step = []" using dax_posted_facts(2) by auto
  have fin: "IsJobFinished dax_finished" by code_simp
  have ref: "teGetReference dax_env dax_finished = Inr sample_reference" by (simp add: dax_env_def sample_env_def)
  have tr: "teRange dax_env = [''id00'']" by (simp add: dax_env_def)
  note o1 = dax_posted_facts(1) [folded tr]
  have "served_step dax_env dax_posted ''id00'' step"
    using step(2) dax_posted_facts(3) fin ref by (simp add: served_step_def)
  then have s1: "served dax_env dax_posted"
    unfolding served_def fmpred_iff by (metis dax_only_step option.inject step(1))
  note sts = SetDefaults_no_status [OF dax_runs(2)]
  then have "Statuses (Status dax_posted) \<noteq> None" by simp
  then obtain b v st1 where p1: "processSteps dax_env dax_posted sample_tstate = Some (b, v, st1)"
    using processSteps_total [OF dax_env_total] by fastforce
  have open1: "step_phase dax_posted ''id00'' \<noteq> Completed"
    by (simp add: step_phase_def status_phase_def sts)
  have "DependenciesResolved step dax_posted" by (simp add: DependenciesResolved_iff step(3))
  then have c: "step_phase v ''id00'' = Completed"
    using processSteps_tracks [OF p1 _ _ step(1,2) _ open1 dax_posted_facts(3) ref] tr fin by simp
  have sv: "Spec v = Spec dax_posted" using processSteps_keeps [OF p1] by blast
  with o1 have o2: "range_order (wf_steps v) (teRange dax_env)" by simp
  have s2: "served dax_env v"
    unfolding served_def fmpred_iff by (metis c dax_only_step open_step_def sv)
  have "Statuses (Status v) \<noteq> None" using c by (cases "Statuses (Status v)") (simp_all add: step_phase_def status_phase_def)
  then obtain b' w' st' where p2: "processSteps dax_env v st1 = Some (b', w', st')"
    using processSteps_total [OF dax_env_total] by fastforce
  have p: "passes 2 (dax_posted, sample_tstate) (w', st')"
    using one_more [OF one_more [OF no_pass o1 p1] o2 p2] s1 s2 by (simp add: numeral_2_eq_2)
  have "dax_deps single_dax = {}"
    by (auto simp: dax_deps_def parents_of_def single_dax_def)
  then have d: "acyclic (dax_deps single_dax)" "Range (dax_deps single_dax) \<subseteq> {d. job_of single_dax d \<noteq> None}"
    by (simp_all add: acyclic_def)
  have "length (daxJobs single_dax) < 2" by (simp add: single_dax_def)
  from dax_workflow_completes [OF dax_runs(1) [unfolded converted_def [of single_dax]] d
      dax_runs(2) [unfolded converted_def [of single_dax]] p this] p
  show ?thesis by (intro exI [of _ w'] exI [of _ st'] conjI) simp_all
qed

end
